(* ===== verification/Prelude.thy ===== *)
theory Prelude
  imports Main "HOL-Library.Word"
begin

text \<open>
  Shared vocabulary of the development: the machine level types (bytes, 64-bit words, the
  allocator), the result type with the ways a run of the C program can go wrong, the pieces of
  the C library that several components use (\<^verbatim>\<open>strlen\<close>, \<^verbatim>\<open>strncmp\<close>, \<^verbatim>\<open>memcmp\<close>, \<^verbatim>\<open>isdigit\<close>,
  the \<^verbatim>\<open>%lu\<close> and \<^verbatim>\<open>%ld\<close> conversions of \<^verbatim>\<open>printf\<close>) and the generic lemmas the components share.
\<close>

section \<open>Types\<close>

text \<open>
  A byte is an Isabelle \<^typ>\<open>char\<close> (eight bits), text and buffers are lists of them. A C string
  in memory is the list of the bytes from its address to the end of the buffer; its value ends
  at the first zero byte.
\<close>

type_synonym byte = char
type_synonym addr = "64 word"

abbreviation NUL :: byte where "NUL \<equiv> CHR 0x00"
abbreviation CR :: byte where "CR \<equiv> CHR 0x0D"
abbreviation LF :: byte where "LF \<equiv> CHR 0x0A"
abbreviation CRLF :: string where "CRLF \<equiv> [CR, LF]"

text \<open>
  \<^verbatim>\<open>malloc\<close>, \<^verbatim>\<open>calloc\<close> and \<^verbatim>\<open>realloc\<close>: the address a request for that many bytes returns, \<^term>\<open>0\<close>
  (\<^verbatim>\<open>NULL\<close>) when the request fails. Every operation that allocates takes the allocator as an
  argument, so that the out-of-memory branches of the code are branches of the model.
\<close>

type_synonym allocator = "nat \<Rightarrow> addr"

definition alloc_total :: "allocator \<Rightarrow> bool" where
  "alloc_total al \<longleftrightarrow> (\<forall>n. al n \<noteq> 0)"

text \<open>
  The ways a run ends without a result: a failed \<^verbatim>\<open>assert\<close> (the assertions are modelled as in
  a build without \<^verbatim>\<open>NDEBUG\<close>), a use of a null pointer, a use of freed memory, a read past the end of
  an allocation, a loop that does not end, and, in the models that recurse on a depth bound, the
  bound used up.
\<close>

datatype abort = Assert_failed | Null_deref | Dangling | Out_of_bounds | Diverges | Out_of_fuel

type_synonym 'a res = "abort + 'a"

definition res_bind :: "'a res \<Rightarrow> ('a \<Rightarrow> 'b res) \<Rightarrow> 'b res" where
  "res_bind r f = (case r of Inl e \<Rightarrow> Inl e | Inr x \<Rightarrow> f x)"

named_theorems vstr_simps \<open>what the string operations do to the contents\<close>
named_theorems wf_intros \<open>operations keep the well-formedness invariants\<close>
named_theorems lib_simps \<open>the C library functions on the arguments the code gives them\<close>

section \<open>The C library\<close>

text \<open>The value of the C string at the start of a buffer, and \<^verbatim>\<open>strlen\<close>.\<close>

definition c_str :: "string \<Rightarrow> string" where
  "c_str m = takeWhile (\<lambda>c. c \<noteq> NUL) m"

definition strlen :: "string \<Rightarrow> nat" where
  "strlen m = length (c_str m)"

text \<open>
  \<^verbatim>\<open>strncmp\<close> on two buffers: the difference of the first two bytes that differ, \<^term>\<open>0\<close> if there
  is none among the first \<^term>\<open>n\<close> or before a common zero byte. A buffer that ends is read as if
  a zero byte followed it, which is where every string of the program ends.
\<close>

fun strncmp :: "string \<Rightarrow> string \<Rightarrow> nat \<Rightarrow> int" where
  "strncmp a b 0 = 0"
| "strncmp [] [] (Suc n) = 0"
| "strncmp (x # a) [] (Suc n) = of_char x"
| "strncmp [] (y # b) (Suc n) = - of_char y"
| "strncmp (x # a) (y # b) (Suc n) =
     (if x \<noteq> y then of_char x - of_char y
      else if x = NUL then 0 else strncmp a b n)"

text \<open>\<^verbatim>\<open>memcmp\<close>: as \<^verbatim>\<open>strncmp\<close>, but a zero byte does not end the comparison.\<close>

fun memcmp :: "string \<Rightarrow> string \<Rightarrow> nat \<Rightarrow> int" where
  "memcmp a b 0 = 0"
| "memcmp [] [] (Suc n) = 0"
| "memcmp (x # a) [] (Suc n) = of_char x"
| "memcmp [] (y # b) (Suc n) = - of_char y"
| "memcmp (x # a) (y # b) (Suc n) =
     (if x \<noteq> y then of_char x - of_char y else memcmp a b n)"

definition isdigit :: "byte \<Rightarrow> bool" where
  "isdigit c \<longleftrightarrow> 48 \<le> (of_char c :: nat) \<and> (of_char c :: nat) \<le> 57"

definition digit_val :: "byte \<Rightarrow> nat" where
  "digit_val c = of_char c - 48"

text \<open>The conversions \<^verbatim>\<open>%lu\<close> and \<^verbatim>\<open>%ld\<close> of \<^verbatim>\<open>printf\<close>.\<close>

definition dec_digit :: "nat \<Rightarrow> byte" where
  "dec_digit d = char_of (48 + d)"

fun fmt_lu :: "nat \<Rightarrow> string" where
  "fmt_lu n = (if n < 10 then [dec_digit n] else fmt_lu (n div 10) @ [dec_digit (n mod 10)])"

declare fmt_lu.simps [simp del]

definition fmt_ld :: "int \<Rightarrow> string" where
  "fmt_ld z = (if z < 0 then CHR ''-'' # fmt_lu (nat (- z)) else fmt_lu (nat z))"

text \<open>The number a list of decimal digits stands for, most significant digit first.\<close>

definition dec_value :: "string \<Rightarrow> nat" where
  "dec_value cs = foldl (\<lambda>acc c. acc * 10 + digit_val c) 0 cs"

section \<open>Results\<close>

lemma res_bind_simps [simp]:
  "res_bind (Inl e) f = Inl e"
  "res_bind (Inr x) f = f x"
  by (simp_all add: res_bind_def)

lemma res_bind_cong [fundef_cong]:
  "r = r' \<Longrightarrow> (\<And>x. r' = Inr x \<Longrightarrow> f x = g x) \<Longrightarrow> res_bind r f = res_bind r' g"
  by (cases r') auto

lemma res_bind_Inr: "res_bind r f = Inr y \<longleftrightarrow> (\<exists>x. r = Inr x \<and> f x = Inr y)"
  by (cases r) auto

lemma res_bind_assoc: "res_bind (res_bind r f) g = res_bind r (\<lambda>x. res_bind (f x) g)"
  by (cases r) auto

text \<open>A loop body run over a list of elements, with the early exit of a C loop: the body says whether to
  go on, the result whether the loop came to its end.\<close>

fun run_body :: "('a \<Rightarrow> 's \<Rightarrow> (bool \<times> 's) res) \<Rightarrow> 'a list \<Rightarrow> 's \<Rightarrow> (bool \<times> 's) res" where
  "run_body body [] s = Inr (True, s)"
| "run_body body (x # xs) s = res_bind (body x s) (\<lambda>(go, s').
     if go then run_body body xs s' else Inr (False, s'))"

lemma alloc_totalD [simp]: "alloc_total al \<Longrightarrow> al n \<noteq> 0"
  by (simp add: alloc_total_def)

lemma alloc_total_const [simp]: "alloc_total (\<lambda>_. p) \<longleftrightarrow> p \<noteq> 0"
  by (simp add: alloc_total_def)

section \<open>Lists\<close>

lemma take_list_update_last:
  "n < length xs \<Longrightarrow> take (Suc n) (xs[n := x]) = take n xs @ [x]"
  by (simp add: take_Suc_conv_app_nth)

lemma sum_list_list_update:
  fixes xs :: "nat list"
  assumes "i < length xs"
  shows "sum_list (xs[i := v]) + xs ! i = sum_list xs + v"
  using assms
proof (induction xs arbitrary: i)
  case Nil
  then show ?case by simp
next
  case (Cons x xs)
  then show ?case by (cases i) auto
qed

lemma foldl_append_single: "foldl (\<lambda>acc x. acc @ [f x]) acc xs = acc @ map f xs"
  by (induction xs arbitrary: acc) auto

section \<open>Comparison of buffers\<close>

lemma of_char_nat_eq [simp]: "(of_char a :: nat) = of_char b \<longleftrightarrow> a = b"
  by (simp add: of_char_eq_iff)

lemma of_char_int_eq [simp]: "(of_char a :: int) = of_char b \<longleftrightarrow> a = b"
  by (simp add: of_char_eq_iff)

lemma of_char_int_0 [simp]: "(of_char a :: int) = 0 \<longleftrightarrow> a = NUL"
proof -
  have "(of_char NUL :: int) = 0" by simp
  then show ?thesis by (metis of_char_int_eq)
qed

lemma memcmp_eq_0 [lib_simps]:
  assumes "n \<le> length a" "n \<le> length b"
  shows "memcmp a b n = 0 \<longleftrightarrow> take n a = take n b"
  using assms by (induction a b n rule: memcmp.induct) auto

lemma strncmp_eq_0 [lib_simps]:
  assumes "n \<le> length a" "n \<le> length b" "NUL \<notin> set (take n a)"
  shows "strncmp a b n = 0 \<longleftrightarrow> take n a = take n b"
  using assms by (induction a b n rule: strncmp.induct) auto

lemma strncmp_refl: "take n a = take n b \<Longrightarrow> strncmp a b n = 0"
  by (induction a b n rule: strncmp.induct) auto

section \<open>Decimal numbers\<close>

lemma of_char_dec_digit: "d < 10 \<Longrightarrow> (of_char (dec_digit d) :: nat) = 48 + d"
  by (simp add: dec_digit_def)

lemma isdigit_dec_digit [simp]: "d < 10 \<Longrightarrow> isdigit (dec_digit d)"
  by (simp add: isdigit_def of_char_dec_digit)

lemma digit_val_dec_digit [simp]: "d < 10 \<Longrightarrow> digit_val (dec_digit d) = d"
  by (simp add: digit_val_def of_char_dec_digit)

lemma fmt_lu_digits: "\<forall>c \<in> set (fmt_lu n). isdigit c"
proof (induction n rule: fmt_lu.induct)
  case (1 n)
  then show ?case by (cases "n < 10") (auto simp: fmt_lu.simps [of n])
qed

lemma fmt_lu_not_Nil [simp]: "fmt_lu n \<noteq> []"
  by (simp add: fmt_lu.simps [of n])

lemma dec_value_append: "dec_value (cs @ [c]) = dec_value cs * 10 + digit_val c"
  by (simp add: dec_value_def)

lemma dec_value_fmt_lu [simp]: "dec_value (fmt_lu n) = n"
proof (induction n rule: fmt_lu.induct)
  case (1 n)
  show ?case
  proof (cases "n < 10")
    case True
    then show ?thesis by (simp add: fmt_lu.simps [of n] dec_value_def)
  next
    case False
    with 1 show ?thesis by (simp add: fmt_lu.simps [of n] dec_value_append)
  qed
qed

lemma isdigit_not_special:
  "isdigit c \<Longrightarrow> c \<noteq> CR" "isdigit c \<Longrightarrow> c \<noteq> NUL" "isdigit c \<Longrightarrow> c \<noteq> CHR ''-''"
  by (auto simp: isdigit_def)

lemma isdigit_literals [simp]:
  "\<not> isdigit CR" "\<not> isdigit LF" "\<not> isdigit NUL" "\<not> isdigit (CHR ''-'')"
  by (simp_all add: isdigit_def)

end
