(* ===== verification/Vstr.thy ===== *)
theory Vstr
  imports Prelude
begin

text \<open>
  The string type of the program (\<^verbatim>\<open>src/src/vstr.h\<close>, \<^verbatim>\<open>src/src/vstr.c\<close>): strings of up to 23
  bytes live inside the 24-byte struct, longer ones in a heap buffer. The struct is modelled with
  its two layouts, the heap buffer as the bytes that lie at its address. The theory holds one
  definition per function of \<^verbatim>\<open>vstr.c\<close>, the well-formedness invariant, what every operation does
  to the contents of a string, and the comparison \<^verbatim>\<open>vstr_cmp\<close>.
\<close>

section \<open>Data\<close>

abbreviation VSTR_MAX_SMALL_SIZE :: nat where "VSTR_MAX_SMALL_SIZE \<equiv> 23"

definition VSTR_MAX_LARGE_SIZE :: nat where
  "VSTR_MAX_LARGE_SIZE = 2 ^ 56 - 1"

text \<open>
  The heap layout. \<^term>\<open>lg_addr\<close> is the pointer, \<^term>\<open>lg_data\<close> what lies at it (\<^term>\<open>lg_cap\<close>
  bytes).
\<close>

record vstr_lg =
  lg_addr :: addr
  lg_data :: string
  lg_cap :: nat
  lg_len :: nat

text \<open>
  The union of the two layouts, tagged by \<^verbatim>\<open>is_large\<close>; \<^verbatim>\<open>small_avail\<close> is a field of both.
\<close>

datatype vstr =
    Small (sm_data: string) (small_avail: nat)
  | is_large: Large (lg: vstr_lg) (small_avail: nat)

text \<open>
  The 23 raw bytes of the heap layout (pointer, capacity, 56-bit length, all little endian):
  what the union holds after the tag has been switched back to the small layout.
\<close>

definition le_bytes :: "nat \<Rightarrow> nat \<Rightarrow> string" where
  "le_bytes k n = map (\<lambda>i. char_of (n div 256 ^ i)) [0..<k]"

definition lg_bytes :: "vstr_lg \<Rightarrow> string" where
  "lg_bytes l = le_bytes 8 (unat (lg_addr l)) @ le_bytes 8 (lg_cap l) @ le_bytes 7 (lg_len l)"

definition lg_zero :: vstr_lg where
  "lg_zero = \<lparr>lg_addr = 0, lg_data = [], lg_cap = 0, lg_len = 0\<rparr>"

section \<open>Operations\<close>

definition vstr_make_lg :: "allocator \<Rightarrow> string \<Rightarrow> vstr_lg" where
  "vstr_make_lg al data =
     (let cap = VSTR_MAX_SMALL_SIZE + 2; p = al cap in
      if p = 0 then lg_zero
      else \<lparr>lg_addr = p,
            lg_data = take VSTR_MAX_SMALL_SIZE data @ replicate (cap - VSTR_MAX_SMALL_SIZE) NUL,
            lg_cap = cap, lg_len = VSTR_MAX_SMALL_SIZE\<rparr>)"

definition vstr_lg_new_len :: "allocator \<Rightarrow> nat \<Rightarrow> vstr_lg res" where
  "vstr_lg_new_len al len =
     (let p = al (len + 1) in
      if p = 0 then Inl Assert_failed
      else Inr \<lparr>lg_addr = p, lg_data = replicate (len + 1) NUL, lg_cap = len + 1, lg_len = 0\<rparr>)"

definition vstr_make_lg_len :: "allocator \<Rightarrow> string \<Rightarrow> nat \<Rightarrow> vstr_lg" where
  "vstr_make_lg_len al data len =
     (if len \<ge> VSTR_MAX_LARGE_SIZE then lg_zero
      else let p = al (len + 1) in
        if p = 0 then lg_zero
        else \<lparr>lg_addr = p, lg_data = take len data @ [NUL], lg_cap = len + 1, lg_len = len\<rparr>)"

definition vstr_new :: vstr where
  "vstr_new = Small (replicate VSTR_MAX_SMALL_SIZE NUL) VSTR_MAX_SMALL_SIZE"

definition vstr_new_len :: "allocator \<Rightarrow> nat \<Rightarrow> vstr res" where
  "vstr_new_len al len =
     (if len > VSTR_MAX_SMALL_SIZE then
        if len \<le> VSTR_MAX_LARGE_SIZE
        then res_bind (vstr_lg_new_len al len) (\<lambda>l. Inr (Large l 0))
        else Inl Assert_failed
      else Inr (Small (replicate VSTR_MAX_SMALL_SIZE NUL) VSTR_MAX_SMALL_SIZE))"

text \<open>
  When the heap buffer cannot be had, \<^verbatim>\<open>vstr_from_len\<close> returns the struct it started from: all
  zero, so a small string with no space left, that is 23 zero bytes.
\<close>

definition vstr_from_len :: "allocator \<Rightarrow> string \<Rightarrow> nat \<Rightarrow> vstr" where
  "vstr_from_len al cstr len =
     (if len > VSTR_MAX_SMALL_SIZE then
        let l = vstr_make_lg_len al cstr len in
        if lg_cap l = 0 then Small (replicate VSTR_MAX_SMALL_SIZE NUL) 0
        else Large l 0
      else Small (take len cstr @ replicate (VSTR_MAX_SMALL_SIZE - len) NUL)
             (VSTR_MAX_SMALL_SIZE - len))"

definition vstr_from :: "allocator \<Rightarrow> string \<Rightarrow> vstr" where
  "vstr_from al cstr =
     (let cstr_len = strlen cstr in
      if cstr_len > VSTR_MAX_SMALL_SIZE then
        let l = vstr_make_lg_len al cstr cstr_len in
        if lg_cap l = 0 then Small (replicate VSTR_MAX_SMALL_SIZE NUL) 0
        else Large l 0
      else Small (take cstr_len cstr @ replicate (VSTR_MAX_SMALL_SIZE - cstr_len) NUL)
             (VSTR_MAX_SMALL_SIZE - cstr_len))"

text \<open>
  \<^verbatim>\<open>vstr_format\<close>: \<^term>\<open>out\<close> is the text \<^verbatim>\<open>vsnprintf\<close> produces for the format and its arguments;
  the function asserts that it is not empty, reserves one byte more than its length and lets
  \<^verbatim>\<open>vsnprintf\<close> write it with its terminating zero.
\<close>

definition vstr_format :: "allocator \<Rightarrow> string \<Rightarrow> vstr res" where
  "vstr_format al out =
     (let n = length out; size = n + 1 in
      if n = 0 then Inl Assert_failed
      else res_bind (vstr_new_len al size) (\<lambda>s. case s of
        Large l a \<Rightarrow>
          Inr (Large (l\<lparr>lg_data := out @ [NUL] @ drop size (lg_data l), lg_len := size - 1\<rparr>) a)
      | Small d a \<Rightarrow>
          Inr (Small (out @ [NUL] @ drop size d) (VSTR_MAX_SMALL_SIZE - size + 1))))"

definition vstr_len :: "vstr \<Rightarrow> nat" where
  "vstr_len s = (case s of Large l a \<Rightarrow> lg_len l | Small d a \<Rightarrow> VSTR_MAX_SMALL_SIZE - a)"

definition vstr_data :: "vstr \<Rightarrow> string" where
  "vstr_data s = (case s of Large l a \<Rightarrow> lg_data l | Small d a \<Rightarrow> d)"

definition vstr_cmp :: "vstr \<Rightarrow> vstr \<Rightarrow> int" where
  "vstr_cmp a b =
     (let alen = vstr_len a; blen = vstr_len b; astr = vstr_data a; bstr = vstr_data b in
      if alen = blen then strncmp astr bstr alen
      else if alen < blen then
        (let cmp = strncmp astr bstr alen in if cmp = 0 then 1 else cmp)
      else
        (let cmp = strncmp astr bstr blen in if cmp = 0 then - 1 else cmp))"

definition vstr_realloc_lg :: "allocator \<Rightarrow> vstr_lg \<Rightarrow> nat \<Rightarrow> nat \<Rightarrow> int \<times> vstr_lg" where
  "vstr_realloc_lg al l len cap =
     (let cap' = cap * 2; p = al cap' in
      if p = 0 then (- 1, l)
      else (0, l\<lparr>lg_addr := p, lg_data := take len (lg_data l) @ replicate (cap' - len) NUL,
                 lg_cap := cap'\<rparr>))"

definition vstr_realloc_lg_len ::
    "allocator \<Rightarrow> vstr_lg \<Rightarrow> nat \<Rightarrow> nat \<Rightarrow> nat \<Rightarrow> int \<times> vstr_lg" where
  "vstr_realloc_lg_len al l len cap new_len =
     (let cap' = cap + new_len; p = al cap' in
      if p = 0 then (- 1, l)
      else (0, l\<lparr>lg_addr := p, lg_data := take len (lg_data l) @ replicate (cap' - len) NUL,
                 lg_cap := cap'\<rparr>))"

definition vstr_lg_push_char :: "allocator \<Rightarrow> vstr_lg \<Rightarrow> byte \<Rightarrow> int \<times> vstr_lg" where
  "vstr_lg_push_char al l c =
     (let len = lg_len l; cap = lg_cap l in
      if cap = 0 then (- 1, l)
      else
        let (r, l1) = (if len = cap - 1 then vstr_realloc_lg al l len cap else (0, l)) in
        if r = - 1 then (- 1, l1)
        else if len + 1 > VSTR_MAX_LARGE_SIZE then (- 1, l1)
        else (0, l1\<lparr>lg_data := (lg_data l1)[len := c], lg_len := lg_len l1 + 1\<rparr>))"

definition memcpy_at :: "string \<Rightarrow> nat \<Rightarrow> string \<Rightarrow> nat \<Rightarrow> string" where
  "memcpy_at dst off src n = take off dst @ take n src @ drop (off + n) dst"

definition vstr_lg_push_string :: "allocator \<Rightarrow> vstr_lg \<Rightarrow> string \<Rightarrow> nat \<Rightarrow> int \<times> vstr_lg" where
  "vstr_lg_push_string al l str str_len =
     (let len = lg_len l; cap = lg_cap l in
      if cap = 0 then (- 1, l)
      else if len + str_len > VSTR_MAX_LARGE_SIZE then (- 1, l)
      else
        let (r, l1) = (if len + str_len > cap - 1 then vstr_realloc_lg_len al l len cap str_len
                       else (0, l)) in
        if r = - 1 then (- 1, l1)
        else (0, l1\<lparr>lg_data := memcpy_at (lg_data l1) len str str_len,
                    lg_len := lg_len l1 + str_len\<rparr>))"

definition vstr_sm_push_char :: "string \<Rightarrow> byte \<Rightarrow> nat \<Rightarrow> int \<times> string" where
  "vstr_sm_push_char sm c avail =
     (if avail = 0 then (- 1, sm)
      else (0, sm[VSTR_MAX_SMALL_SIZE - avail := c]))"

definition vstr_sm_push_string :: "string \<Rightarrow> string \<Rightarrow> nat \<Rightarrow> nat \<Rightarrow> int \<times> string" where
  "vstr_sm_push_string sm str str_len avail =
     (if str_len > avail then (- 1, sm)
      else (0, memcpy_at sm (VSTR_MAX_SMALL_SIZE - avail) str str_len))"

definition vstr_push_char :: "allocator \<Rightarrow> vstr \<Rightarrow> byte \<Rightarrow> int \<times> vstr" where
  "vstr_push_char al s c = (case s of
     Large l a \<Rightarrow> (let (r, l1) = vstr_lg_push_char al l c in (r, Large l1 a))
   | Small d a \<Rightarrow>
       (let (push_res, d1) = vstr_sm_push_char d c a in
        if push_res = 0 then (0, Small d1 (a - 1))
        else
          let l = vstr_make_lg al d in
          if lg_cap l = 0 then (- 1, Small (lg_bytes l) a)
          else let (r, l1) = vstr_lg_push_char al l c in (r, Large l1 a)))"

definition vstr_push_string_len :: "allocator \<Rightarrow> vstr \<Rightarrow> string \<Rightarrow> nat \<Rightarrow> int \<times> vstr" where
  "vstr_push_string_len al s str str_len = (case s of
     Large l a \<Rightarrow> (let (r, l1) = vstr_lg_push_string al l str str_len in (r, Large l1 a))
   | Small d a \<Rightarrow>
       (let (push_res, d1) = vstr_sm_push_string d str str_len a in
        if push_res = 0 then (0, Small d1 (a - str_len))
        else
          let old_len = vstr_len s;
              l = vstr_make_lg_len al d old_len;
              (r, l1) = vstr_lg_push_string al l str str_len in
          (r, Large l1 a)))"

definition vstr_push_string :: "allocator \<Rightarrow> vstr \<Rightarrow> string \<Rightarrow> int \<times> vstr" where
  "vstr_push_string al s str =
     (let str_len = strlen str in
      case s of
        Large l a \<Rightarrow> (let (r, l1) = vstr_lg_push_string al l str str_len in (r, Large l1 a))
      | Small d a \<Rightarrow>
          (let (push_res, d1) = vstr_sm_push_string d str str_len a in
           if push_res = 0 then (0, Small d1 (a - str_len))
           else
             let old_len = vstr_len s;
                 l = vstr_make_lg_len al d old_len;
                 (r, l1) = vstr_lg_push_string al l str str_len in
             (r, Large l1 a)))"

definition vstr_reset :: "vstr \<Rightarrow> vstr" where
  "vstr_reset s = (case s of
     Large l a \<Rightarrow> Small (lg_bytes l) VSTR_MAX_SMALL_SIZE
   | Small d a \<Rightarrow> Small (replicate VSTR_MAX_SMALL_SIZE NUL) VSTR_MAX_SMALL_SIZE)"

definition vstr_free :: "vstr \<Rightarrow> vstr" where
  "vstr_free s = (case s of
     Large l a \<Rightarrow> Small (lg_bytes l) VSTR_MAX_SMALL_SIZE
   | Small d a \<Rightarrow> Small d VSTR_MAX_SMALL_SIZE)"

text \<open>What a fallible function returns (\<^verbatim>\<open>src/src/result.h\<close>): its value, or a message.\<close>

datatype 'a result = Ok 'a | Err vstr

section \<open>Contents and invariants\<close>

text \<open>The bytes a string holds: the first \<^verbatim>\<open>vstr_len\<close> bytes at \<^verbatim>\<open>vstr_data\<close>.\<close>

definition vstr_str :: "vstr \<Rightarrow> string" where
  "vstr_str s = take (vstr_len s) (vstr_data s)"

text \<open>
  A well-formed string: the small layout has its 23 bytes; the heap layout is either the null
  buffer that a failed allocation leaves, or a buffer of \<^term>\<open>lg_cap\<close> bytes with room for a
  terminating zero. A live string is a well-formed one that does not have the null buffer. A clean
  string is live and all bytes after its contents are zero, so that it is also a C string.
\<close>

definition lg_wf :: "vstr_lg \<Rightarrow> bool" where
  "lg_wf l \<longleftrightarrow> lg_len l < lg_cap l \<and> length (lg_data l) = lg_cap l \<and> lg_len l \<le> VSTR_MAX_LARGE_SIZE"

fun vstr_wf :: "vstr \<Rightarrow> bool" where
  "vstr_wf (Small d a) \<longleftrightarrow> length d = VSTR_MAX_SMALL_SIZE \<and> a \<le> VSTR_MAX_SMALL_SIZE"
| "vstr_wf (Large l a) \<longleftrightarrow> a \<le> VSTR_MAX_SMALL_SIZE \<and> (l = lg_zero \<or> lg_wf l)"

fun vstr_live :: "vstr \<Rightarrow> bool" where
  "vstr_live (Small d a) \<longleftrightarrow> length d = VSTR_MAX_SMALL_SIZE \<and> a \<le> VSTR_MAX_SMALL_SIZE"
| "vstr_live (Large l a) \<longleftrightarrow> a \<le> VSTR_MAX_SMALL_SIZE \<and> lg_wf l"

definition zero_tail :: "string \<Rightarrow> nat \<Rightarrow> bool" where
  "zero_tail d n \<longleftrightarrow> (\<forall>c \<in> set (drop n d). c = NUL)"

definition vstr_clean :: "vstr \<Rightarrow> bool" where
  "vstr_clean s \<longleftrightarrow> vstr_live s \<and> zero_tail (vstr_data s) (vstr_len s)"

section \<open>Buffers\<close>

lemma zero_tail_mono: "zero_tail d n \<Longrightarrow> n \<le> m \<Longrightarrow> zero_tail d m"
  using set_drop_subset_set_drop [of n m d] by (auto simp: zero_tail_def)

lemma zero_tail_update:
  assumes "zero_tail d n"
  shows "zero_tail (d[n := c]) (Suc n)"
  using zero_tail_mono [OF assms, of "Suc n"] by (simp add: zero_tail_def)

lemma zero_tail_replicate: "length xs \<le> n \<Longrightarrow> zero_tail (xs @ replicate k NUL) n"
  by (auto simp: zero_tail_def)

lemma zero_tail_replicate_Cons: "length xs < n \<Longrightarrow> zero_tail (xs @ c # replicate k NUL) n"
  using zero_tail_replicate [of "xs @ [c]" n k] by simp

lemma zero_tail_snoc: "length xs \<le> n \<Longrightarrow> zero_tail (xs @ [NUL]) n"
  using zero_tail_replicate [of xs n 1] by simp

lemma length_memcpy_at:
  "off + n \<le> length dst \<Longrightarrow> n \<le> length src \<Longrightarrow> length (memcpy_at dst off src n) = length dst"
  by (simp add: memcpy_at_def)

lemma take_memcpy_at:
  "off + n \<le> length dst \<Longrightarrow> n \<le> length src \<Longrightarrow>
   take (off + n) (memcpy_at dst off src n) = take off dst @ take n src"
  by (simp add: memcpy_at_def)

lemma zero_tail_memcpy_at:
  assumes "zero_tail d off" "off + n \<le> length d" "n \<le> length src"
  shows "zero_tail (memcpy_at d off src n) (off + n)"
  using zero_tail_mono [OF assms(1), of "off + n"] assms(2,3)
  by (simp add: memcpy_at_def zero_tail_def)

lemma length_le_bytes [simp]: "length (le_bytes k n) = k"
  by (simp add: le_bytes_def)

lemma length_lg_bytes [simp]: "length (lg_bytes l) = VSTR_MAX_SMALL_SIZE"
  by (simp add: lg_bytes_def)

lemma MAX_LARGE_gt: "48 < VSTR_MAX_LARGE_SIZE"
  by (simp add: VSTR_MAX_LARGE_SIZE_def)

lemma vstr_clean_live: "vstr_clean s \<Longrightarrow> vstr_live s"
  by (simp add: vstr_clean_def)

lemma vstr_live_wf [wf_intros]: "vstr_live s \<Longrightarrow> vstr_wf s"
  by (cases s) auto

lemma vstr_len_le_data: "vstr_wf s \<Longrightarrow> vstr_len s \<le> length (vstr_data s)"
  by (cases s) (auto simp: vstr_len_def vstr_data_def lg_wf_def lg_zero_def)

lemma length_vstr_str [simp]: "vstr_wf s \<Longrightarrow> length (vstr_str s) = vstr_len s"
  by (simp add: vstr_str_def vstr_len_le_data)

section \<open>The heap layout\<close>

lemma lg_push_char_spec:
  assumes "lg_wf l" "vstr_lg_push_char al l c = (r, l')"
  shows "lg_wf l'"
    and "r = 0 \<Longrightarrow> take (lg_len l') (lg_data l') = take (lg_len l) (lg_data l) @ [c]"
    and "r = 0 \<Longrightarrow> zero_tail (lg_data l) (lg_len l) \<Longrightarrow> zero_tail (lg_data l') (lg_len l')"
    and "r \<noteq> 0 \<Longrightarrow> r = - 1 \<and> take (lg_len l') (lg_data l') = take (lg_len l) (lg_data l)"
  using assms
  by (auto simp: vstr_lg_push_char_def vstr_realloc_lg_def lg_wf_def Let_def
      take_list_update_last zero_tail_update list_update_append zero_tail_replicate_Cons
      split: if_splits)

lemma lg_push_char_ok:
  assumes "lg_wf l" "lg_len l < VSTR_MAX_LARGE_SIZE" "alloc_total al"
  shows "fst (vstr_lg_push_char al l c) = 0"
  using assms by (auto simp: vstr_lg_push_char_def vstr_realloc_lg_def lg_wf_def Let_def)

lemma lg_push_string_spec:
  assumes "lg_wf l" "vstr_lg_push_string al l str n = (r, l')" "n \<le> length str"
  shows "lg_wf l'"
    and "r = 0 \<Longrightarrow> take (lg_len l') (lg_data l') = take (lg_len l) (lg_data l) @ take n str"
    and "r = 0 \<Longrightarrow> zero_tail (lg_data l) (lg_len l) \<Longrightarrow> zero_tail (lg_data l') (lg_len l')"
    and "r \<noteq> 0 \<Longrightarrow> r = - 1 \<and> take (lg_len l') (lg_data l') = take (lg_len l) (lg_data l)"
  using assms
  by (auto simp: vstr_lg_push_string_def vstr_realloc_lg_len_def lg_wf_def Let_def
      length_memcpy_at take_memcpy_at zero_tail_memcpy_at zero_tail_replicate split: if_splits)

lemma lg_push_string_ok:
  assumes "lg_wf l" "lg_len l + n \<le> VSTR_MAX_LARGE_SIZE" "alloc_total al"
  shows "fst (vstr_lg_push_string al l str n) = 0"
  using assms by (auto simp: vstr_lg_push_string_def vstr_realloc_lg_len_def lg_wf_def Let_def)

section \<open>What the operations do to a string\<close>

lemmas vstr_views = vstr_str_def vstr_len_def vstr_data_def

lemma vstr_push_char_wf [wf_intros]:
  assumes "vstr_wf s" "vstr_push_char al s c = (r, s')"
  shows "vstr_wf s'"
proof (cases s)
  case (Small d a)
  have "lg_wf (vstr_make_lg al d)" if "lg_cap (vstr_make_lg al d) \<noteq> 0" "length d = 23"
    using that by (auto simp: vstr_make_lg_def lg_zero_def lg_wf_def VSTR_MAX_LARGE_SIZE_def Let_def
        split: if_splits)
  with assms Small show ?thesis
    by (auto simp: vstr_push_char_def vstr_sm_push_char_def Let_def split: if_splits prod.splits
        dest: lg_push_char_spec(1))
next
  case (Large l a)
  with assms show ?thesis
    by (cases "l = lg_zero")
      (auto simp: vstr_push_char_def vstr_lg_push_char_def lg_zero_def Let_def split: prod.splits
        dest: lg_push_char_spec(1))
qed

lemma vstr_push_char_contents [vstr_simps]:
  assumes "vstr_live s" "vstr_push_char al s c = (0, s')"
  shows "vstr_live s'" and "vstr_str s' = vstr_str s @ [c]"
proof -
  have *: "vstr_live s' \<and> vstr_str s' = vstr_str s @ [c]"
  proof (cases s)
    case (Small d a)
    have mk: "lg_wf (vstr_make_lg al d)"
      "take (lg_len (vstr_make_lg al d)) (lg_data (vstr_make_lg al d)) = d"
      if "lg_cap (vstr_make_lg al d) \<noteq> 0" "length d = 23"
      using that by (auto simp: vstr_make_lg_def lg_zero_def lg_wf_def VSTR_MAX_LARGE_SIZE_def Let_def
          split: if_splits)
    show ?thesis
    proof (cases "a = 0")
      case True
      with assms Small mk show ?thesis
        by (auto simp: vstr_push_char_def vstr_sm_push_char_def Let_def vstr_views
            split: if_splits prod.splits dest: lg_push_char_spec(1,2))
    next
      case False
      then have "Suc (23 - a) = 23 - (a - 1)" if "a \<le> 23" using that by simp
      with False assms Small show ?thesis
        by (auto simp: vstr_push_char_def vstr_sm_push_char_def vstr_views
            simp flip: take_list_update_last)
    qed
  next
    case (Large l a)
    with assms show ?thesis
      by (auto simp: vstr_push_char_def vstr_views Let_def split: prod.splits
          dest: lg_push_char_spec(1,2))
  qed
  from * show "vstr_live s'" by simp
  from * show "vstr_str s' = vstr_str s @ [c]" by simp
qed

lemma vstr_push_char_ok:
  assumes "vstr_live s" "vstr_len s < VSTR_MAX_LARGE_SIZE" "alloc_total al"
  shows "fst (vstr_push_char al s c) = 0"
proof (cases s)
  case (Small d a)
  then have "lg_wf (vstr_make_lg al d)" "lg_len (vstr_make_lg al d) < VSTR_MAX_LARGE_SIZE"
    "lg_cap (vstr_make_lg al d) \<noteq> 0"
    using assms by (simp_all add: vstr_make_lg_def lg_wf_def VSTR_MAX_LARGE_SIZE_def Let_def)
  with Small assms(3) show ?thesis
    using lg_push_char_ok [of "vstr_make_lg al d" al c]
    by (auto simp: vstr_push_char_def vstr_sm_push_char_def Let_def split: prod.splits)
next
  case (Large l a)
  with assms show ?thesis
    using lg_push_char_ok [of l al c]
    by (auto simp: vstr_push_char_def vstr_len_def Let_def split: prod.splits)
qed

lemma vstr_push_char_clean:
  assumes "vstr_clean s" "vstr_push_char al s c = (0, s')"
  shows "vstr_clean s'"
proof -
  have live: "vstr_live s'"
    using assms vstr_push_char_contents by (blast dest: vstr_clean_live)
  have "zero_tail (vstr_data s') (vstr_len s')"
  proof (cases s)
    case (Small d a)
    have mk: "lg_wf (vstr_make_lg al d)"
      "zero_tail (lg_data (vstr_make_lg al d)) (lg_len (vstr_make_lg al d))"
      if "lg_cap (vstr_make_lg al d) \<noteq> 0" "length d = 23"
      using that zero_tail_replicate [of d 23 2]
      by (auto simp: vstr_make_lg_def lg_zero_def lg_wf_def VSTR_MAX_LARGE_SIZE_def Let_def
          split: if_splits)
    have "23 - (a - 1) = Suc (23 - a)" if "a \<noteq> 0" "a \<le> 23" using that by simp
    with Small assms mk show ?thesis
      by (auto simp: vstr_push_char_def vstr_sm_push_char_def vstr_clean_def vstr_len_def
          vstr_data_def Let_def zero_tail_update split: if_splits prod.splits
          dest: lg_push_char_spec(3))
  next
    case (Large l a)
    with assms show ?thesis
      by (auto simp: vstr_push_char_def vstr_clean_def vstr_len_def vstr_data_def Let_def
          split: prod.splits dest: lg_push_char_spec(3))
  qed
  with live show ?thesis by (simp add: vstr_clean_def)
qed

lemma vstr_make_lg_len_spec:
  assumes "length d = 23" "a \<le> 23" "al (23 - a + 1) \<noteq> 0"
  shows "lg_wf (vstr_make_lg_len al d (23 - a))"
    and "lg_len (vstr_make_lg_len al d (23 - a)) = 23 - a"
    and "take (23 - a) (lg_data (vstr_make_lg_len al d (23 - a))) = take (23 - a) d"
    and "zero_tail (lg_data (vstr_make_lg_len al d (23 - a))) (23 - a)"
proof -
  have "\<not> VSTR_MAX_LARGE_SIZE \<le> 23 - a" "23 - a \<le> VSTR_MAX_LARGE_SIZE"
    using MAX_LARGE_gt by linarith+
  then show "lg_wf (vstr_make_lg_len al d (23 - a))"
    and "lg_len (vstr_make_lg_len al d (23 - a)) = 23 - a"
    and "take (23 - a) (lg_data (vstr_make_lg_len al d (23 - a))) = take (23 - a) d"
    and "zero_tail (lg_data (vstr_make_lg_len al d (23 - a))) (23 - a)"
    using assms zero_tail_snoc [of "take (23 - a) d" "23 - a"]
    by (simp_all add: vstr_make_lg_len_def lg_wf_def Let_def)
qed

lemma memcpy_small:
  assumes "n \<le> a" "a \<le> 23" "length d = 23" "n \<le> length str"
  shows "take (23 - (a - n)) (memcpy_at d (23 - a) str n) = take (23 - a) d @ take n str"
    and "zero_tail d (23 - a) \<Longrightarrow> zero_tail (memcpy_at d (23 - a) str n) (23 - (a - n))"
proof -
  have eq: "23 - (a - n) = 23 - a + n" using assms(1,2) by simp
  show "take (23 - (a - n)) (memcpy_at d (23 - a) str n) = take (23 - a) d @ take n str"
    unfolding eq using assms by (intro take_memcpy_at) auto
  show "zero_tail (memcpy_at d (23 - a) str n) (23 - (a - n))" if "zero_tail d (23 - a)"
    unfolding eq using assms that by (intro zero_tail_memcpy_at) auto
qed

lemma vstr_make_lg_len_fail: "al (len + 1) = 0 \<Longrightarrow> vstr_make_lg_len al d len = lg_zero"
  by (simp add: vstr_make_lg_len_def)

lemma lg_push_string_zero: "vstr_lg_push_string al lg_zero str n = (- 1, lg_zero)"
  by (simp add: vstr_lg_push_string_def lg_zero_def)

text \<open>
  The case where a small string has no room for the text: the text goes to a fresh heap buffer
  that holds a copy of the small string.
\<close>

lemma vstr_push_string_len_promote:
  assumes "n > a"
  shows "vstr_push_string_len al (Small d a) str n =
    (let (r, l1) = vstr_lg_push_string al (vstr_make_lg_len al d (23 - a)) str n in (r, Large l1 a))"
  using assms by (simp add: vstr_push_string_len_def vstr_sm_push_string_def vstr_len_def)

lemma vstr_push_string_len_fits:
  assumes "n \<le> a"
  shows "vstr_push_string_len al (Small d a) str n =
    (0, Small (memcpy_at d (23 - a) str n) (a - n))"
  using assms by (simp add: vstr_push_string_len_def vstr_sm_push_string_def)

lemma vstr_push_string_len_wf [wf_intros]:
  assumes "vstr_wf s" "vstr_push_string_len al s str n = (r, s')" "n \<le> length str"
  shows "vstr_wf s'"
proof (cases s)
  case (Small d a)
  show ?thesis
  proof (cases "n \<le> a")
    case True
    with Small assms show ?thesis by (auto simp: vstr_push_string_len_fits length_memcpy_at)
  next
    case False
    with Small assms vstr_make_lg_len_spec(1) [of d a al] show ?thesis
      by (cases "al (23 - a + 1) = 0")
        (auto simp: vstr_push_string_len_promote vstr_make_lg_len_fail lg_push_string_zero Let_def
          split: prod.splits dest: lg_push_string_spec(1))
  qed
next
  case (Large l a)
  with assms show ?thesis
    by (cases "l = lg_zero")
      (auto simp: vstr_push_string_len_def lg_push_string_zero Let_def split: prod.splits
        dest: lg_push_string_spec(1))
qed

lemma vstr_push_string_len_contents [vstr_simps]:
  assumes "vstr_live s" "vstr_push_string_len al s str n = (0, s')" "n \<le> length str"
  shows "vstr_live s' \<and> vstr_str s' = vstr_str s @ take n str"
proof (cases s)
  case (Small d a)
  show ?thesis
  proof (cases "n \<le> a")
    case True
    with Small assms memcpy_small(1) [of n a d str] show ?thesis
      by (auto simp: vstr_push_string_len_fits length_memcpy_at vstr_views)
  next
    case False
    show ?thesis
    proof (cases "al (23 - a + 1) = 0")
      case True
      with False Small assms show ?thesis
        by (simp add: vstr_push_string_len_promote vstr_make_lg_len_fail lg_push_string_zero)
    next
      case ok: False
      with False Small assms vstr_make_lg_len_spec [of d a al] show ?thesis
        by (auto simp: vstr_push_string_len_promote vstr_views Let_def split: prod.splits
            dest: lg_push_string_spec(1,2))
    qed
  qed
next
  case (Large l a)
  with assms show ?thesis
    by (auto simp: vstr_push_string_len_def vstr_views Let_def split: prod.splits
        dest: lg_push_string_spec(1,2))
qed

lemma vstr_push_string_len_ok:
  assumes "vstr_live s" "vstr_len s + n \<le> VSTR_MAX_LARGE_SIZE" "alloc_total al"
  shows "fst (vstr_push_string_len al s str n) = 0"
proof (cases s)
  case (Small d a)
  with assms vstr_make_lg_len_spec [of d a al]
    lg_push_string_ok [of "vstr_make_lg_len al d (23 - a)" n al str] show ?thesis
    by (cases "n \<le> a")
      (auto simp: vstr_push_string_len_fits vstr_push_string_len_promote vstr_len_def Let_def
        split: prod.splits)
next
  case (Large l a)
  with assms lg_push_string_ok [of l n al str] show ?thesis
    by (auto simp: vstr_push_string_len_def vstr_len_def Let_def split: prod.splits)
qed

lemma vstr_push_string_len_clean:
  assumes "vstr_clean s" "vstr_push_string_len al s str n = (0, s')" "n \<le> length str"
  shows "vstr_clean s'"
proof -
  have live: "vstr_live s'"
    using assms vstr_push_string_len_contents by (blast dest: vstr_clean_live)
  have "zero_tail (vstr_data s') (vstr_len s')"
  proof (cases s)
    case (Small d a)
    show ?thesis
    proof (cases "n \<le> a")
      case True
      with Small assms memcpy_small(2) [of n a d str] show ?thesis
        by (auto simp: vstr_push_string_len_fits vstr_clean_def vstr_len_def vstr_data_def)
    next
      case False
      with Small assms vstr_make_lg_len_spec [of d a al] show ?thesis
        by (cases "al (23 - a + 1) = 0")
          (auto simp: vstr_push_string_len_promote vstr_make_lg_len_fail lg_push_string_zero
            vstr_clean_def vstr_len_def vstr_data_def Let_def split: prod.splits
            dest: lg_push_string_spec(3))
    qed
  next
    case (Large l a)
    with assms show ?thesis
      by (auto simp: vstr_push_string_len_def vstr_clean_def vstr_len_def vstr_data_def Let_def
          split: prod.splits dest: lg_push_string_spec(3))
  qed
  with live show ?thesis by (simp add: vstr_clean_def)
qed

lemma vstr_push_string_eq: "vstr_push_string al s str = vstr_push_string_len al s str (strlen str)"
  by (simp add: vstr_push_string_def vstr_push_string_len_def Let_def cong: vstr.case_cong)

lemma strlen_le: "strlen m \<le> length m"
  by (simp add: strlen_def c_str_def length_takeWhile_le)

lemma c_str_plain: "NUL \<notin> set s \<Longrightarrow> c_str s = s"
  by (simp add: c_str_def takeWhile_eq_all_conv) (metis)

lemma take_strlen: "take (strlen m) m = c_str m"
  by (simp add: strlen_def c_str_def takeWhile_eq_take [symmetric])

lemma vstr_new_clean [simp]: "vstr_clean vstr_new" "vstr_str vstr_new = []" "vstr_live vstr_new"
  using zero_tail_replicate [of "[]" 0 23]
  by (simp_all add: vstr_new_def vstr_clean_def vstr_views)

lemma vstr_new_len_clean:
  assumes "vstr_new_len al len = Inr s"
  shows "vstr_clean s" "vstr_str s = []"
  using assms zero_tail_replicate [of "[]" 0 23] zero_tail_replicate [of "[]" 0 "Suc len"]
  by (auto simp: vstr_new_len_def vstr_lg_new_len_def vstr_clean_def vstr_views lg_wf_def Let_def
      split: if_splits)

lemma vstr_new_len_total:
  assumes "alloc_total al" "len \<le> VSTR_MAX_LARGE_SIZE"
  shows "\<exists>s. vstr_new_len al len = Inr s"
  using assms by (simp add: vstr_new_len_def vstr_lg_new_len_def Let_def)

lemma vstr_from_eq: "vstr_from al cstr = vstr_from_len al cstr (strlen cstr)"
  by (simp add: vstr_from_def vstr_from_len_def Let_def)

lemma vstr_from_len_clean:
  assumes "alloc_total al" "len < VSTR_MAX_LARGE_SIZE" "len \<le> length cstr"
  shows "vstr_clean (vstr_from_len al cstr len)" "vstr_str (vstr_from_len al cstr len) = take len cstr"
proof -
  have a: "zero_tail (take len cstr @ [NUL]) len"
    and b: "zero_tail (take len cstr @ replicate (23 - len) NUL) len"
    by (simp_all add: zero_tail_snoc zero_tail_replicate)
  show "vstr_clean (vstr_from_len al cstr len)"
    "vstr_str (vstr_from_len al cstr len) = take len cstr"
    using assms a b
    by (auto simp: vstr_from_len_def vstr_make_lg_len_def vstr_clean_def vstr_views lg_wf_def Let_def)
qed

lemma vstr_from_plain:
  assumes "alloc_total al" "NUL \<notin> set s" "length s < VSTR_MAX_LARGE_SIZE"
  shows "vstr_clean (vstr_from al s)" "vstr_str (vstr_from al s) = s"
  using vstr_from_len_clean [OF assms(1,3), of s] assms(2) by (simp_all add: vstr_from_eq strlen_def c_str_plain)

lemma vstr_format_clean:
  assumes "vstr_format al out = Inr s"
  shows "vstr_clean s" "vstr_str s = out"
proof -
  obtain t where t: "vstr_new_len al (length out + 1) = Inr t" and ne: "out \<noteq> []"
    using assms by (auto simp: vstr_format_def Let_def res_bind_Inr split: if_splits)
  have "zero_tail (out @ NUL # drop k (NUL # replicate m NUL)) (length out)"
    "zero_tail (out @ NUL # drop k (replicate m NUL)) (length out)" for k m
    by (auto simp: zero_tail_def dest: in_set_dropD)
  then show "vstr_clean s" "vstr_str s = out"
    using assms t ne
    by (auto simp: vstr_format_def vstr_new_len_def vstr_lg_new_len_def vstr_clean_def vstr_views
        lg_wf_def Let_def split: if_splits)
qed

lemma vstr_format_total:
  assumes "alloc_total al" "out \<noteq> []" "length out < VSTR_MAX_LARGE_SIZE"
  obtains s where "vstr_format al out = Inr s" "vstr_clean s" "vstr_str s = out"
proof -
  obtain t where t: "vstr_new_len al (length out + 1) = Inr t"
    using vstr_new_len_total [of al "length out + 1"] assms by auto
  then have "\<exists>s. vstr_format al out = Inr s"
    using assms(2) by (cases t) (simp_all add: vstr_format_def Let_def)
  then show ?thesis using that vstr_format_clean by blast
qed

lemma vstr_reset_empty [simp]: "vstr_live (vstr_reset s)" "vstr_str (vstr_reset s) = []"
  by (cases s; simp add: vstr_reset_def vstr_views)+

lemma vstr_free_empty [simp]: "vstr_wf s \<Longrightarrow> vstr_live (vstr_free s)" "vstr_str (vstr_free s) = []"
  by (cases s; simp add: vstr_free_def vstr_views)+

section \<open>Strings as a sink of bytes\<close>

text \<open>
  What the builder, the parsers and the readers rely on: as long as memory can be had and the
  contents stay below the limit, pushing a byte or a text succeeds and appends it.
\<close>

locale byte_sink =
  fixes push_char :: "allocator \<Rightarrow> 's \<Rightarrow> byte \<Rightarrow> int \<times> 's"
    and push_str :: "allocator \<Rightarrow> 's \<Rightarrow> string \<Rightarrow> nat \<Rightarrow> int \<times> 's"
    and contents :: "'s \<Rightarrow> string"
    and live :: "'s \<Rightarrow> bool"
    and limit :: nat
  assumes push_char_law:
      "live s \<Longrightarrow> alloc_total al \<Longrightarrow> length (contents s) < limit \<Longrightarrow>
       \<exists>s'. push_char al s c = (0, s') \<and> live s' \<and> contents s' = contents s @ [c]"
    and push_str_law:
      "live s \<Longrightarrow> alloc_total al \<Longrightarrow> length (contents s) + n \<le> limit \<Longrightarrow> n \<le> length str \<Longrightarrow>
       \<exists>s'. push_str al s str n = (0, s') \<and> live s' \<and> contents s' = contents s @ take n str"
begin

lemma push_charE:
  assumes "live s" "alloc_total al" "length (contents s) < limit"
  obtains s' where "push_char al s c = (0, s')" "live s'" "contents s' = contents s @ [c]"
  using push_char_law [OF assms] that by blast

lemma push_strE:
  assumes "live s" "alloc_total al" "length (contents s) + n \<le> limit" "n \<le> length str"
  obtains s' where "push_str al s str n = (0, s')" "live s'" "contents s' = contents s @ take n str"
  using push_str_law [OF assms] that by blast

lemma push_chars:
  assumes "live s" "alloc_total al" "length (contents s) + length cs \<le> limit"
  shows "live (foldl (\<lambda>t c. snd (push_char al t c)) s cs) \<and>
         contents (foldl (\<lambda>t c. snd (push_char al t c)) s cs) = contents s @ cs"
  using assms
proof (induction cs arbitrary: s)
  case Nil
  then show ?case by simp
next
  case (Cons c cs)
  then have "length (contents s) < limit" by simp
  from push_char_law [OF Cons.prems(1,2) this, of c]
  obtain s' where s': "push_char al s c = (0, s')" "live s'" "contents s' = contents s @ [c]"
    by blast
  with Cons.IH [of s'] Cons.prems show ?case by simp
qed

end

lemma sink_live:
  assumes "vstr_live s" "alloc_total al" "length (vstr_str s) < VSTR_MAX_LARGE_SIZE"
  shows "\<exists>s'. vstr_push_char al s c = (0, s') \<and> vstr_live s' \<and> vstr_str s' = vstr_str s @ [c]"
proof -
  obtain r s' where s': "vstr_push_char al s c = (r, s')" by (cases "vstr_push_char al s c")
  with assms vstr_push_char_ok [of s al c] have "r = 0" by (simp add: wf_intros)
  with s' assms vstr_push_char_contents [of s al c s'] show ?thesis by simp
qed

lemma sink_live_str:
  assumes "vstr_live s" "alloc_total al" "length (vstr_str s) + n \<le> VSTR_MAX_LARGE_SIZE"
    "n \<le> length str"
  shows "\<exists>s'. vstr_push_string_len al s str n = (0, s') \<and> vstr_live s' \<and>
    vstr_str s' = vstr_str s @ take n str"
proof -
  obtain r s' where s': "vstr_push_string_len al s str n = (r, s')"
    by (cases "vstr_push_string_len al s str n")
  with assms vstr_push_string_len_ok [of s n al str] have "r = 0" by (simp add: wf_intros)
  with s' assms vstr_push_string_len_contents [of s al str n s'] show ?thesis by simp
qed

interpretation vs: byte_sink vstr_push_char vstr_push_string_len vstr_str vstr_live VSTR_MAX_LARGE_SIZE
  by unfold_locales (rule sink_live sink_live_str; assumption)+

interpretation vc: byte_sink vstr_push_char vstr_push_string_len vstr_str vstr_clean VSTR_MAX_LARGE_SIZE
proof unfold_locales
  fix s :: vstr and al c
  assume *: "vstr_clean s" "alloc_total al" "length (vstr_str s) < VSTR_MAX_LARGE_SIZE"
  then obtain s' where "vstr_push_char al s c = (0, s')" "vstr_str s' = vstr_str s @ [c]"
    using sink_live [of s al c] vstr_clean_live by blast
  with * show "\<exists>s'. vstr_push_char al s c = (0, s') \<and> vstr_clean s' \<and> vstr_str s' = vstr_str s @ [c]"
    by (auto intro: vstr_push_char_clean)
next
  fix s :: vstr and al n and str :: string
  assume *: "vstr_clean s" "alloc_total al" "length (vstr_str s) + n \<le> VSTR_MAX_LARGE_SIZE"
    "n \<le> length str"
  then obtain s' where "vstr_push_string_len al s str n = (0, s')"
    "vstr_str s' = vstr_str s @ take n str"
    using sink_live_str [of s al n str] vstr_clean_live by blast
  with * show "\<exists>s'. vstr_push_string_len al s str n = (0, s') \<and> vstr_clean s' \<and>
      vstr_str s' = vstr_str s @ take n str"
    by (auto intro: vstr_push_string_len_clean)
qed

section \<open>Comparison\<close>

lemma vstr_cmp_same_len:
  assumes "vstr_wf a" "vstr_wf b" "NUL \<notin> set (vstr_str a)" "vstr_len a = vstr_len b"
  shows "vstr_cmp a b = 0 \<longleftrightarrow> vstr_str a = vstr_str b"
  using assms vstr_len_le_data [of a] vstr_len_le_data [of b]
  by (simp add: vstr_cmp_def vstr_str_def strncmp_eq_0)

lemma vstr_cmp_other_len: "vstr_len a \<noteq> vstr_len b \<Longrightarrow> vstr_cmp a b \<noteq> 0"
  by (auto simp: vstr_cmp_def Let_def)

lemma vstr_cmp_zero:
  assumes "vstr_wf a" "vstr_wf b" "NUL \<notin> set (vstr_str a)"
  shows "vstr_cmp a b = 0 \<longleftrightarrow> vstr_str a = vstr_str b"
proof (cases "vstr_len a = vstr_len b")
  case True
  with assms show ?thesis by (rule vstr_cmp_same_len)
next
  case False
  moreover from False assms(1,2) have "vstr_str a \<noteq> vstr_str b"
    by (metis length_vstr_str)
  ultimately show ?thesis by (simp add: vstr_cmp_other_len)
qed

section \<open>Properties\<close>

text \<open>
  C30. Pushing a text on a string whose memory the allocator can provide succeeds (return code 0),
  keeps the string well formed, and appends exactly the pushed bytes, across the switch from the
  small to the heap layout and across reallocation.
\<close>

theorem vstr_push_string_appends:
  assumes "vstr_live s" "alloc_total al" "n \<le> length str"
    and "length (vstr_str s) + n \<le> VSTR_MAX_LARGE_SIZE"
  shows "\<exists>s'. vstr_push_string_len al s str n = (0, s') \<and> vstr_live s' \<and>
    vstr_str s' = vstr_str s @ take n str"
  using assms by (intro sink_live_str) auto

theorem vstr_push_string_appends_witness:
  "\<exists>s'. vstr_push_string_len (\<lambda>_. 4096) (vstr_from (\<lambda>_. 4096) ''0123456789abcdef'') ''0123456789'' 10
     = (0, s') \<and> vstr_live s' \<and>
     vstr_str s' = vstr_str (vstr_from (\<lambda>_. 4096) ''0123456789abcdef'') @ take 10 ''0123456789''"
  by (rule vstr_push_string_appends)
    (simp_all add: vstr_from_def strlen_def c_str_def vstr_views VSTR_MAX_LARGE_SIZE_def)

text \<open>
  C31. Whatever the allocator answers, a push returns 0 or -1 and leaves a well-formed string, and
  a return code of 0 means that the byte was appended.
\<close>

theorem vstr_push_char_safe:
  assumes "vstr_live s"
  shows "case vstr_push_char al s c of (r, s') \<Rightarrow>
    vstr_wf s' \<and> (r = 0 \<and> vstr_str s' = vstr_str s @ [c] \<or> r = - 1)"
proof -
  obtain r s' where s': "vstr_push_char al s c = (r, s')" by (cases "vstr_push_char al s c")
  have "r = 0 \<or> r = - 1"
    using s' by (auto simp: vstr_push_char_def vstr_sm_push_char_def vstr_lg_push_char_def
        vstr_realloc_lg_def Let_def split: vstr.splits if_splits prod.splits)
  with s' assms show ?thesis
    by (auto intro: vstr_push_char_wf vstr_live_wf simp: vstr_push_char_contents)
qed

theorem vstr_push_char_safe_witness:
  "vstr_live (vstr_from (\<lambda>_. 0) ''0123456789abcdef0123456'') \<and>
   (case vstr_push_char (\<lambda>_. 0) (vstr_from (\<lambda>_. 0) ''0123456789abcdef0123456'') (CHR ''x'') of
      (r, s') \<Rightarrow> vstr_wf s' \<and>
        (r = 0 \<and> vstr_str s' = vstr_str (vstr_from (\<lambda>_. 0) ''0123456789abcdef0123456'') @ ''x''
         \<or> r = - 1))"
proof -
  have live: "vstr_live (vstr_from (\<lambda>_. 0) ''0123456789abcdef0123456'')"
    by (simp add: vstr_from_def strlen_def c_str_def)
  show ?thesis
    using live vstr_push_char_safe [OF live, where al = "\<lambda>_. 0" and c = "CHR ''x''"] by (rule conjI)
qed

text \<open>
  On strings without a zero byte, \<^verbatim>\<open>vstr_cmp\<close> returns 0 exactly when the two strings hold
  the same bytes.
\<close>

theorem vstr_cmp_eq_0_iff:
  assumes "vstr_wf a" "vstr_wf b" "NUL \<notin> set (vstr_str a)"
  shows "vstr_cmp a b = 0 \<longleftrightarrow> vstr_str a = vstr_str b"
  using assms by (rule vstr_cmp_zero)

theorem vstr_cmp_eq_0_iff_witness:
  "vstr_cmp (vstr_from (\<lambda>_. 0) ''foo'') (vstr_from_len (\<lambda>_. 0) ''fooz'' 3) = 0 \<longleftrightarrow>
   vstr_str (vstr_from (\<lambda>_. 0) ''foo'') = vstr_str (vstr_from_len (\<lambda>_. 0) ''fooz'' 3)"
  by (rule vstr_cmp_eq_0_iff)
    (simp_all add: vstr_from_def vstr_from_len_def strlen_def c_str_def vstr_views)

text \<open>
  With a zero byte inside, \<^verbatim>\<open>vstr_cmp\<close> does not see what follows it: two different strings
  of the same length compare as equal.
\<close>

theorem vstr_cmp_stops_at_zero:
  "\<exists>a b. vstr_clean a \<and> vstr_clean b \<and> vstr_str a \<noteq> vstr_str b \<and> vstr_cmp a b = 0"
proof -
  let ?a = "vstr_from_len (\<lambda>_. 4096) [CHR ''k'', NUL, CHR ''1''] 3"
  let ?b = "vstr_from_len (\<lambda>_. 4096) [CHR ''k'', NUL, CHR ''2''] 3"
  have lt: "3 < VSTR_MAX_LARGE_SIZE" by (simp add: VSTR_MAX_LARGE_SIZE_def)
  have "vstr_clean ?a" "vstr_clean ?b" "vstr_str ?a \<noteq> vstr_str ?b"
    using vstr_from_len_clean [of "\<lambda>_. 4096", OF _ lt] by simp_all
  moreover have "vstr_cmp ?a ?b = 0"
    by (simp add: vstr_cmp_def vstr_from_len_def vstr_views numeral_3_eq_3)
  ultimately show ?thesis by blast
qed

end
