(* ===== verification/Vec.thy ===== *)
theory Vec
  imports Prelude
begin

text \<open>
  The growable array of the program (\<^verbatim>\<open>src/src/vec.h\<close>, \<^verbatim>\<open>src/src/vec.c\<close>) and its iterator. The
  data area is modelled with all its \<^verbatim>\<open>cap\<close> slots, because the iterator of an empty vector reads
  slots that hold no element. Sizes are natural numbers: a vector that exists in memory is far
  from the point where its sizes wrap.
\<close>

section \<open>Data\<close>

text \<open>
  The struct with its address. A slot that was never written (or was cleared) holds the element
  whose bytes are all zero; every operation that clears memory takes that element as its argument
  \<^term>\<open>z\<close>. \<^verbatim>\<open>data_size\<close> is the size of the element type; it only enters the size of the allocation.
\<close>

datatype 'a vec = Vec (vec_addr: addr) (vec_len: nat) (vec_cap: nat) (vec_data_size: nat)
  (vec_data: "'a list")

abbreviation VEC_INITIAL_CAP :: nat where "VEC_INITIAL_CAP \<equiv> 2"

text \<open>\<^verbatim>\<open>sizeof(vec)\<close>: three machine words, the flexible array member takes no space.\<close>

abbreviation sizeof_vec :: nat where "sizeof_vec \<equiv> 24"

section \<open>Operations\<close>

definition vec_new :: "allocator \<Rightarrow> 'a \<Rightarrow> nat \<Rightarrow> 'a vec option" where
  "vec_new al z data_size =
     (let needed = sizeof_vec + data_size * VEC_INITIAL_CAP; p = al needed in
      if p = 0 then None
      else Some (Vec p 0 VEC_INITIAL_CAP data_size (replicate VEC_INITIAL_CAP z)))"

definition vec_new_with_capacity :: "allocator \<Rightarrow> 'a \<Rightarrow> nat \<Rightarrow> nat \<Rightarrow> 'a vec option" where
  "vec_new_with_capacity al z data_size capacity =
     (if capacity < 2 then None
      else
        let needed = sizeof_vec + data_size * capacity; p = al needed in
        if p = 0 then None
        else Some (Vec p 0 capacity data_size (replicate capacity z)))"

definition vec_realloc :: "allocator \<Rightarrow> 'a \<Rightarrow> 'a vec \<Rightarrow> nat \<Rightarrow> nat \<Rightarrow> int \<times> 'a vec" where
  "vec_realloc al z v cap len =
     (let cap' = cap * 2; p = al (sizeof_vec + cap' * vec_data_size v) in
      if p = 0 then (- 1, v)
      else (0, Vec p (vec_len v) cap' (vec_data_size v)
                 (take len (vec_data v) @ replicate (cap' - len) z)))"

definition vec_push :: "allocator \<Rightarrow> 'a \<Rightarrow> 'a vec \<Rightarrow> 'a \<Rightarrow> int \<times> 'a vec" where
  "vec_push al z v x =
     (let len = vec_len v; cap = vec_cap v;
          (r, v1) = (if len = cap then vec_realloc al z v cap len else (0, v)) in
      if r = - 1 then (- 1, v1)
      else (0, Vec (vec_addr v1) (vec_len v1 + 1) (vec_cap v1) (vec_data_size v1)
                 ((vec_data v1)[len := x])))"

definition vec_pop :: "'a vec \<Rightarrow> (int \<times> 'a option) \<times> 'a vec" where
  "vec_pop v =
     (if vec_len v = 0 then ((- 1, None), v)
      else
        let pop_idx = vec_len v - 1 in
        ((0, Some (vec_data v ! pop_idx)),
         Vec (vec_addr v) (vec_len v - 1) (vec_cap v) (vec_data_size v) (vec_data v)))"

text \<open>\<^verbatim>\<open>vec_get_at\<close> returns a pointer to the slot: the element there, or \<^verbatim>\<open>NULL\<close>.\<close>

definition vec_get_at :: "'a vec \<Rightarrow> nat \<Rightarrow> 'a option" where
  "vec_get_at v idx = (if idx \<ge> vec_len v then None else Some (vec_data v ! idx))"

definition vec_remove_at :: "'a \<Rightarrow> 'a vec \<Rightarrow> nat \<Rightarrow> (int \<times> 'a option) \<times> 'a vec" where
  "vec_remove_at z v idx =
     (if idx \<ge> vec_len v then ((- 1, None), v)
      else
        let new_len = vec_len v - 1; d = vec_data v; out = d ! idx in
        if new_len = idx then
          ((0, Some out), Vec (vec_addr v) new_len (vec_cap v) (vec_data_size v) (d[idx := z]))
        else
          let moved = take idx d @ take (new_len - idx) (drop (idx + 1) d) @ drop new_len d in
          ((0, Some out),
           Vec (vec_addr v) new_len (vec_cap v) (vec_data_size v) (moved[new_len := z])))"

text \<open>
  \<^verbatim>\<open>vec_find\<close> walks the live slots from index 0 and compares with the caller's function; the
  result is the index (-1 when no element compares as equal) and the element copied to \<^verbatim>\<open>out\<close>.
\<close>

fun vec_find_from :: "('a \<Rightarrow> int) \<Rightarrow> 'a list \<Rightarrow> nat \<Rightarrow> int \<times> 'a option" where
  "vec_find_from cmp [] i = (- 1, None)"
| "vec_find_from cmp (x # xs) i =
     (if cmp x = 0 then (int i, Some x) else vec_find_from cmp xs (Suc i))"

definition vec_find :: "'a vec \<Rightarrow> ('a \<Rightarrow> int) \<Rightarrow> int \<times> 'a option" where
  "vec_find v cmp = vec_find_from cmp (take (vec_len v) (vec_data v)) 0"

text \<open>\<^verbatim>\<open>vec_free\<close>: the elements it hands to the callback, in order, and the block it then frees.\<close>

definition vec_free :: "bool \<Rightarrow> 'a vec \<Rightarrow> 'a list \<times> addr" where
  "vec_free fn v = (if fn then take (vec_len v) (vec_data v) else [], vec_addr v)"

section \<open>The iterator\<close>

text \<open>
  \<^verbatim>\<open>cur\<close> and \<^verbatim>\<open>next\<close> are pointers into the data area, modelled as slot numbers. \<^verbatim>\<open>end_idx\<close> is
  computed as \<^verbatim>\<open>vec->len - 1\<close> in \<^verbatim>\<open>size_t\<close>, so it wraps to the largest value on an empty vector.
\<close>

record 'a vec_iter =
  iter_cur :: "nat option"
  iter_next :: "nat option"
  iter_next_idx :: "64 word"
  iter_end_idx :: "64 word"
  iter_vec :: "'a vec"

definition vec_iter_next :: "'a vec_iter \<Rightarrow> 'a vec_iter" where
  "vec_iter_next it =
     it\<lparr>iter_cur := iter_next it,
        iter_next := (if iter_next_idx it > iter_end_idx it then None
                      else Some (unat (iter_next_idx it))),
        iter_next_idx := iter_next_idx it + 1\<rparr>"

definition vec_iter_new :: "'a vec \<Rightarrow> 'a vec_iter" where
  "vec_iter_new v =
     vec_iter_next (vec_iter_next
       \<lparr>iter_cur = None, iter_next = None, iter_next_idx = 0,
        iter_end_idx = of_nat (vec_len v) - 1, iter_vec = v\<rparr>)"

text \<open>The element behind \<^verbatim>\<open>iter.cur\<close>: a slot past the capacity is not memory of the vector.\<close>

definition vec_slot :: "'a vec \<Rightarrow> nat \<Rightarrow> 'a res" where
  "vec_slot v i = (if i < length (vec_data v) then Inr (vec_data v ! i) else Inl Out_of_bounds)"

text \<open>
  The loop \<^verbatim>\<open>while (iter.cur) { body; vec_iter_next(&iter); }\<close> that the callers run, over at most
  \<^term>\<open>n\<close> turns: \<^term>\<open>body\<close> gets the element and the caller's state, and says whether to go on.
\<close>

fun vec_iter_loop :: "nat \<Rightarrow> ('a \<Rightarrow> 's \<Rightarrow> (bool \<times> 's) res) \<Rightarrow> 'a vec_iter \<Rightarrow> 's \<Rightarrow> (bool \<times> 's) res" where
  "vec_iter_loop 0 body it s = Inl Out_of_fuel"
| "vec_iter_loop (Suc n) body it s = (case iter_cur it of
     None \<Rightarrow> Inr (True, s)
   | Some i \<Rightarrow> res_bind (vec_slot (iter_vec it) i) (\<lambda>x. res_bind (body x s) (\<lambda>(go, s').
       if go then vec_iter_loop n body (vec_iter_next it) s' else Inr (False, s'))))"

section \<open>Contents and invariant\<close>

definition vec_list :: "'a vec \<Rightarrow> 'a list" where
  "vec_list v = take (vec_len v) (vec_data v)"

definition vec_wf :: "'a vec \<Rightarrow> bool" where
  "vec_wf v \<longleftrightarrow> vec_len v \<le> vec_cap v \<and> length (vec_data v) = vec_cap v \<and> 2 \<le> vec_cap v"

lemma length_vec_list [simp]: "vec_wf v \<Longrightarrow> length (vec_list v) = vec_len v"
  by (simp add: vec_list_def vec_wf_def)

lemma vec_free_all: "vec_free True v = (vec_list v, vec_addr v)"
  by (simp add: vec_free_def vec_list_def)

lemma vec_new_spec:
  assumes "vec_new al z ds = Some v"
  shows "vec_wf v" "vec_list v = []"
  using assms by (auto simp: vec_new_def vec_wf_def vec_list_def Let_def split: if_splits)

lemma vec_new_total: "alloc_total al \<Longrightarrow> \<exists>v. vec_new al z ds = Some v"
  by (simp add: vec_new_def Let_def)

lemma vec_new_with_capacity_spec:
  assumes "vec_new_with_capacity al z ds c = Some v"
  shows "vec_wf v" "vec_list v = []" "vec_cap v = c"
  using assms by (auto simp: vec_new_with_capacity_def vec_wf_def vec_list_def Let_def split: if_splits)

lemma vec_push_spec:
  assumes "vec_wf v" "vec_push al z v x = (r, v')"
  shows "vec_wf v'" "r = 0 \<or> r = - 1"
    "r = 0 \<Longrightarrow> vec_list v' = vec_list v @ [x]" "r \<noteq> 0 \<Longrightarrow> v' = v"
  using assms
  by (auto simp: vec_push_def vec_realloc_def vec_wf_def vec_list_def Let_def take_list_update_last
      list_update_append split: if_splits)

lemma vec_push_total: "alloc_total al \<Longrightarrow> fst (vec_push al z v x) = 0"
  by (simp add: vec_push_def vec_realloc_def Let_def)

lemma vec_pop_spec:
  assumes "vec_wf v"
  shows "vec_wf (snd (vec_pop v))"
    "vec_list v = [] \<Longrightarrow> vec_pop v = ((- 1, None), v)"
    "vec_list v \<noteq> [] \<Longrightarrow> fst (vec_pop v) = (0, Some (last (vec_list v)))"
    "vec_list (snd (vec_pop v)) = butlast (vec_list v)"
  using assms
  by (auto simp: vec_pop_def vec_wf_def vec_list_def Let_def last_conv_nth butlast_take)

lemma vec_get_at_spec:
  "vec_wf v \<Longrightarrow> vec_get_at v i = (if i < length (vec_list v) then Some (vec_list v ! i) else None)"
  by (auto simp: vec_get_at_def vec_list_def vec_wf_def)

lemma vec_find_from_found:
  assumes "vec_find_from cmp xs i = (j, out)" "j \<noteq> - 1"
  shows "\<exists>k < length xs. j = int (i + k) \<and> out = Some (xs ! k) \<and> cmp (xs ! k) = 0 \<and>
    (\<forall>l < k. cmp (xs ! l) \<noteq> 0)"
  using assms
proof (induction xs arbitrary: i)
  case Nil
  then show ?case by simp
next
  case (Cons x xs)
  show ?case
  proof (cases "cmp x = 0")
    case True
    with Cons.prems show ?thesis by auto
  next
    case False
    with Cons.prems have "vec_find_from cmp xs (Suc i) = (j, out)" by simp
    with Cons.IH [of "Suc i"] Cons.prems(2) obtain k where
      k: "k < length xs" "j = int (Suc i + k)" "out = Some (xs ! k)" "cmp (xs ! k) = 0"
        "\<forall>l < k. cmp (xs ! l) \<noteq> 0"
      by auto
    with False have "\<forall>l < Suc k. cmp ((x # xs) ! l) \<noteq> 0" by (simp add: All_less_Suc2)
    with k show ?thesis by (intro exI [of _ "Suc k"]) auto
  qed
qed

lemma vec_find_found:
  assumes "vec_find v cmp = (j, out)" "j \<noteq> - 1"
  shows "\<exists>k < length (vec_list v). j = int k \<and> out = Some (vec_list v ! k) \<and>
    cmp (vec_list v ! k) = 0 \<and> (\<forall>l < k. cmp (vec_list v ! l) \<noteq> 0)"
  using vec_find_from_found [of cmp "vec_list v" 0 j out] assms
  by (simp add: vec_find_def vec_list_def)

lemma vec_find_from_none:
  "vec_find_from cmp xs i = (- 1, out) \<Longrightarrow> out = None \<and> (\<forall>x \<in> set xs. cmp x \<noteq> 0)"
  by (induction xs arbitrary: i) (auto split: if_splits)

lemma vec_find_none: "vec_find v cmp = (- 1, out) \<Longrightarrow> out = None \<and> (\<forall>x \<in> set (vec_list v). cmp x \<noteq> 0)"
  unfolding vec_find_def vec_list_def by (rule vec_find_from_none)

text \<open>Removing an element: the rest keeps its order.\<close>

lemma vec_remove_at_spec:
  assumes "vec_wf v"
  shows "vec_wf (snd (vec_remove_at z v i))"
    "length (vec_list v) \<le> i \<Longrightarrow> vec_remove_at z v i = ((- 1, None), v)"
    "i < length (vec_list v) \<Longrightarrow> fst (vec_remove_at z v i) = (0, Some (vec_list v ! i))"
    "i < length (vec_list v) \<Longrightarrow>
       vec_list (snd (vec_remove_at z v i)) = take i (vec_list v) @ drop (Suc i) (vec_list v)"
  using assms
  by (auto simp: vec_remove_at_def vec_wf_def vec_list_def Let_def drop_take min_def split: if_splits)

section \<open>The vector as a stack\<close>

text \<open>
  What the server relies on when it runs PUSH and POP: the elements form a list, a push that
  finds memory appends, a push that does not changes nothing, a pop takes the last element.
\<close>

locale stack =
  fixes push :: "allocator \<Rightarrow> 's \<Rightarrow> 'a \<Rightarrow> int \<times> 's"
    and pop :: "'s \<Rightarrow> (int \<times> 'a option) \<times> 's"
    and contents :: "'s \<Rightarrow> 'a list"
    and inv :: "'s \<Rightarrow> bool"
  assumes push_law: "inv s \<Longrightarrow> alloc_total al \<Longrightarrow>
      \<exists>s'. push al s x = (0, s') \<and> inv s' \<and> contents s' = contents s @ [x]"
    and push_inv: "inv s \<Longrightarrow> inv (snd (push al s x))"
    and push_fail: "inv s \<Longrightarrow> fst (push al s x) \<noteq> 0 \<Longrightarrow> contents (snd (push al s x)) = contents s"
    and pop_empty: "inv s \<Longrightarrow> contents s = [] \<Longrightarrow> pop s = ((- 1, None), s)"
    and pop_law: "inv s \<Longrightarrow> contents s \<noteq> [] \<Longrightarrow>
      \<exists>s'. pop s = ((0, Some (last (contents s))), s') \<and> inv s' \<and> contents s' = butlast (contents s)"
begin

lemma push_all:
  assumes "inv s" "alloc_total al"
  shows "inv (foldl (\<lambda>t x. snd (push al t x)) s xs) \<and>
    contents (foldl (\<lambda>t x. snd (push al t x)) s xs) = contents s @ xs"
  using assms
proof (induction xs arbitrary: s)
  case Nil
  then show ?case by simp
next
  case (Cons x xs)
  from push_law [OF Cons.prems, of x] obtain s'
    where "push al s x = (0, s')" "inv s'" "contents s' = contents s @ [x]" by blast
  with Cons.IH [of s'] Cons.prems(2) show ?case by simp
qed

lemma push_pop:
  assumes "inv s" "alloc_total al"
  shows "\<exists>s'. push al s x = (0, s') \<and> inv s' \<and> contents s' = contents s @ [x] \<and>
    fst (pop s') = (0, Some x) \<and> inv (snd (pop s')) \<and> contents (snd (pop s')) = contents s"
proof -
  from push_law [OF assms, of x] obtain s'
    where s': "push al s x = (0, s')" "inv s'" "contents s' = contents s @ [x]" by blast
  with pop_law [of s'] show ?thesis by auto
qed

end

interpretation vst: stack "\<lambda>al. vec_push al z" vec_pop vec_list vec_wf for z
proof unfold_locales
  fix v :: "'a vec" and al x
  assume wf: "vec_wf v"
  obtain r v' where p: "vec_push al z v x = (r, v')" by (cases "vec_push al z v x")
  show "vec_wf (snd (vec_push al z v x))" using wf p vec_push_spec(1) [OF wf p] by simp
  show "vec_list (snd (vec_push al z v x)) = vec_list v" if "fst (vec_push al z v x) \<noteq> 0"
    using wf p that vec_push_spec(4) [OF wf p] by simp
  show "\<exists>s'. vec_push al z v x = (0, s') \<and> vec_wf s' \<and> vec_list s' = vec_list v @ [x]"
    if "alloc_total al"
    using vec_push_total [OF that, of z v x] vec_push_spec [OF wf p] p by simp
next
  fix v :: "'a vec"
  assume wf: "vec_wf v"
  show "vec_pop v = ((- 1, None), v)" if "vec_list v = []"
    using wf that by (rule vec_pop_spec(2))
  show "\<exists>s'. vec_pop v = ((0, Some (last (vec_list v))), s') \<and> vec_wf s' \<and>
      vec_list s' = butlast (vec_list v)" if "vec_list v \<noteq> []"
    using vec_pop_spec [OF wf] that by (metis prod.collapse)
qed

section \<open>What the iterator visits\<close>

text \<open>The iterator when the loop is about to handle slot \<^term>\<open>k\<close>, for last index \<^term>\<open>e\<close>.\<close>

definition iter_at :: "'a vec \<Rightarrow> 64 word \<Rightarrow> nat \<Rightarrow> 'a vec_iter" where
  "iter_at v e k =
     \<lparr>iter_cur = (if of_nat k \<le> e then Some k else None),
      iter_next = (if of_nat (Suc k) \<le> e then Some (Suc k) else None),
      iter_next_idx = of_nat (k + 2), iter_end_idx = e, iter_vec = v\<rparr>"

lemma unat_of_nat_64: "n < 2 ^ 64 \<Longrightarrow> unat (of_nat n :: 64 word) = n"
  by (simp add: unat_of_nat)

lemma word_one_le: "e \<noteq> 0 \<Longrightarrow> (1 :: 64 word) \<le> e"
  by (simp add: word_le_nat_alt Suc_le_eq unat_gt_0)

lemma vec_iter_new_at: "vec_iter_new v = iter_at v (of_nat (vec_len v) - 1) 0"
proof -
  have "vec_iter_next (vec_iter_next \<lparr>iter_cur = None, iter_next = None, iter_next_idx = 0,
      iter_end_idx = e, iter_vec = v\<rparr>) = iter_at v e 0" for e
    by (auto simp: vec_iter_next_def iter_at_def not_less word_one_le)
  then show ?thesis by (simp only: vec_iter_new_def)
qed

lemma vec_iter_next_at:
  assumes "k + 2 < 2 ^ 64"
  shows "vec_iter_next (iter_at v e k) = iter_at v e (Suc k)"
  using assms unat_of_nat_64 [of "k + 2"]
  by (auto simp: vec_iter_next_def iter_at_def not_less)

lemma vec_iter_loop_at:
  assumes "\<And>j. k \<le> j \<Longrightarrow> j \<le> m \<Longrightarrow> of_nat j \<le> e \<longleftrightarrow> j < m"
    and "k \<le> m" "m \<le> length (vec_data v)" "m + 2 < 2 ^ 64" "m - k < n"
  shows "vec_iter_loop n body (iter_at v e k) s = run_body body (take (m - k) (drop k (vec_data v))) s"
  using assms
proof (induction n arbitrary: k s)
  case 0
  then show ?case by simp
next
  case (Suc n)
  show ?case
  proof (cases "k < m")
    case True
    have e: "of_nat k \<le> e" using Suc.prems(1) [of k] True by simp
    have IH: "vec_iter_loop n body (iter_at v e (Suc k)) t =
        run_body body (take (m - Suc k) (drop (Suc k) (vec_data v))) t" for t
      using Suc.prems True by (intro Suc.IH) auto
    have "take (m - k) (drop k (vec_data v)) =
        vec_data v ! k # take (m - Suc k) (drop (Suc k) (vec_data v))"
      using True Suc.prems(3) by (metis Cons_nth_drop_Suc Suc_diff_Suc less_le_trans take_Suc_Cons)
    moreover have "iter_cur (iter_at v e k) = Some k" "vec_slot v k = Inr (vec_data v ! k)"
      using e True Suc.prems(3) by (simp_all add: iter_at_def vec_slot_def)
    moreover have "vec_iter_next (iter_at v e k) = iter_at v e (Suc k)"
      using True Suc.prems(4) by (intro vec_iter_next_at) simp
    moreover have "iter_vec (iter_at v e k) = v" by (simp add: iter_at_def)
    ultimately show ?thesis by (simp add: IH cong: if_cong)
  next
    case False
    with Suc.prems(1) [of k] Suc.prems(2) have "\<not> of_nat k \<le> e" by simp
    with False show ?thesis by (simp add: iter_at_def)
  qed
qed

lemma vec_iter_loop_oob:
  assumes "e = - 1" "k \<le> length (vec_data v)" "length (vec_data v) + 2 < 2 ^ 64"
    "length (vec_data v) - k < n"
  shows "vec_iter_loop n body (iter_at v e k) s =
    res_bind (run_body body (drop k (vec_data v)) s)
      (\<lambda>(go, s'). if go then Inl Out_of_bounds else Inr (False, s'))"
  using assms
proof (induction n arbitrary: k s)
  case 0
  then show ?case by simp
next
  case (Suc n)
  let ?d = "vec_data v"
  have cur: "iter_cur (iter_at v e k) = Some k" "iter_vec (iter_at v e k) = v"
    using Suc.prems(1) by (simp_all add: iter_at_def word_order.extremum)
  show ?case
  proof (cases "k < length ?d")
    case True
    have IH: "vec_iter_loop n body (iter_at v e (Suc k)) t =
        res_bind (run_body body (drop (Suc k) ?d) t)
          (\<lambda>(go, s'). if go then Inl Out_of_bounds else Inr (False, s'))" for t
      using Suc.prems True by (intro Suc.IH) auto
    have "vec_iter_next (iter_at v e k) = iter_at v e (Suc k)"
      using True Suc.prems(3) by (simp add: vec_iter_next_at)
    with cur True show ?thesis
      by (auto simp: vec_slot_def IH res_bind_assoc Cons_nth_drop_Suc [symmetric]
          intro!: res_bind_cong split: prod.splits)
  next
    case False
    with cur show ?thesis by (simp add: vec_slot_def)
  qed
qed

lemma vec_iter_loop_visits:
  assumes "vec_wf v" "vec_list v \<noteq> []" "vec_len v + 2 < 2 ^ 64" "vec_cap v < n"
  shows "vec_iter_loop n body (vec_iter_new v) s = run_body body (vec_list v) s"
proof -
  let ?m = "vec_len v"
  have m: "0 < ?m" "?m \<le> length (vec_data v)" "?m + 2 < 2 ^ 64" "?m < n"
    using assms by (auto simp: vec_wf_def vec_list_def)
  have "of_nat j \<le> (of_nat ?m - 1 :: 64 word) \<longleftrightarrow> j < ?m" if "j \<le> ?m" for j
  proof -
    have eq: "of_nat ?m - 1 = (of_nat (?m - 1) :: 64 word)" using m(1) by simp
    have "unat (of_nat j :: 64 word) = j" using that m by (intro unat_of_nat_64) linarith
    moreover have "unat (of_nat (?m - 1) :: 64 word) = ?m - 1"
      using m by (intro unat_of_nat_64) linarith
    ultimately show ?thesis unfolding eq using m(1) by (auto simp only: word_le_nat_alt)
  qed
  with m vec_iter_loop_at [of 0 ?m "of_nat ?m - 1" v n body s] show ?thesis
    by (simp add: vec_iter_new_at vec_list_def)
qed

section \<open>Properties\<close>

text \<open>
  The vector is a stack: with memory available a push succeeds and appends its element (also
  when the vector has to grow), and the next pop returns that element and leaves the elements
  that were there before.
\<close>

theorem vec_push_pop:
  assumes "vec_wf v" "alloc_total al"
  shows "\<exists>v'. vec_push al z v x = (0, v') \<and> vec_wf v' \<and> vec_list v' = vec_list v @ [x] \<and>
    fst (vec_pop v') = (0, Some x) \<and> vec_wf (snd (vec_pop v')) \<and>
    vec_list (snd (vec_pop v')) = vec_list v"
  using assms by (rule vst.push_pop)

theorem vec_push_pop_witness:
  "\<exists>v'. vec_push (\<lambda>_. 4096) 0 (Vec 4096 2 2 8 [5, 6 :: nat]) 7 = (0, v') \<and> vec_wf v' \<and>
    vec_list v' = vec_list (Vec 4096 2 2 8 [5, 6 :: nat]) @ [7] \<and>
    fst (vec_pop v') = (0, Some 7) \<and> vec_wf (snd (vec_pop v')) \<and>
    vec_list (snd (vec_pop v')) = vec_list (Vec 4096 2 2 8 [5, 6 :: nat])"
  by (rule vec_push_pop) (simp_all add: vec_wf_def)

text \<open>
  Iterating over a vector that has elements handles exactly its elements, each once, in order,
  and then ends.
\<close>

theorem vec_iter_visits:
  fixes v :: "'a vec"
  assumes "vec_wf v" "vec_list v \<noteq> []" "vec_len v + 2 < 2 ^ 64" "vec_cap v < n"
  shows "vec_iter_loop n (\<lambda>x acc. Inr (True, acc @ [x])) (vec_iter_new v) [] = Inr (True, vec_list v)"
proof -
  have run: "run_body (\<lambda>x acc. Inr (True, acc @ [x])) xs acc = Inr (True, acc @ xs)"
    for xs :: "'a list" and acc
    by (induction xs arbitrary: acc) auto
  show ?thesis by (simp add: vec_iter_loop_visits [OF assms] run)
qed

theorem vec_iter_visits_witness:
  "vec_iter_loop 5 (\<lambda>x acc. Inr (True, acc @ [x])) (vec_iter_new (Vec 4096 3 4 8 [5, 6, 7, 0 :: nat])) []
     = Inr (True, [5, 6, 7])"
  using vec_iter_visits [of "Vec 4096 3 4 8 [5, 6, 7, 0 :: nat]" 5]
  by (simp add: vec_wf_def vec_list_def)

text \<open>
  Iterating over an empty vector does not end at once: the last index wraps to the largest
  \<^verbatim>\<open>size_t\<close>, so the loop handles every slot of the data area although none holds an element, and
  then reads past the end of the allocation.
\<close>

theorem vec_iter_empty_out_of_bounds:
  assumes "vec_wf v" "vec_list v = []" "vec_cap v + 2 < 2 ^ 64" "vec_cap v < n"
    and go: "\<And>x s. \<exists>s'. body x s = Inr (True, s')"
  shows "vec_iter_loop n body (vec_iter_new v) s = Inl Out_of_bounds"
proof -
  have "\<exists>s'. run_body body xs s = Inr (True, s')" for xs s
  proof (induction xs arbitrary: s)
    case Nil
    then show ?case by simp
  next
    case (Cons x xs)
    then show ?case using go [of x s] by auto
  qed
  then obtain s' where "run_body body (vec_data v) s = Inr (True, s')" by blast
  moreover have "vec_len v = 0" "length (vec_data v) = vec_cap v"
    using assms(1,2) by (auto simp: vec_list_def vec_wf_def)
  ultimately show ?thesis
    using assms(3,4) vec_iter_loop_oob [of "- 1" 0 v n body s] by (simp add: vec_iter_new_at)
qed

theorem vec_iter_empty_out_of_bounds_witness:
  "vec_iter_loop 3 (\<lambda>x k. Inr (True, Suc k)) (vec_iter_new (Vec 4096 0 2 8 [0, 0 :: nat])) 0
     = Inl Out_of_bounds"
  by (rule vec_iter_empty_out_of_bounds) (simp_all add: vec_wf_def vec_list_def)

end
