(* ===== verification/Chains.thy ===== *)
theory Chains
  imports Prelude "HOL-Library.Multiset"
begin

text \<open>
  Arrays of entry chains, the storage that the hash table (\<^verbatim>\<open>src/src/ht.c\<close>) and the set
  (\<^verbatim>\<open>src/src/set.c\<close>) share in form: a chain is the list of the entries from the bucket's head
  pointer on. The theory holds the rehashing loop, which the two files write out with the same
  statements, and the lemmas on replacing one chain of an array.
\<close>

section \<open>Rehashing\<close>

text \<open>One turn of the inner loop of a resize: the entry becomes the head of its new chain.\<close>

definition relink :: "('e \<Rightarrow> nat) \<Rightarrow> 'e list list \<Rightarrow> 'e \<Rightarrow> 'e list list" where
  "relink slot new_entries cur = new_entries[slot cur := cur # new_entries ! slot cur]"

text \<open>The two loops: over the old slots, and over the chain of each.\<close>

definition rehash :: "('e \<Rightarrow> nat) \<Rightarrow> nat \<Rightarrow> 'e list list \<Rightarrow> 'e list list" where
  "rehash slot new_cap old_entries =
     foldl (foldl (relink slot)) (replicate new_cap []) old_entries"

section \<open>Entries in their slots\<close>

definition in_slots :: "('e \<Rightarrow> nat) \<Rightarrow> 'e list list \<Rightarrow> bool" where
  "in_slots slot bs \<longleftrightarrow> (\<forall>i < length bs. \<forall>e \<in> set (bs ! i). slot e = i)"

lemma in_slotsD: "in_slots slot bs \<Longrightarrow> i < length bs \<Longrightarrow> e \<in> set (bs ! i) \<Longrightarrow> slot e = i"
  by (simp add: in_slots_def)

lemma in_slots_replicate [simp]: "in_slots slot (replicate n [])"
  by (simp add: in_slots_def)

lemma in_slots_update:
  assumes "in_slots slot bs" "\<And>e. e \<in> set c \<Longrightarrow> slot e = i"
  shows "in_slots slot (bs[i := c])"
proof -
  have "slot e = j" if "j < length bs" "e \<in> set (bs[i := c] ! j)" for j e
    using assms that by (cases "i = j") (auto dest: in_slotsD)
  then show ?thesis by (simp add: in_slots_def)
qed

lemma mset_concat_update:
  assumes "i < length bs"
  shows "mset (concat (bs[i := c])) + mset (bs ! i) = mset (concat bs) + mset c"
proof -
  have "bs[i := c] = take i bs @ c # drop (Suc i) bs"
    using assms by (simp add: upd_conv_take_nth_drop)
  moreover have "concat bs = concat (take i bs) @ bs ! i @ concat (drop (Suc i) bs)"
    using assms by (metis append_take_drop_id concat.simps(2) concat_append Cons_nth_drop_Suc)
  ultimately show ?thesis by simp
qed

lemma mset_concat_cons:
  assumes "i < length bs"
  shows "mset (concat (bs[i := e # bs ! i])) = add_mset e (mset (concat bs))"
  using mset_concat_update [OF assms, of "e # bs ! i"] by simp

lemma mset_concat_swap:
  assumes "i < length bs" "bs ! i = xs @ e # ys" "c = xs @ e' # ys"
  shows "add_mset e (mset (concat (bs[i := c]))) = add_mset e' (mset (concat bs))"
  using mset_concat_update [OF assms(1), of c] assms(2,3) by simp

lemma mset_concat_drop:
  assumes "i < length bs" "bs ! i = xs @ e # ys"
  shows "mset (concat bs) = add_mset e (mset (concat (bs[i := xs @ ys])))"
  using mset_concat_update [OF assms(1), of "xs @ ys"] assms(2) by simp

text \<open>An entry that is somewhere in the array is in the chain of its slot.\<close>

lemma in_slots_concat:
  assumes "in_slots slot bs" "slot e < length bs"
  shows "e \<in> set (concat bs) \<longleftrightarrow> e \<in> set (bs ! slot e)"
proof
  assume "e \<in> set (concat bs)"
  then obtain i where "i < length bs" "e \<in> set (bs ! i)"
    by (metis concat.simps in_set_conv_nth set_concat UN_iff)
  with assms(1) show "e \<in> set (bs ! slot e)" by (auto dest: in_slotsD)
next
  assume "e \<in> set (bs ! slot e)"
  with assms(2) show "e \<in> set (concat bs)" by auto
qed

section \<open>Rehashing keeps the entries\<close>

lemma length_relink [simp]: "length (relink slot bs e) = length bs"
  by (simp add: relink_def)

lemma relink_chain:
  assumes "\<And>e. e \<in> set es \<Longrightarrow> slot e < length bs" "in_slots slot bs"
  shows "length (foldl (relink slot) bs es) = length bs \<and> in_slots slot (foldl (relink slot) bs es) \<and>
    mset (concat (foldl (relink slot) bs es)) = mset (concat bs) + mset es"
  using assms
proof (induction es arbitrary: bs)
  case Nil
  then show ?case by simp
next
  case (Cons e es)
  have "in_slots slot (relink slot bs e)"
    unfolding relink_def using Cons.prems by (intro in_slots_update) (auto dest: in_slotsD)
  with Cons.IH [of "relink slot bs e"] Cons.prems(1) show ?case
    by (simp add: relink_def mset_concat_cons)
qed

lemma foldl_concat: "foldl (foldl f) a xss = foldl f a (concat xss)"
  by (induction xss arbitrary: a) auto

lemma rehash_spec:
  assumes "\<And>e. slot e < n"
  shows "length (rehash slot n bs) = n" "in_slots slot (rehash slot n bs)"
    "mset (concat (rehash slot n bs)) = mset (concat bs)"
  using relink_chain [of "concat bs" slot "replicate n []"] assms
  by (simp_all add: rehash_def foldl_concat)

section \<open>Association lists with distinct keys\<close>

lemma map_of_mset:
  assumes "mset xs = mset ys" "distinct (map fst xs)"
  shows "map_of xs = map_of ys"
  using assms by (metis distinct_map map_of_inject_set mset_eq_imp_distinct_iff mset_eq_setD mset_map)

lemma distinct_keys_mset: "mset xs = mset ys \<Longrightarrow> distinct (map fst xs) \<longleftrightarrow> distinct (map fst ys)"
  by (metis mset_eq_imp_distinct_iff mset_map)

end
