(* ===== verification/Ht.thy ===== *)
theory Ht
  imports Chains Siphash
begin

text \<open>
  The hash table (\<^verbatim>\<open>src/src/ht.h\<close>, \<^verbatim>\<open>src/src/ht.c\<close>): an array of chains, keyed by the SipHash of
  the bytes of the key under the table's random seed. The keys are compared by the function the
  table was made with, or, when it was made with \<^verbatim>\<open>NULL\<close>, by size and \<^verbatim>\<open>memcmp\<close>. The theory holds
  one definition per function, the invariant of a table, the proof that a table implements a map
  whenever the comparison agrees with equality on the keys in use, and the iterator.
\<close>

section \<open>Data\<close>

abbreviation HT_INITIAL_CAP :: nat where "HT_INITIAL_CAP \<equiv> 32"
abbreviation HT_SEED_SIZE :: nat where "HT_SEED_SIZE \<equiv> 16"

datatype ht_result = HT_OK | HT_INV_KEY | HT_OOM

text \<open>
  The struct. \<^term>\<open>ht_key_cmp\<close> says whether \<^verbatim>\<open>key_cmp\<close> is not \<^verbatim>\<open>NULL\<close>; the function itself is an
  argument of the operations (so that a table can be part of the objects it stores). An entry is
  its key and its value; a chain lists the entries in the order of their \<^verbatim>\<open>next\<close> pointers.
\<close>

datatype ('k, 'v) ht = Ht_struct (ht_num_entries: nat) (ht_capacity: nat) (ht_data_size: nat)
  (ht_key_cmp: bool) (ht_seed: string) (ht_addr: addr) (ht_entries: "('k \<times> 'v) list list")

text \<open>What an operation hands to \<^verbatim>\<open>free_key\<close> and \<^verbatim>\<open>free_data\<close>, in the order of the calls.\<close>

datatype ('k, 'v) freed = Freed_key 'k | Freed_data 'v

type_synonym ('k, 'v) ht_out = "ht_result \<times> ('k, 'v) freed list \<times> ('k, 'v) ht"

text \<open>
  The key type: the bytes of a key (their number is the \<^verbatim>\<open>key_size\<close> the callers pass) and the
  comparison function the callers gave to \<^verbatim>\<open>ht_new\<close>.
\<close>

record 'k key_ops =
  key_bytes :: "'k \<Rightarrow> string"
  key_fn :: "'k \<Rightarrow> 'k \<Rightarrow> int"

section \<open>Operations\<close>

definition ht_padding :: "nat \<Rightarrow> nat" where
  "ht_padding n = (8 - (n + 16) mod 8) mod 8"

definition ht_new :: "allocator \<Rightarrow> string \<Rightarrow> nat \<Rightarrow> bool \<Rightarrow> ('k, 'v) ht res" where
  "ht_new al random data_size key_cmp =
     (let p = al (HT_INITIAL_CAP * 8) in
      if p = 0 then Inl Assert_failed
      else Inr (Ht_struct 0 HT_INITIAL_CAP data_size key_cmp (take HT_SEED_SIZE random) p
                  (replicate HT_INITIAL_CAP [])))"

definition key_slot :: "'k key_ops \<Rightarrow> string \<Rightarrow> nat \<Rightarrow> 'k \<Rightarrow> nat" where
  "key_slot K seed cap key = unat (siphash (key_bytes K key) (length (key_bytes K key)) seed) mod cap"

definition ht_hash :: "'k key_ops \<Rightarrow> ('k, 'v) ht \<Rightarrow> 'k \<Rightarrow> nat" where
  "ht_hash K h key = key_slot K (ht_seed h) (ht_capacity h) key"

text \<open>The comparison of the searched key with the key of an entry.\<close>

definition key_compare :: "'k key_ops \<Rightarrow> bool \<Rightarrow> 'k \<Rightarrow> 'k \<Rightarrow> int" where
  "key_compare K key_cmp key cur =
     (if key_cmp then key_fn K key cur
      else if length (key_bytes K key) \<noteq> length (key_bytes K cur) then 1
      else memcmp (key_bytes K key) (key_bytes K cur) (length (key_bytes K key)))"

definition ht_resize :: "'k key_ops \<Rightarrow> allocator \<Rightarrow> ('k, 'v) ht \<Rightarrow> ht_result \<times> ('k, 'v) ht" where
  "ht_resize K al h =
     (let new_cap = ht_capacity h * 2; p = al (new_cap * 8) in
      if p = 0 then (HT_OOM, h)
      else (HT_OK, Ht_struct (ht_num_entries h) new_cap (ht_data_size h) (ht_key_cmp h) (ht_seed h) p
              (rehash (\<lambda>e. key_slot K (ht_seed h) new_cap (fst e)) new_cap (ht_entries h))))"

text \<open>
  \<^verbatim>\<open>ht_entry_new\<close> clears the memory it asked for before any test for \<^verbatim>\<open>NULL\<close>, so a failed
  \<^verbatim>\<open>malloc\<close> is a write through the null pointer.
\<close>

definition ht_entry_new :: "allocator \<Rightarrow> 'k \<Rightarrow> nat \<Rightarrow> 'v \<Rightarrow> nat \<Rightarrow> ('k \<times> 'v) res" where
  "ht_entry_new al key key_size data data_size =
     (if al (16 + key_size + ht_padding key_size + data_size) = 0 then Inl Null_deref
      else Inr (key, data))"

text \<open>The table with another chain in a slot and another count.\<close>

definition ht_put :: "('k, 'v) ht \<Rightarrow> nat \<Rightarrow> nat \<Rightarrow> ('k \<times> 'v) list \<Rightarrow> ('k, 'v) ht" where
  "ht_put h num slot chain = Ht_struct num (ht_capacity h) (ht_data_size h) (ht_key_cmp h)
     (ht_seed h) (ht_addr h) ((ht_entries h)[slot := chain])"

text \<open>The search loop of \<^verbatim>\<open>ht_insert\<close>: the chain with the value replaced, and the old value.\<close>

fun chain_replace :: "('k \<Rightarrow> int) \<Rightarrow> 'v \<Rightarrow> ('k \<times> 'v) list \<Rightarrow> ('v \<times> ('k \<times> 'v) list) option" where
  "chain_replace cmp data [] = None"
| "chain_replace cmp data ((k, v) # es) =
     (if cmp k = 0 then Some (v, (k, data) # es)
      else map_option (\<lambda>(old, es'). (old, (k, v) # es')) (chain_replace cmp data es))"

definition ht_insert :: "'k key_ops \<Rightarrow> allocator \<Rightarrow> bool \<Rightarrow> bool \<Rightarrow> ('k, 'v) ht \<Rightarrow> 'k \<Rightarrow> 'v \<Rightarrow>
    ('k, 'v) ht_out res" where
  "ht_insert K al free_key free_data h key data =
     (let (resize, h) = (if ht_num_entries h = ht_capacity h then ht_resize K al h else (HT_OK, h)) in
      if resize \<noteq> HT_OK then Inr (resize, [], h)
      else
        let slot = ht_hash K h key; cur = ht_entries h ! slot in
        if cur = [] then
          res_bind (ht_entry_new al key (length (key_bytes K key)) data (ht_data_size h))
            (\<lambda>e. Inr (HT_OK, [], ht_put h (ht_num_entries h + 1) slot [e]))
        else
          case chain_replace (key_compare K (ht_key_cmp h) key) data cur of
            Some (old, cur') \<Rightarrow>
              Inr (HT_OK, (if free_data then [Freed_data old] else []) @
                          (if free_key then [Freed_key key] else []),
                   ht_put h (ht_num_entries h) slot cur')
          | None \<Rightarrow>
              res_bind (ht_entry_new al key (length (key_bytes K key)) data (ht_data_size h))
                (\<lambda>e. Inr (HT_OK, [], ht_put h (ht_num_entries h + 1) slot (e # cur))))"

text \<open>The search loops of the other operations: the first entry whose key compares as equal.\<close>

fun chain_find :: "('k \<Rightarrow> int) \<Rightarrow> ('k \<times> 'v) list \<Rightarrow> ('k \<times> 'v) option" where
  "chain_find cmp [] = None"
| "chain_find cmp ((k, v) # es) = (if cmp k = 0 then Some (k, v) else chain_find cmp es)"

definition ht_try_insert :: "'k key_ops \<Rightarrow> allocator \<Rightarrow> ('k, 'v) ht \<Rightarrow> 'k \<Rightarrow> 'v \<Rightarrow>
    (ht_result \<times> ('k, 'v) ht) res" where
  "ht_try_insert K al h key data =
     (let (resize, h) = (if ht_num_entries h = ht_capacity h then ht_resize K al h else (HT_OK, h)) in
      if resize \<noteq> HT_OK then Inr (resize, h)
      else
        let slot = ht_hash K h key; cur = ht_entries h ! slot in
        if cur = [] then
          res_bind (ht_entry_new al key (length (key_bytes K key)) data (ht_data_size h))
            (\<lambda>e. Inr (HT_OK, ht_put h (ht_num_entries h + 1) slot [e]))
        else
          case chain_find (key_compare K (ht_key_cmp h) key) cur of
            Some _ \<Rightarrow> Inr (HT_INV_KEY, h)
          | None \<Rightarrow>
              res_bind (ht_entry_new al key (length (key_bytes K key)) data (ht_data_size h))
                (\<lambda>e. Inr (HT_OK, ht_put h (ht_num_entries h + 1) slot (e # cur))))"

definition ht_get :: "'k key_ops \<Rightarrow> ('k, 'v) ht \<Rightarrow> 'k \<Rightarrow> 'v option" where
  "ht_get K h key =
     (let cur = ht_entries h ! ht_hash K h key in
      if cur = [] then None
      else map_option snd (chain_find (key_compare K (ht_key_cmp h) key) cur))"

text \<open>
  The loop of \<^verbatim>\<open>ht_delete\<close> with its \<^verbatim>\<open>prev\<close> pointer: the entry found and the chain without it.
\<close>

fun chain_delete :: "('k \<Rightarrow> int) \<Rightarrow> ('k \<times> 'v) list \<Rightarrow> (('k \<times> 'v) \<times> ('k \<times> 'v) list) option" where
  "chain_delete cmp [] = None"
| "chain_delete cmp ((k, v) # es) =
     (if cmp k = 0 then Some ((k, v), es)
      else map_option (\<lambda>(e, es'). (e, (k, v) # es')) (chain_delete cmp es))"

definition ht_entry_free :: "bool \<Rightarrow> bool \<Rightarrow> 'k \<times> 'v \<Rightarrow> ('k, 'v) freed list" where
  "ht_entry_free free_key free_data e =
     (if free_data then [Freed_data (snd e)] else []) @ (if free_key then [Freed_key (fst e)] else [])"

definition ht_delete :: "'k key_ops \<Rightarrow> bool \<Rightarrow> bool \<Rightarrow> ('k, 'v) ht \<Rightarrow> 'k \<Rightarrow> ('k, 'v) ht_out" where
  "ht_delete K free_key free_data h key =
     (let slot = ht_hash K h key; cur = ht_entries h ! slot in
      if cur = [] then (HT_INV_KEY, [], h)
      else
        case chain_delete (key_compare K (ht_key_cmp h) key) cur of
          Some (e, cur') \<Rightarrow>
            (HT_OK, ht_entry_free free_key free_data e, ht_put h (ht_num_entries h - 1) slot cur')
        | None \<Rightarrow> (HT_INV_KEY, [], h))"

text \<open>\<^verbatim>\<open>ht_free\<close>: every entry of every chain, in slot order.\<close>

definition ht_free :: "bool \<Rightarrow> bool \<Rightarrow> ('k, 'v) ht \<Rightarrow> ('k, 'v) freed list" where
  "ht_free free_key free_data h =
     concat (map (\<lambda>cur. concat (map (ht_entry_free free_key free_data) cur))
               (take (ht_capacity h) (ht_entries h)))"

section \<open>Invariant and contents\<close>

definition ht_map :: "('k, 'v) ht \<Rightarrow> 'k \<rightharpoonup> 'v" where
  "ht_map h = map_of (concat (ht_entries h))"

text \<open>
  A table in order: the array has \<^verbatim>\<open>capacity\<close> chains, the count is the number of the entries and at
  most the capacity, every entry is in the slot of its key, no key is stored twice, and the keys
  are from the key domain \<^term>\<open>D\<close>.
\<close>

definition ht_wf :: "'k key_ops \<Rightarrow> bool \<Rightarrow> ('k \<Rightarrow> bool) \<Rightarrow> ('k, 'v) ht \<Rightarrow> bool" where
  "ht_wf K key_cmp D h \<longleftrightarrow>
     ht_key_cmp h = key_cmp \<and> 0 < ht_capacity h \<and> length (ht_entries h) = ht_capacity h \<and>
     ht_num_entries h = length (concat (ht_entries h)) \<and> ht_num_entries h \<le> ht_capacity h \<and>
     in_slots (\<lambda>e. ht_hash K h (fst e)) (ht_entries h) \<and>
     distinct (map fst (concat (ht_entries h))) \<and>
     (\<forall>e \<in> set (concat (ht_entries h)). D (fst e))"

lemma ht_new_spec:
  assumes "ht_new al rnd ds kc = Inr h"
  shows "ht_wf K kc D h" "ht_map h = Map.empty" "ht_num_entries h = 0" "ht_key_cmp h = kc"
    "ht_data_size h = ds"
  using assms by (auto simp: ht_new_def ht_wf_def ht_map_def Let_def concat_replicate_trivial split: if_splits)

lemma ht_new_total: "alloc_total al \<Longrightarrow> \<exists>h. ht_new al rnd ds kc = Inr h"
  by (simp add: ht_new_def Let_def)

section \<open>Chains\<close>

lemma chain_find_map_of:
  assumes "\<And>e. e \<in> set es \<Longrightarrow> cmp (fst e) = 0 \<longleftrightarrow> fst e = k"
  shows "map_option snd (chain_find cmp es) = map_of es k"
  using assms by (induction cmp es rule: chain_find.induct) fastforce+

lemma chain_replace_None:
  "chain_replace cmp data es = None \<longleftrightarrow> (\<forall>e \<in> set es. cmp (fst e) \<noteq> 0)"
  by (induction cmp data es rule: chain_replace.induct) auto

lemma chain_replace_Some:
  assumes "chain_replace cmp data es = Some (old, es')"
  shows "\<exists>xs k ys. es = xs @ (k, old) # ys \<and> es' = xs @ (k, data) # ys \<and> cmp k = 0"
  using assms
proof (induction cmp data es arbitrary: es' rule: chain_replace.induct)
  case (1 cmp data)
  then show ?case by simp
next
  case (2 cmp data k v es)
  show ?case
  proof (cases "cmp k = 0")
    case True
    with "2.prems" show ?thesis by (intro exI [of _ "[]"]) auto
  next
    case False
    with "2.prems" obtain es2 where
      "chain_replace cmp data es = Some (old, es2)" "es' = (k, v) # es2" by auto
    with "2.IH" [OF False] show ?thesis by (metis append_Cons)
  qed
qed

lemma chain_delete_None:
  "chain_delete cmp es = None \<longleftrightarrow> (\<forall>e \<in> set es. cmp (fst e) \<noteq> 0)"
  by (induction cmp es rule: chain_delete.induct) auto

lemma chain_delete_Some:
  assumes "chain_delete cmp es = Some (e, es')"
  shows "\<exists>xs ys. es = xs @ e # ys \<and> es' = xs @ ys \<and> cmp (fst e) = 0"
  using assms
proof (induction cmp es arbitrary: es' rule: chain_delete.induct)
  case (1 cmp)
  then show ?case by simp
next
  case (2 cmp k v es)
  show ?case
  proof (cases "cmp k = 0")
    case True
    with "2.prems" show ?thesis by (intro exI [of _ "[]"] exI [of _ es]) auto
  next
    case False
    with "2.prems" obtain es2 where
      "chain_delete cmp es = Some (e, es2)" "es' = (k, v) # es2" by auto
    with "2.IH" [OF False] show ?thesis by (metis append_Cons)
  qed
qed

section \<open>The dictionary contract\<close>

text \<open>
  What the clients of the table rely on: its contents form a map on the keys of a domain, a
  lookup reads the map, an insertion that finds memory updates it, one that does not leaves it,
  a deletion removes the key or reports that it is not there.
\<close>

locale dict =
  fixes get :: "'s \<Rightarrow> 'k \<Rightarrow> 'v option"
    and insert :: "allocator \<Rightarrow> 's \<Rightarrow> 'k \<Rightarrow> 'v \<Rightarrow> (ht_result \<times> 'f \<times> 's) res"
    and delete :: "'s \<Rightarrow> 'k \<Rightarrow> ht_result \<times> 'f \<times> 's"
    and contents :: "'s \<Rightarrow> 'k \<rightharpoonup> 'v"
    and inv :: "'s \<Rightarrow> bool"
    and D :: "'k \<Rightarrow> bool"
  assumes get_law: "inv s \<Longrightarrow> D k \<Longrightarrow> get s k = contents s k"
    and insert_law: "inv s \<Longrightarrow> D k \<Longrightarrow> alloc_total al \<Longrightarrow>
      \<exists>f s'. insert al s k v = Inr (HT_OK, f, s') \<and> inv s' \<and> contents s' = (contents s)(k \<mapsto> v)"
    and insert_safe: "inv s \<Longrightarrow> D k \<Longrightarrow> insert al s k v = Inr (r, f, s') \<Longrightarrow>
      inv s' \<and> contents s' = (if r = HT_OK then (contents s)(k \<mapsto> v) else contents s)"
    and delete_law: "inv s \<Longrightarrow> D k \<Longrightarrow> k \<in> dom (contents s) \<Longrightarrow>
      \<exists>f s'. delete s k = (HT_OK, f, s') \<and> inv s' \<and> contents s' = (contents s)(k := None)"
    and delete_miss: "inv s \<Longrightarrow> D k \<Longrightarrow> k \<notin> dom (contents s) \<Longrightarrow>
      \<exists>f. delete s k = (HT_INV_KEY, f, s)"
begin

lemma get_insert:
  assumes "inv s" "D k" "D k'" "alloc_total al"
  shows "\<exists>f s'. insert al s k v = Inr (HT_OK, f, s') \<and> inv s' \<and>
    get s' k' = (if k' = k then Some v else get s k')"
proof -
  from insert_law [OF assms(1,2,4), of v] obtain f s' where
    s': "insert al s k v = Inr (HT_OK, f, s')" "inv s'" "contents s' = (contents s)(k \<mapsto> v)"
    by blast
  with assms show ?thesis by (auto simp: get_law)
qed

lemma delete_inv: "inv s \<Longrightarrow> D k \<Longrightarrow> inv (snd (snd (delete s k)))"
  using delete_law [of s k] delete_miss [of s k] by (cases "k \<in> dom (contents s)") auto

lemma get_delete:
  assumes "inv s" "D k" "D k'"
  shows "get (snd (snd (delete s k))) k' = (if k' = k then None else get s k')"
proof (cases "k \<in> dom (contents s)")
  case True
  from delete_law [OF assms(1,2) True] assms show ?thesis by (auto simp: get_law)
next
  case False
  with delete_miss [OF assms(1,2) False] assms show ?thesis by (auto simp: get_law domIff)
qed

lemma delete_code: "inv s \<Longrightarrow> D k \<Longrightarrow>
    fst (delete s k) = (if get s k = None then HT_INV_KEY else HT_OK)"
  using delete_law [of s k] delete_miss [of s k]
  by (cases "k \<in> dom (contents s)") (auto simp: get_law domIff)

end

section \<open>A table implements a map\<close>

lemma ht_insert_total:
  assumes "alloc_total al"
  shows "\<exists>f h'. ht_insert K al fk fd h k v = Inr (HT_OK, f, h')"
  using assms by (auto simp: ht_insert_def ht_resize_def ht_entry_new_def Let_def
      split: option.splits if_splits)

text \<open>
  The law on the keys: on the domain, the comparison of the table returns 0 exactly on equal keys.
\<close>

locale ht_keys =
  fixes K :: "'k key_ops" and key_cmp :: bool and D :: "'k \<Rightarrow> bool"
  assumes cmp_law: "D a \<Longrightarrow> D b \<Longrightarrow> key_compare K key_cmp a b = 0 \<longleftrightarrow> a = b"
begin

lemma hash_less: "ht_wf K key_cmp D h \<Longrightarrow> ht_hash K h k < length (ht_entries h)"
  by (auto simp: ht_wf_def ht_hash_def key_slot_def)

lemma ht_map_slot:
  assumes "ht_wf K key_cmp D h"
  shows "ht_map h k = map_of (ht_entries h ! ht_hash K h k) k"
proof -
  have sub: "(k, v) \<in> set (concat (ht_entries h)) \<longleftrightarrow> (k, v) \<in> set (ht_entries h ! ht_hash K h k)" for v
    using in_slots_concat [of "\<lambda>e. ht_hash K h (fst e)" "ht_entries h" "(k, v)"] assms hash_less [OF assms]
    by (simp add: ht_wf_def)
  have d: "distinct (map fst (concat (ht_entries h)))" using assms by (simp add: ht_wf_def)
  show ?thesis
  proof (cases "map_of (ht_entries h ! ht_hash K h k) k")
    case None
    then have "\<nexists>v. (k, v) \<in> set (concat (ht_entries h))" by (simp only: sub) (auto simp: map_of_eq_None_iff image_iff)
    with None show ?thesis by (metis ht_map_def map_of_SomeD not_None_eq)
  next
    case (Some v)
    then have "(k, v) \<in> set (concat (ht_entries h))" by (simp only: sub map_of_SomeD)
    with d Some show ?thesis by (simp only: ht_map_def map_of_eq_Some_iff)
  qed
qed

lemma slot_dom:
  assumes "ht_wf K key_cmp D h" "e \<in> set (ht_entries h ! ht_hash K h k)"
  shows "D (fst e)"
  using assms hash_less [OF assms(1), of k] nth_mem by (auto simp: ht_wf_def)

lemma chain_cmp:
  assumes "ht_wf K key_cmp D h" "D k" "e \<in> set (ht_entries h ! ht_hash K h k)"
  shows "key_compare K (ht_key_cmp h) k (fst e) = 0 \<longleftrightarrow> fst e = k"
  using assms slot_dom [OF assms(1,3)] cmp_law [of k "fst e"] by (auto simp: ht_wf_def)

lemma ht_get_map: "ht_wf K key_cmp D h \<Longrightarrow> D k \<Longrightarrow> ht_get K h k = ht_map h k"
  using chain_find_map_of [of "ht_entries h ! ht_hash K h k", OF chain_cmp] by (auto simp: ht_get_def ht_map_slot Let_def)

lemma ht_resize_spec:
  assumes "ht_wf K key_cmp D h" "ht_resize K al h = (r, h')"
  shows "ht_wf K key_cmp D h'" "ht_map h' = ht_map h" "r \<noteq> HT_OK \<Longrightarrow> h' = h"
    "r = HT_OK \<Longrightarrow> ht_num_entries h' < ht_capacity h'"
    "ht_num_entries h' = ht_num_entries h" "ht_data_size h' = ht_data_size h"
proof -
  let ?slot = "\<lambda>e :: 'k \<times> 'b. key_slot K (ht_seed h) (ht_capacity h * 2) (fst e)"
  let ?new = "rehash ?slot (ht_capacity h * 2) (ht_entries h)"
  have cap: "0 < ht_capacity h" using assms(1) by (simp add: ht_wf_def)
  then have new: "length ?new = ht_capacity h * 2" "in_slots ?slot ?new"
    "mset (concat ?new) = mset (concat (ht_entries h))"
    by (simp_all add: rehash_spec key_slot_def)
  have "ht_wf K key_cmp D h' \<and> ht_map h' = ht_map h"
  proof (cases "r = HT_OK")
    case True
    then have h': "h' = Ht_struct (ht_num_entries h) (ht_capacity h * 2) (ht_data_size h) (ht_key_cmp h)
        (ht_seed h) (al (ht_capacity h * 2 * 8)) ?new"
      using assms(2) by (auto simp: ht_resize_def Let_def split: if_splits)
    have "distinct (map fst (concat ?new))" "length (concat ?new) = length (concat (ht_entries h))"
      "set (concat ?new) = set (concat (ht_entries h))"
      using new(3) assms(1) distinct_keys_mset [OF new(3)] mset_eq_length [OF new(3)]
        mset_eq_setD [OF new(3)] by (simp_all only: ht_wf_def)
    with h' new(1,2) assms(1) cap map_of_mset [OF new(3)] show ?thesis
      by (auto simp: ht_wf_def ht_map_def ht_hash_def)
  next
    case False
    with assms show ?thesis by (auto simp: ht_resize_def Let_def split: if_splits)
  qed
  then show "ht_wf K key_cmp D h'" "ht_map h' = ht_map h" by auto
qed (use assms in \<open>auto simp: ht_resize_def ht_wf_def Let_def split: if_splits\<close>)

lemma put_mset:
  assumes "ht_wf K key_cmp D h" "slot = ht_hash K h k" "D k"
    and "\<forall>e \<in> set c. e \<in> set (ht_entries h ! slot) \<or> fst e = k"
    and "distinct (map fst es)" "mset (concat ((ht_entries h)[slot := c])) = mset es"
    and "n = length es" "n \<le> ht_capacity h"
  shows "ht_wf K key_cmp D (ht_put h n slot c)" "ht_map (ht_put h n slot c) = map_of es"
proof -
  let ?bs = "(ht_entries h)[slot := c]"
  have slot: "slot < length (ht_entries h)" using assms(1,2) hash_less by simp
  have slots: "in_slots (\<lambda>e. ht_hash K (ht_put h n slot c) (fst e)) ?bs"
    using assms(1,2) in_slotsD [of "\<lambda>e. ht_hash K h (fst e)" "ht_entries h" slot] slot assms(4)
    by (intro in_slots_update) (auto simp: ht_wf_def ht_put_def ht_hash_def)
  have d: "D (fst e)" if "e \<in> set (concat ?bs)" for e
  proof -
    from that obtain x where x: "x \<in> set ?bs" "e \<in> set x" by auto
    then have "x = c \<or> x \<in> set (ht_entries h)"
      using set_update_subset_insert [of "ht_entries h" slot c] by blast
    with x assms(4) nth_mem [OF slot] have "fst e = k \<or> e \<in> set (concat (ht_entries h))" by auto
    with assms(1,3) show ?thesis by (auto simp: ht_wf_def)
  qed
  show "ht_wf K key_cmp D (ht_put h n slot c)"
    using assms slots d distinct_keys_mset [OF assms(6)] mset_eq_length [OF assms(6)]
    by (simp add: ht_wf_def ht_put_def ht_hash_def del: set_concat)
  show "ht_map (ht_put h n slot c) = map_of es"
    using map_of_mset [OF assms(6)] distinct_keys_mset [OF assms(6)] assms(5)
    by (simp add: ht_map_def ht_put_def)
qed

lemma put_new:
  assumes "ht_wf K key_cmp D h" "D k" "ht_map h k = None" "ht_num_entries h < ht_capacity h"
    "slot = ht_hash K h k"
  shows "ht_wf K key_cmp D (ht_put h (ht_num_entries h + 1) slot ((k, v) # ht_entries h ! slot)) \<and>
    ht_map (ht_put h (ht_num_entries h + 1) slot ((k, v) # ht_entries h ! slot)) = (ht_map h)(k \<mapsto> v)"
proof -
  have "slot < length (ht_entries h)" using assms(1,5) hash_less by simp
  then have "mset (concat ((ht_entries h)[slot := (k, v) # ht_entries h ! slot])) =
      mset ((k, v) # concat (ht_entries h))" by (simp add: mset_concat_cons)
  moreover have "distinct (map fst ((k, v) # concat (ht_entries h)))"
    using assms(1,3) by (simp add: ht_wf_def ht_map_def map_of_eq_None_iff)
  moreover have "ht_num_entries h + 1 = length ((k, v) # concat (ht_entries h))"
    using assms(1) by (simp add: ht_wf_def)
  ultimately show ?thesis
    using put_mset [OF assms(1,5,2), of "(k, v) # ht_entries h ! slot" "(k, v) # concat (ht_entries h)"
        "ht_num_entries h + 1"] assms(4)
    by (simp add: ht_map_def)
qed

text \<open>The entries of a table around one of them, as a list with distinct keys.\<close>

lemma split_entry:
  assumes "ht_wf K key_cmp D h" "slot = ht_hash K h k" "ht_entries h ! slot = xs @ (k, old) # ys"
  obtains es where "mset (concat (ht_entries h)) = add_mset (k, old) (mset es)"
    "distinct (map fst ((k, old) # es))" "ht_map h = (map_of es)(k \<mapsto> old)"
    "mset (concat ((ht_entries h)[slot := xs @ ys])) = mset es"
    "ht_num_entries h = Suc (length es)"
proof -
  let ?es = "concat ((ht_entries h)[slot := xs @ ys])"
  have slot: "slot < length (ht_entries h)" using assms(1,2) hash_less by simp
  have m: "mset (concat (ht_entries h)) = mset ((k, old) # ?es)"
    using mset_concat_drop [OF slot assms(3)] by simp
  have "distinct (map fst ((k, old) # ?es))" "ht_map h = map_of ((k, old) # ?es)"
    using assms(1) distinct_keys_mset [OF m] map_of_mset [OF m] by (simp_all add: ht_wf_def ht_map_def)
  moreover have "ht_num_entries h = Suc (length ?es)"
    using assms(1) mset_eq_length [OF m] by (simp add: ht_wf_def)
  ultimately show thesis using that [of ?es] m by simp
qed

lemma put_replace:
  assumes "ht_wf K key_cmp D h" "D k" "slot = ht_hash K h k"
    "ht_entries h ! slot = xs @ (k, old) # ys"
  shows "ht_wf K key_cmp D (ht_put h (ht_num_entries h) slot (xs @ (k, v) # ys)) \<and>
    ht_map (ht_put h (ht_num_entries h) slot (xs @ (k, v) # ys)) = (ht_map h)(k \<mapsto> v)"
proof -
  from split_entry [OF assms(1,3,4)] obtain es where
    es: "mset (concat (ht_entries h)) = add_mset (k, old) (mset es)" "distinct (map fst ((k, old) # es))"
      "ht_map h = (map_of es)(k \<mapsto> old)" "ht_num_entries h = Suc (length es)" by metis
  have "slot < length (ht_entries h)" using assms(1,3) hash_less by simp
  from mset_concat_swap [OF this assms(4) refl, of "(k, v)"]
  have "mset (concat ((ht_entries h)[slot := xs @ (k, v) # ys])) = mset ((k, v) # es)"
    by (simp add: es(1) add_mset_commute)
  moreover have "ht_num_entries h \<le> ht_capacity h" using assms(1) by (simp add: ht_wf_def)
  ultimately show ?thesis
    using put_mset [OF assms(1,3,2), of "xs @ (k, v) # ys" "(k, v) # es" "ht_num_entries h"]
      es(2,3,4) assms(4)
    by auto
qed

lemma put_delete:
  assumes "ht_wf K key_cmp D h" "D k" "slot = ht_hash K h k"
    "ht_entries h ! slot = xs @ (k, old) # ys"
  shows "ht_wf K key_cmp D (ht_put h (ht_num_entries h - 1) slot (xs @ ys)) \<and>
    ht_map (ht_put h (ht_num_entries h - 1) slot (xs @ ys)) = (ht_map h)(k := None)"
proof -
  from split_entry [OF assms(1,3,4)] obtain es where
    es: "distinct (map fst ((k, old) # es))" "ht_map h = (map_of es)(k \<mapsto> old)"
      "mset (concat ((ht_entries h)[slot := xs @ ys])) = mset es"
      "ht_num_entries h = Suc (length es)" by metis
  have "map_of es k = None" using es(1) by (simp add: map_of_eq_None_iff)
  then have "(ht_map h)(k := None) = map_of es" by (simp add: es(2) fun_upd_idem)
  moreover have "ht_num_entries h \<le> ht_capacity h" using assms(1) by (simp add: ht_wf_def)
  ultimately show ?thesis
    using put_mset [OF assms(1,3,2), of "xs @ ys" es "ht_num_entries h - 1"] es(1,3,4) assms(4)
    by auto
qed

lemma ht_insert_cases:
  assumes "ht_wf K key_cmp D h" "D k" "ht_insert K al fk fd h k v = Inr (r, f, h')"
  shows "ht_wf K key_cmp D h' \<and> ht_map h' = (if r = HT_OK then (ht_map h)(k \<mapsto> v) else ht_map h)"
proof -
  obtain rr h1 where h1: "(if ht_num_entries h = ht_capacity h then ht_resize K al h else (HT_OK, h)) = (rr, h1)"
    by fastforce
  have wf1: "ht_wf K key_cmp D h1" "ht_map h1 = ht_map h"
    "rr = HT_OK \<Longrightarrow> ht_num_entries h1 < ht_capacity h1"
    using h1 assms(1) ht_resize_spec [OF assms(1), of al rr h1]
    by (auto simp: ht_wf_def split: if_splits)
  define slot where "slot = ht_hash K h1 k"
  define cur where "cur = ht_entries h1 ! slot"
  show ?thesis
  proof (cases "rr = HT_OK")
    case False
    with assms(3) h1 wf1 show ?thesis by (auto simp: ht_insert_def)
  next
    case True
    show ?thesis
    proof (cases "chain_replace (key_compare K (ht_key_cmp h1) k) v cur")
      case None
      then have "ht_map h1 k = None"
        using chain_cmp [OF wf1(1) assms(2)]
        by (auto simp: chain_replace_None ht_map_slot [OF wf1(1)] map_of_eq_None_iff cur_def slot_def)
      note new = put_new [OF wf1(1) assms(2) this wf1(3) [OF True] slot_def, of v]
      have "r = HT_OK \<and> h' = ht_put h1 (ht_num_entries h1 + 1) slot ((k, v) # cur)"
        using assms(3) None h1 True
        by (cases "cur = []") (auto simp: ht_insert_def slot_def cur_def ht_entry_new_def Let_def split: if_splits)
      with new wf1(2) show ?thesis by (simp add: cur_def)
    next
      case (Some p)
      then obtain old cur' where p: "chain_replace (key_compare K (ht_key_cmp h1) k) v cur = Some (old, cur')"
        by (cases p) auto
      from chain_replace_Some [OF p] obtain xs k' ys where
        c: "cur = xs @ (k', old) # ys" "cur' = xs @ (k', v) # ys" "key_compare K (ht_key_cmp h1) k k' = 0"
        by blast
      with chain_cmp [OF wf1(1) assms(2), of "(k', old)"] have "k' = k" by (simp add: cur_def slot_def)
      with c have "ht_entries h1 ! slot = xs @ (k, old) # ys" by (simp add: cur_def)
      note repl = put_replace [OF wf1(1) assms(2) slot_def this, of v]
      have "cur \<noteq> []" using c by simp
      then have "r = HT_OK \<and> h' = ht_put h1 (ht_num_entries h1) slot cur'"
        using assms(3) p h1 True by (auto simp: ht_insert_def slot_def cur_def Let_def)
      with repl c \<open>k' = k\<close> wf1(2) show ?thesis by simp
    qed
  qed
qed

lemma ht_delete_cases:
  assumes "ht_wf K key_cmp D h" "D k"
  shows "case ht_map h k of
      None \<Rightarrow> ht_delete K fk fd h k = (HT_INV_KEY, [], h)
    | Some old \<Rightarrow> \<exists>h'. ht_delete K fk fd h k = (HT_OK, ht_entry_free fk fd (k, old), h') \<and>
        ht_wf K key_cmp D h' \<and> ht_map h' = (ht_map h)(k := None)"
proof -
  define slot where "slot = ht_hash K h k"
  define cur where "cur = ht_entries h ! slot"
  show ?thesis
  proof (cases "chain_delete (key_compare K (ht_key_cmp h) k) cur")
    case None
    then have "ht_map h k = None"
      using chain_cmp [OF assms]
      by (auto simp: chain_delete_None ht_map_slot [OF assms(1)] map_of_eq_None_iff cur_def slot_def)
    with None show ?thesis by (simp add: ht_delete_def slot_def cur_def Let_def)
  next
    case (Some p)
    then obtain e cur' where p: "chain_delete (key_compare K (ht_key_cmp h) k) cur = Some (e, cur')"
      by (cases p) auto
    from chain_delete_Some [OF p] obtain xs ys where
      c: "cur = xs @ e # ys" "cur' = xs @ ys" "key_compare K (ht_key_cmp h) k (fst e) = 0" by blast
    with chain_cmp [OF assms, of e] have e: "fst e = k" by (simp add: cur_def slot_def)
    then have ek: "e = (k, snd e)" by (metis prod.collapse)
    from c(1) have chain: "ht_entries h ! slot = xs @ (k, snd e) # ys"
      unfolding cur_def by (subst (asm) ek)
    from split_entry [OF assms(1) slot_def chain] have "ht_map h k = Some (snd e)" by (metis fun_upd_same)
    moreover have "ht_delete K fk fd h k =
        (HT_OK, ht_entry_free fk fd e, ht_put h (ht_num_entries h - 1) slot (xs @ ys))"
      using p c by (simp add: ht_delete_def slot_def [symmetric] cur_def [symmetric] Let_def)
    ultimately show ?thesis
      using put_delete [OF assms slot_def chain] by (simp add: ek [symmetric])
  qed
qed

text \<open>\<^verbatim>\<open>ht_try_insert\<close> does not touch a key that is there.\<close>

lemma ht_try_insert_cases:
  assumes "ht_wf K key_cmp D h" "D k" "alloc_total al"
  shows "\<exists>h'. ht_try_insert K al h k v = Inr (if ht_map h k = None then HT_OK else HT_INV_KEY, h') \<and>
    ht_wf K key_cmp D h' \<and> ht_map h' = (if ht_map h k = None then (ht_map h)(k \<mapsto> v) else ht_map h)"
proof -
  define h1 where "h1 = (if ht_num_entries h = ht_capacity h then snd (ht_resize K al h) else h)"
  then have h1: "(if ht_num_entries h = ht_capacity h then ht_resize K al h else (HT_OK, h)) = (HT_OK, h1)"
    using assms(3) by (simp add: ht_resize_def Let_def)
  have wf1: "ht_wf K key_cmp D h1" "ht_map h1 = ht_map h" "ht_num_entries h1 < ht_capacity h1"
    using h1 assms(1) ht_resize_spec [OF assms(1), of al HT_OK h1]
    by (auto simp: ht_wf_def split: if_splits)
  define slot where "slot = ht_hash K h1 k"
  define cur where "cur = ht_entries h1 ! slot"
  have find: "map_option snd (chain_find (key_compare K (ht_key_cmp h1) k) cur) = ht_map h k"
    using chain_find_map_of [of cur, OF chain_cmp [OF wf1(1) assms(2)]] ht_map_slot [OF wf1(1), of k] wf1(2)
    by (simp add: cur_def slot_def)
  show ?thesis
  proof (cases "ht_map h k")
    case None
    with find have "chain_find (key_compare K (ht_key_cmp h1) k) cur = None" by simp
    then have "ht_try_insert K al h k v = Inr (HT_OK, ht_put h1 (ht_num_entries h1 + 1) slot ((k, v) # cur))"
      using h1 assms(3) by (simp add: ht_try_insert_def slot_def cur_def ht_entry_new_def Let_def)
    with put_new [OF wf1(1) assms(2) _ wf1(3) slot_def, of v] None wf1(2) show ?thesis
      by (simp add: cur_def)
  next
    case (Some w)
    with find obtain e where e: "chain_find (key_compare K (ht_key_cmp h1) k) cur = Some e" by auto
    then have "cur \<noteq> []" by auto
    with e have "ht_try_insert K al h k v = Inr (HT_INV_KEY, h1)"
      using h1 by (simp add: ht_try_insert_def slot_def cur_def Let_def)
    with Some wf1 show ?thesis by simp
  qed
qed

end

sublocale ht_keys \<subseteq> dict "ht_get K" "\<lambda>al. ht_insert K al fk fd" "ht_delete K fk fd" ht_map
  "ht_wf K key_cmp D" D for fk fd
proof unfold_locales
  fix h :: "('k, 'b) ht" and k v al r f h'
  assume wf: "ht_wf K key_cmp D h" and k: "D k"
  show "ht_get K h k = ht_map h k" using wf k by (rule ht_get_map)
  show "\<exists>f h'. ht_insert K al fk fd h k v = Inr (HT_OK, f, h') \<and> ht_wf K key_cmp D h' \<and>
      ht_map h' = (ht_map h)(k \<mapsto> v)" if "alloc_total al"
  proof -
    from ht_insert_total [OF that, of K fk fd h k v] obtain f h' where
      i: "ht_insert K al fk fd h k v = Inr (HT_OK, f, h')" by blast
    with ht_insert_cases [OF wf k i] show ?thesis by simp
  qed
  show "ht_wf K key_cmp D h' \<and> ht_map h' = (if r = HT_OK then (ht_map h)(k \<mapsto> v) else ht_map h)"
    if "ht_insert K al fk fd h k v = Inr (r, f, h')"
    using wf k that by (rule ht_insert_cases)
  show "\<exists>f h'. ht_delete K fk fd h k = (HT_OK, f, h') \<and> ht_wf K key_cmp D h' \<and>
      ht_map h' = (ht_map h)(k := None)" if "k \<in> dom (ht_map h)"
    using ht_delete_cases [OF wf k, of fk fd] that by auto
  show "\<exists>f. ht_delete K fk fd h k = (HT_INV_KEY, f, h)" if "k \<notin> dom (ht_map h)"
    using ht_delete_cases [OF wf k, of fk fd] that by (auto simp: domIff)
qed

section \<open>Ownership\<close>

text \<open>
  The keys and values a table owns. Memory is neither lost nor freed twice when every insertion
  and deletion hands out exactly what it takes out of the table.
\<close>

definition entry_owned :: "'k \<times> 'v \<Rightarrow> ('k, 'v) freed multiset" where
  "entry_owned e = {#Freed_key (fst e), Freed_data (snd e)#}"

definition ht_owned :: "('k, 'v) ht \<Rightarrow> ('k, 'v) freed multiset" where
  "ht_owned h = \<Sum>\<^sub># (image_mset entry_owned (mset (concat (ht_entries h))))"

lemma sum_owned_mset:
  "mset xs = mset ys \<Longrightarrow> \<Sum>\<^sub># (image_mset entry_owned (mset xs)) = \<Sum>\<^sub># (image_mset entry_owned (mset ys))"
  by simp

lemma owned_put:
  assumes "slot < length (ht_entries h)"
  shows "ht_owned (ht_put h n slot c) + \<Sum>\<^sub># (image_mset entry_owned (mset (ht_entries h ! slot))) =
    ht_owned h + \<Sum>\<^sub># (image_mset entry_owned (mset c))"
  using arg_cong [OF mset_concat_update [OF assms, of c], of "\<lambda>m. \<Sum>\<^sub># (image_mset entry_owned m)"]
  by (simp add: ht_owned_def ht_put_def)

lemma resize_frame:
  assumes "0 < ht_capacity h" "length (ht_entries h) = ht_capacity h"
    "(if ht_num_entries h = ht_capacity h then ht_resize K al h else (HT_OK, h)) = (r, h')"
  shows "ht_owned h' = ht_owned h" "ht_hash K h' k < length (ht_entries h')"
  using assms rehash_spec [of "\<lambda>e. key_slot K (ht_seed h) (ht_capacity h * 2) (fst e)" "ht_capacity h * 2"
      "ht_entries h"]
  by (auto simp: ht_resize_def ht_owned_def ht_hash_def key_slot_def Let_def simp del: mset_concat
      split: if_splits)

lemma mset_entry_free: "mset (ht_entry_free True True e) = entry_owned e"
  by (simp add: ht_entry_free_def entry_owned_def)

lemma ht_insert_owned:
  assumes "0 < ht_capacity h" "length (ht_entries h) = ht_capacity h"
    and "ht_insert K al True True h k v = Inr (HT_OK, f, h')"
  shows "ht_owned h' + mset f = ht_owned h + entry_owned (k, v)"
proof -
  obtain r h1 where h1: "(if ht_num_entries h = ht_capacity h then ht_resize K al h else (HT_OK, h)) = (r, h1)"
    by fastforce
  note fr = resize_frame [OF assms(1,2) h1]
  define slot where "slot = ht_hash K h1 k"
  define cur where "cur = ht_entries h1 ! slot"
  have slot: "slot < length (ht_entries h1)" using fr(2) by (simp add: slot_def)
  have r: "r = HT_OK" using assms(3) h1 by (auto simp: ht_insert_def split: if_splits)
  show ?thesis
  proof (cases "chain_replace (key_compare K (ht_key_cmp h1) k) v cur")
    case None
    with assms(3) h1 r have "f = []" "h' = ht_put h1 (ht_num_entries h1 + 1) slot ((k, v) # cur)"
      by (cases "cur = []"; auto simp: ht_insert_def slot_def cur_def ht_entry_new_def Let_def split: if_splits)+
    with owned_put [OF slot, of "ht_num_entries h1 + 1" "(k, v) # cur"] fr(1) show ?thesis
      by (simp add: cur_def)
  next
    case (Some p)
    then obtain old cur' where p: "chain_replace (key_compare K (ht_key_cmp h1) k) v cur = Some (old, cur')"
      by (cases p) auto
    from chain_replace_Some [OF p] obtain xs k' ys where
      c: "cur = xs @ (k', old) # ys" "cur' = xs @ (k', v) # ys" by blast
    have "cur \<noteq> []" using c by simp
    with assms(3) h1 r p have "f = [Freed_data old, Freed_key k]" "h' = ht_put h1 (ht_num_entries h1) slot cur'"
      by (auto simp: ht_insert_def slot_def cur_def Let_def)
    with owned_put [OF slot, of "ht_num_entries h1" cur'] fr(1) c show ?thesis
      by (simp add: cur_def entry_owned_def)
  qed
qed

lemma ht_delete_owned:
  assumes "0 < ht_capacity h" "length (ht_entries h) = ht_capacity h"
    and "ht_delete K True True h k = (r, f, h')"
  shows "ht_owned h' + mset f = ht_owned h"
proof -
  have slot: "ht_hash K h k < length (ht_entries h)" using assms(1,2) by (simp add: ht_hash_def key_slot_def)
  show ?thesis
  proof (cases "chain_delete (key_compare K (ht_key_cmp h) k) (ht_entries h ! ht_hash K h k)")
    case None
    with assms(3) show ?thesis by (auto simp: ht_delete_def Let_def split: if_splits)
  next
    case (Some p)
    then obtain e c where p: "chain_delete (key_compare K (ht_key_cmp h) k) (ht_entries h ! ht_hash K h k) = Some (e, c)"
      by (cases p) auto
    from chain_delete_Some [OF p] obtain xs ys where
      "ht_entries h ! ht_hash K h k = xs @ e # ys" "c = xs @ ys" by blast
    moreover from this p assms(3) have "f = ht_entry_free True True e"
      "h' = ht_put h (ht_num_entries h - 1) (ht_hash K h k) c" by (auto simp: ht_delete_def Let_def)
    ultimately show ?thesis using owned_put [OF slot, of "ht_num_entries h - 1" c]
      by (simp add: mset_entry_free)
  qed
qed

lemma mset_free_chains:
  "mset (concat (map (\<lambda>c. concat (map (ht_entry_free True True) c)) cs)) =
   \<Sum>\<^sub># (image_mset entry_owned (mset (concat cs)))"
proof -
  have "mset (concat (map (ht_entry_free True True) c)) = \<Sum>\<^sub># (image_mset entry_owned (mset c))"
    for c :: "('a \<times> 'b) list"
    by (induction c) (simp_all add: mset_entry_free)
  then show ?thesis by (induction cs) simp_all
qed

lemma ht_free_owned:
  assumes "length (ht_entries h) = ht_capacity h"
  shows "mset (ht_free True True h) = ht_owned h"
  using mset_free_chains [of "ht_entries h"] assms by (simp add: ht_free_def ht_owned_def)

section \<open>The iterator\<close>

text \<open>
  \<^verbatim>\<open>cur\<close> and \<^verbatim>\<open>next\<close> point to entries: the slot and the place in its chain.
\<close>

record ('k, 'v) ht_iter =
  hit_cur :: "(nat \<times> nat) option"
  hit_next :: "(nat \<times> nat) option"
  hit_ht :: "('k, 'v) ht"
  hit_next_slot :: nat
  hit_end_slot :: nat

text \<open>The scan for the next slot with a chain, and what it does to the iterator.\<close>

definition ht_iter_scan :: "('k, 'v) ht_iter \<Rightarrow> nat \<Rightarrow> ('k, 'v) ht_iter" where
  "ht_iter_scan it from =
     (case find (\<lambda>i. ht_entries (hit_ht it) ! i \<noteq> []) [from..<hit_end_slot it] of
        Some i \<Rightarrow> it\<lparr>hit_next := Some (i, 0), hit_next_slot := i\<rparr>
      | None \<Rightarrow> it\<lparr>hit_next := None, hit_next_slot := hit_end_slot it\<rparr>)"

definition ht_iter_next :: "('k, 'v) ht_iter \<Rightarrow> ('k, 'v) ht_iter res" where
  "ht_iter_next it =
     (let it = it\<lparr>hit_cur := hit_next it\<rparr> in
      if hit_next_slot it = hit_end_slot it then Inr (it\<lparr>hit_next := None\<rparr>)
      else if hit_next_slot it = 0 \<and> hit_next it = None then Inr (ht_iter_scan it 0)
      else case hit_next it of
        None \<Rightarrow> Inl Null_deref
      | Some (slot, j) \<Rightarrow>
          if Suc j < length (ht_entries (hit_ht it) ! slot) then Inr (it\<lparr>hit_next := Some (slot, Suc j)\<rparr>)
          else Inr (ht_iter_scan it (hit_next_slot it + 1)))"

definition ht_iter_new :: "('k, 'v) ht \<Rightarrow> ('k, 'v) ht_iter res" where
  "ht_iter_new h =
     res_bind (ht_iter_next \<lparr>hit_cur = None, hit_next = None, hit_ht = h, hit_next_slot = 0,
                 hit_end_slot = ht_capacity h\<rparr>) ht_iter_next"

text \<open>
  The loop \<^verbatim>\<open>while (iter.cur) { body; ht_iter_next(&iter); }\<close> of the callers, with at most \<^term>\<open>n\<close>
  turns; the body gets \<^verbatim>\<open>ht_entry_get_key\<close> and \<^verbatim>\<open>ht_entry_get_value\<close> of the entry.
\<close>

fun ht_iter_loop :: "nat \<Rightarrow> ('k \<times> 'v \<Rightarrow> 's \<Rightarrow> (bool \<times> 's) res) \<Rightarrow> ('k, 'v) ht_iter \<Rightarrow> 's \<Rightarrow>
    (bool \<times> 's) res" where
  "ht_iter_loop 0 body it s = Inl Out_of_fuel"
| "ht_iter_loop (Suc n) body it s = (case hit_cur it of
     None \<Rightarrow> Inr (True, s)
   | Some (slot, j) \<Rightarrow> res_bind (body (ht_entries (hit_ht it) ! slot ! j) s) (\<lambda>(go, s').
       if go then res_bind (ht_iter_next it) (\<lambda>it'. ht_iter_loop n body it' s')
       else Inr (False, s')))"

text \<open>The entries from a place in the array of chains on.\<close>

fun chain_rest :: "'e list list \<Rightarrow> (nat \<times> nat) option \<Rightarrow> 'e list" where
  "chain_rest es None = []"
| "chain_rest es (Some (slot, j)) = drop j (es ! slot) @ concat (drop (Suc slot) es)"

fun place_ok :: "'e list list \<Rightarrow> (nat \<times> nat) option \<Rightarrow> bool" where
  "place_ok es None = True"
| "place_ok es (Some (slot, j)) \<longleftrightarrow> slot < length es \<and> j < length (es ! slot)"

text \<open>An iterator that has been started: its next place is in order and its slot is the one noted.\<close>

definition iter_ok :: "('k, 'v) ht_iter \<Rightarrow> bool" where
  "iter_ok it \<longleftrightarrow>
     hit_end_slot it = length (ht_entries (hit_ht it)) \<and> 0 < hit_end_slot it \<and>
     place_ok (ht_entries (hit_ht it)) (hit_next it) \<and>
     hit_next_slot it = (case hit_next it of None \<Rightarrow> hit_end_slot it | Some (slot, j) \<Rightarrow> slot)"

lemma concat_drop_find:
  "concat (drop i es) =
     (case find (\<lambda>i. es ! i \<noteq> []) [i..<length es] of
        None \<Rightarrow> [] | Some k \<Rightarrow> es ! k @ concat (drop (Suc k) es))"
proof (induction "length es - i" arbitrary: i)
  case 0
  then show ?case by simp
next
  case (Suc n)
  then have i: "i < length es" by simp
  with Suc(2) have "concat (drop (Suc i) es) = (case find (\<lambda>i. es ! i \<noteq> []) [Suc i..<length es] of
        None \<Rightarrow> [] | Some k \<Rightarrow> es ! k @ concat (drop (Suc k) es))" by (intro Suc.hyps(1)) simp
  with i show ?case by (simp add: upt_conv_Cons Cons_nth_drop_Suc [symmetric])
qed

lemma find_upt_SomeD: "find P [i..<n] = Some k \<Longrightarrow> i \<le> k \<and> k < n \<and> P k"
  by (auto simp: find_Some_iff)

lemma ht_iter_scan_ok:
  assumes "hit_end_slot it = length (ht_entries (hit_ht it))" "0 < hit_end_slot it"
  shows "iter_ok (ht_iter_scan it i)" "hit_ht (ht_iter_scan it i) = hit_ht it"
    "hit_cur (ht_iter_scan it i) = hit_cur it"
    "chain_rest (ht_entries (hit_ht it)) (hit_next (ht_iter_scan it i)) = concat (drop i (ht_entries (hit_ht it)))"
  using assms by (auto simp: ht_iter_scan_def iter_ok_def concat_drop_find [of i] dest: find_upt_SomeD
      split: option.splits)

text \<open>One step of a started iterator: no null pointer is read, the next place becomes the current one.\<close>

lemma ht_iter_next_ok:
  assumes "iter_ok it"
  obtains it' where "ht_iter_next it = Inr it'" "iter_ok it'" "hit_ht it' = hit_ht it"
    "hit_cur it' = hit_next it"
    "chain_rest (ht_entries (hit_ht it)) (hit_next it') = tl (chain_rest (ht_entries (hit_ht it)) (hit_next it))"
proof (cases "hit_next it")
  case None
  with assms show thesis
    by (intro that [of "it\<lparr>hit_cur := None, hit_next := None\<rparr>"])
      (auto simp: ht_iter_next_def iter_ok_def)
next
  case (Some p)
  obtain slot j where p: "p = (slot, j)" by (cases p)
  let ?es = "ht_entries (hit_ht it)" and ?it = "it\<lparr>hit_cur := hit_next it\<rparr>"
  have ok: "slot < length ?es" "j < length (?es ! slot)" "hit_next_slot it = slot"
    "hit_end_slot it = length ?es" using assms Some p by (auto simp: iter_ok_def)
  then have ne: "?es \<noteq> []" by auto
  have rest: "tl (chain_rest ?es (hit_next it)) = drop (Suc j) (?es ! slot) @ concat (drop (Suc slot) ?es)"
    using Some p ok(2) by (simp add: drop_Suc tl_drop)
  show thesis
  proof (cases "Suc j < length (?es ! slot)")
    case True
    with Some p ok rest assms show thesis
      by (intro that [of "?it\<lparr>hit_next := Some (slot, Suc j)\<rparr>"])
        (auto simp: ht_iter_next_def iter_ok_def)
  next
    case False
    with Some p ok ne rest ht_iter_scan_ok [of ?it "Suc slot"] show thesis
      by (intro that [of "ht_iter_scan ?it (Suc slot)"]) (auto simp: ht_iter_next_def)
  qed
qed

lemma ht_iter_loop_run:
  assumes "iter_ok it" "place_ok (ht_entries (hit_ht it)) (hit_cur it)"
    "chain_rest (ht_entries (hit_ht it)) (hit_next it) = tl (chain_rest (ht_entries (hit_ht it)) (hit_cur it))"
    "length (chain_rest (ht_entries (hit_ht it)) (hit_cur it)) < n"
  shows "ht_iter_loop n body it s = run_body body (chain_rest (ht_entries (hit_ht it)) (hit_cur it)) s"
  using assms
proof (induction n arbitrary: it s)
  case 0
  then show ?case by simp
next
  case (Suc n)
  show ?case
  proof (cases "hit_cur it")
    case None
    then show ?thesis by simp
  next
    case (Some p)
    obtain slot j where p: "p = (slot, j)" by (cases p)
    let ?es = "ht_entries (hit_ht it)"
    have e: "chain_rest ?es (hit_cur it) = ?es ! slot ! j # chain_rest ?es (hit_next it)"
      using Some p Suc.prems(2,3) by (simp add: Cons_nth_drop_Suc [symmetric])
    from ht_iter_next_ok [OF Suc.prems(1)] obtain it' where
      it': "ht_iter_next it = Inr it'" "iter_ok it'" "hit_ht it' = hit_ht it" "hit_cur it' = hit_next it"
        "chain_rest ?es (hit_next it') = tl (chain_rest ?es (hit_next it))" by metis
    have "place_ok ?es (hit_next it)" using Suc.prems(1) by (simp add: iter_ok_def)
    then have "ht_iter_loop n body it' t = run_body body (chain_rest ?es (hit_next it)) t" for t
      using Suc.IH [of it' t] it' Suc.prems(4) e by simp
    then show ?thesis using it'(1) e Some p by (simp cong: if_cong)
  qed
qed

lemma ht_iter_new_ok:
  assumes "length (ht_entries h) = ht_capacity h" "0 < ht_capacity h"
  obtains it where "ht_iter_new h = Inr it" "iter_ok it" "hit_ht it = h"
    "place_ok (ht_entries h) (hit_cur it)" "chain_rest (ht_entries h) (hit_cur it) = concat (ht_entries h)"
    "chain_rest (ht_entries h) (hit_next it) = tl (concat (ht_entries h))"
proof -
  let ?it = "\<lparr>hit_cur = None, hit_next = None, hit_ht = h, hit_next_slot = 0, hit_end_slot = ht_capacity h\<rparr>"
  have "ht_iter_next ?it = Inr (ht_iter_scan ?it 0)" using assms(2) by (simp add: ht_iter_next_def)
  moreover note scan = ht_iter_scan_ok [of ?it 0]
  from ht_iter_next_ok [OF scan(1)] assms obtain it' where
    "ht_iter_next (ht_iter_scan ?it 0) = Inr it'" "iter_ok it'" "hit_ht it' = h"
    "hit_cur it' = hit_next (ht_iter_scan ?it 0)"
    "chain_rest (ht_entries h) (hit_next it') = tl (chain_rest (ht_entries h) (hit_next (ht_iter_scan ?it 0)))"
    using scan(2) by auto
  ultimately show thesis using that [of it'] scan assms by (simp add: ht_iter_new_def iter_ok_def)
qed

text \<open>The loop over a whole table: the body runs on every entry, slot by slot.\<close>

lemma ht_iter_visits:
  assumes "length (ht_entries h) = ht_capacity h" "0 < ht_capacity h" "length (concat (ht_entries h)) < n"
  shows "res_bind (ht_iter_new h) (\<lambda>it. ht_iter_loop n body it s) = run_body body (concat (ht_entries h)) s"
proof -
  from ht_iter_new_ok [OF assms(1,2)] obtain it where
    "ht_iter_new h = Inr it" "iter_ok it" "hit_ht it = h" "place_ok (ht_entries h) (hit_cur it)"
    "chain_rest (ht_entries h) (hit_cur it) = concat (ht_entries h)"
    "chain_rest (ht_entries h) (hit_next it) = tl (concat (ht_entries h))" by metis
  with ht_iter_loop_run [of it n body s] assms(3) show ?thesis by simp
qed

section \<open>Histories\<close>

text \<open>A sequence of insertions and deletions on a table, with all that is freed on the way.\<close>

datatype ('k, 'v) ht_op = Op_ins 'k 'v | Op_del 'k

fun ht_run :: "'k key_ops \<Rightarrow> allocator \<Rightarrow> ('k, 'v) ht \<Rightarrow> ('k, 'v) ht_op list \<Rightarrow>
    (('k, 'v) freed list \<times> ('k, 'v) ht) res" where
  "ht_run K al h [] = Inr ([], h)"
| "ht_run K al h (Op_ins k v # ops) = res_bind (ht_insert K al True True h k v) (\<lambda>(r, f, h').
     res_bind (ht_run K al h' ops) (\<lambda>(g, h''). Inr (f @ g, h'')))"
| "ht_run K al h (Op_del k # ops) = (case ht_delete K True True h k of (r, f, h') \<Rightarrow>
     res_bind (ht_run K al h' ops) (\<lambda>(g, h''). Inr (f @ g, h'')))"

fun ops_owned :: "('k, 'v) ht_op list \<Rightarrow> ('k, 'v) freed multiset" where
  "ops_owned [] = {#}"
| "ops_owned (Op_ins k v # ops) = entry_owned (k, v) + ops_owned ops"
| "ops_owned (Op_del k # ops) = ops_owned ops"

definition ht_shape :: "('k, 'v) ht \<Rightarrow> bool" where
  "ht_shape h \<longleftrightarrow> 0 < ht_capacity h \<and> length (ht_entries h) = ht_capacity h"

lemma ht_put_shape [simp]: "ht_shape (ht_put h n slot c) \<longleftrightarrow> ht_shape h"
  by (simp add: ht_shape_def ht_put_def)

lemma ht_resize_shape: "ht_shape h \<Longrightarrow> ht_resize K al h = (r, h') \<Longrightarrow> ht_shape h'"
  by (auto simp: ht_shape_def ht_resize_def rehash_spec key_slot_def Let_def split: if_splits)

lemma ht_insert_shape:
  assumes "ht_shape h" "ht_insert K al fk fd h k v = Inr (r, f, h')"
  shows "ht_shape h'"
  using assms ht_resize_shape [OF assms(1), of K al]
  by (auto simp: ht_insert_def ht_entry_new_def Let_def split: if_splits option.splits prod.splits)

lemma ht_delete_shape: "ht_shape h \<Longrightarrow> ht_delete K fk fd h k = (r, f, h') \<Longrightarrow> ht_shape h'"
  by (auto simp: ht_delete_def Let_def split: if_splits option.splits)

lemma ht_run_owned:
  assumes "ht_shape h" "alloc_total al"
  shows "\<exists>f h'. ht_run K al h ops = Inr (f, h') \<and> ht_shape h' \<and>
    ht_owned h' + mset f = ht_owned h + ops_owned ops"
  using assms
proof (induction K al h ops rule: ht_run.induct)
  case (1 K al h)
  then show ?case by simp
next
  case (2 K al h k v ops)
  from ht_insert_total [OF "2.prems"(2), of K True True h k v] obtain f h' where
    i: "ht_insert K al True True h k v = Inr (HT_OK, f, h')" by blast
  have sh: "ht_shape h'" and ow: "ht_owned h' + mset f = ht_owned h + entry_owned (k, v)"
    using ht_insert_shape [OF "2.prems"(1) i] ht_insert_owned [OF _ _ i] "2.prems"(1)
    by (simp_all add: ht_shape_def)
  from "2.IH" [OF i refl refl sh "2.prems"(2)] obtain g h'' where
    r: "ht_run K al h' ops = Inr (g, h'')" "ht_shape h''"
      "ht_owned h'' + mset g = ht_owned h' + ops_owned ops" by blast
  have "ht_owned h'' + mset (f @ g) = ht_owned h' + mset f + ops_owned ops"
    using arg_cong [OF r(3), of "\<lambda>m. m + mset f"] by (simp add: ac_simps)
  also have "\<dots> = ht_owned h + ops_owned (Op_ins k v # ops)" by (simp add: ow)
  finally show ?case using i r(1,2) by auto
next
  case (3 K al h k ops)
  obtain r f h' where d: "ht_delete K True True h k = (r, f, h')" by (cases "ht_delete K True True h k")
  have sh: "ht_shape h'" and ow: "ht_owned h' + mset f = ht_owned h"
    using ht_delete_shape [OF "3.prems"(1) d] ht_delete_owned [OF _ _ d] "3.prems"(1)
    by (simp_all add: ht_shape_def)
  from "3.IH" [OF d [symmetric] refl sh "3.prems"(2)] obtain g h'' where
    r: "ht_run K al h' ops = Inr (g, h'')" "ht_shape h''"
      "ht_owned h'' + mset g = ht_owned h' + ops_owned ops" by blast
  have "ht_owned h'' + mset (f @ g) = ht_owned h' + mset f + ops_owned ops"
    using arg_cong [OF r(3), of "\<lambda>m. m + mset f"] by (simp add: ac_simps)
  also have "\<dots> = ht_owned h + ops_owned (Op_del k # ops)" by (simp add: ow)
  finally show ?case using d r(1,2) by auto
qed

section \<open>Tables keyed by byte strings\<close>

text \<open>
  The table of the command line arguments has byte strings as keys and no comparison function:
  its keys are compared with \<^verbatim>\<open>memcmp\<close> (\<^term>\<open>key_fn\<close> is not called).
\<close>

definition str_keys :: "string key_ops" where
  "str_keys = \<lparr>key_bytes = (\<lambda>k. k), key_fn = (\<lambda>a b. memcmp a b (length a))\<rparr>"

interpretation sk: ht_keys str_keys False "\<lambda>_. True"
  by unfold_locales (auto simp: key_compare_def str_keys_def memcmp_eq_0)

section \<open>Properties\<close>

text \<open>
  C23. A table keyed by byte strings implements a map: an insertion succeeds, keeps the invariant
  (no duplicate keys, every entry in its slot, the count right) and changes what a lookup returns
  at the inserted key only, also when it makes the table grow and rehash.
\<close>

theorem ht_insert_get:
  assumes "ht_wf str_keys False (\<lambda>_. True) h" "alloc_total al"
  shows "\<exists>f h'. ht_insert str_keys al fk fd h k v = Inr (HT_OK, f, h') \<and>
    ht_wf str_keys False (\<lambda>_. True) h' \<and>
    ht_get str_keys h' k' = (if k' = k then Some v else ht_get str_keys h k')"
  using assms by (intro sk.get_insert) auto

theorem ht_insert_get_witness:
  "\<exists>f h'. ht_insert str_keys (\<lambda>_. 4096) False False
      (Ht_struct 0 32 64 False (replicate 16 NUL) 4096 (replicate 32 [])) ''port'' (7 :: nat) =
      Inr (HT_OK, f, h') \<and> ht_wf str_keys False (\<lambda>_. True) h' \<and>
    ht_get str_keys h' ''port'' = (if ''port'' = ''port'' then Some 7 else
      ht_get str_keys (Ht_struct 0 32 64 False (replicate 16 NUL) 4096 (replicate 32 [])) ''port'')"
  by (rule ht_insert_get) (simp_all add: ht_wf_def concat_replicate_trivial)

text \<open>
  C24. No memory of a table is lost or freed twice: after any sequence of insertions and
  deletions with the freeing callbacks, what the operations freed together with what
  \<^verbatim>\<open>ht_free\<close> frees at the end is, with multiplicities, exactly what was inserted.
\<close>

theorem ht_no_leak:
  assumes "alloc_total al" "ht_new al random ds kc = Inr h"
  shows "\<exists>f h'. ht_run K al h ops = Inr (f, h') \<and> mset f + mset (ht_free True True h') = ops_owned ops"
proof -
  have "ht_shape h" "ht_owned h = {#}"
    using assms(2) by (auto simp: ht_new_def ht_shape_def ht_owned_def Let_def concat_replicate_trivial split: if_splits)
  with ht_run_owned [of h al K ops] assms(1) show ?thesis
    by (auto simp: ht_free_owned ht_shape_def add.commute)
qed

theorem ht_no_leak_witness:
  "\<exists>f h'. ht_run str_keys (\<lambda>_. 4096) (Ht_struct 0 32 64 False (replicate 16 NUL) 4096 (replicate 32 []))
      [Op_ins ''a'' (1 :: nat), Op_ins ''a'' 2, Op_del ''b''] = Inr (f, h') \<and>
    mset f + mset (ht_free True True h') = ops_owned [Op_ins ''a'' 1, Op_ins ''a'' 2, Op_del ''b'']"
  by (rule ht_no_leak [where random = "replicate 16 NUL" and ds = 64 and kc = False])
    (simp_all add: ht_new_def)

text \<open>
  C25. The iterator of a table visits every entry exactly once: the loop of the callers ends
  after as many turns as there are entries, reads no null pointer, and the entries it has seen are
  the contents of the table.
\<close>

theorem ht_iter_complete:
  assumes "ht_wf K kc D h" "ht_num_entries h < n"
  shows "\<exists>es. res_bind (ht_iter_new h) (\<lambda>it. ht_iter_loop n (\<lambda>e acc. Inr (True, acc @ [e])) it []) =
      Inr (True, es) \<and> length es = ht_num_entries h \<and> distinct (map fst es) \<and> map_of es = ht_map h"
proof -
  have "run_body (\<lambda>e acc. Inr (True, acc @ [e])) es acc = Inr (True, acc @ es)" for es acc :: "('a \<times> 'b) list"
    by (induction es arbitrary: acc) auto
  with ht_iter_visits [of h n "\<lambda>e acc. Inr (True, acc @ [e])" "[]"] assms show ?thesis
    by (auto simp: ht_wf_def ht_map_def)
qed

theorem ht_iter_complete_witness:
  "\<exists>es. res_bind (ht_iter_new (Ht_struct 1 1 8 False [] 4096 [[(''k'', 5 :: nat)]]))
      (\<lambda>it. ht_iter_loop 2 (\<lambda>e acc. Inr (True, acc @ [e])) it []) = Inr (True, es) \<and>
     length es = ht_num_entries (Ht_struct 1 1 8 False [] 4096 [[(''k'', 5 :: nat)]]) \<and>
     distinct (map fst es) \<and> map_of es = ht_map (Ht_struct 1 1 8 False [] 4096 [[(''k'', 5)]])"
  by (rule ht_iter_complete [where K = str_keys and kc = False and D = "\<lambda>_. True"])
    (simp_all add: ht_wf_def in_slots_def ht_hash_def key_slot_def)

end
