(* ===== verification/Hset.thy ===== *)
theory Hset
  imports Ht
begin

text \<open>
  The hash set (\<^verbatim>\<open>src/src/set.h\<close>, \<^verbatim>\<open>src/src/set.c\<close>), named \<^verbatim>\<open>set\<close> in the code. It has the array of
  chains of the hash table and its own code for every operation; all elements have the size
  \<^verbatim>\<open>data_size\<close>. The theory holds one definition per function, the invariant, and the proof that it
  implements a finite set.
\<close>

section \<open>Data\<close>

abbreviation SET_INITIAL_CAP :: nat where "SET_INITIAL_CAP \<equiv> 32"
abbreviation SET_SEED_SIZE :: nat where "SET_SEED_SIZE \<equiv> 16"

text \<open>
  The result codes. \<^term>\<open>SET_minus_1\<close> is the value -1, which is none of the enumeration: \<^verbatim>\<open>set_insert\<close>
  returns it when the first entry of a chain cannot be allocated.
\<close>

datatype set_result = SET_OK | SET_KEY_EXISTS | SET_INV_KEY | SET_OOM | SET_minus_1

datatype 'k hset = Set_struct (set_num_entries: nat) (set_capacity: nat) (set_data_size: nat)
  (set_key_cmp: bool) (set_seed: string) (set_addr: addr) (set_entries: "'k list list")

section \<open>Operations\<close>

definition set_new :: "allocator \<Rightarrow> string \<Rightarrow> nat \<Rightarrow> bool \<Rightarrow> 'k hset res" where
  "set_new al random data_size key_cmp =
     (let p = al (SET_INITIAL_CAP * 8) in
      if p = 0 then Inl Assert_failed
      else Inr (Set_struct 0 SET_INITIAL_CAP data_size key_cmp (take SET_SEED_SIZE random) p
                  (replicate SET_INITIAL_CAP [])))"

definition set_len :: "'k hset \<Rightarrow> nat" where
  "set_len s = set_num_entries s"

definition set_slot :: "'k key_ops \<Rightarrow> string \<Rightarrow> nat \<Rightarrow> nat \<Rightarrow> 'k \<Rightarrow> nat" where
  "set_slot K seed data_size cap data = unat (siphash (key_bytes K data) data_size seed) mod cap"

definition set_hash :: "'k key_ops \<Rightarrow> 'k hset \<Rightarrow> 'k \<Rightarrow> nat" where
  "set_hash K s data = set_slot K (set_seed s) (set_data_size s) (set_capacity s) data"

definition set_compare :: "'k key_ops \<Rightarrow> 'k hset \<Rightarrow> 'k \<Rightarrow> 'k \<Rightarrow> int" where
  "set_compare K s data cur =
     (if set_key_cmp s then key_fn K data cur
      else memcmp (key_bytes K data) (key_bytes K cur) (set_data_size s))"

definition set_entry_new :: "allocator \<Rightarrow> 'k \<Rightarrow> nat \<Rightarrow> 'k option" where
  "set_entry_new al data data_size = (if al (8 + data_size) = 0 then None else Some data)"

definition set_resize :: "'k key_ops \<Rightarrow> allocator \<Rightarrow> 'k hset \<Rightarrow> set_result \<times> 'k hset" where
  "set_resize K al s =
     (let new_cap = set_capacity s * 2; p = al (new_cap * 8) in
      if p = 0 then (SET_OOM, s)
      else (SET_OK, Set_struct (set_num_entries s) new_cap (set_data_size s) (set_key_cmp s) (set_seed s) p
              (rehash (set_slot K (set_seed s) (set_data_size s) new_cap) new_cap (set_entries s))))"

definition set_put :: "'k hset \<Rightarrow> nat \<Rightarrow> nat \<Rightarrow> 'k list \<Rightarrow> 'k hset" where
  "set_put s num slot chain = Set_struct num (set_capacity s) (set_data_size s) (set_key_cmp s)
     (set_seed s) (set_addr s) ((set_entries s)[slot := chain])"

text \<open>The result, the elements handed to the freeing callback, and the set afterwards.\<close>

definition set_insert :: "'k key_ops \<Rightarrow> allocator \<Rightarrow> bool \<Rightarrow> 'k hset \<Rightarrow> 'k \<Rightarrow>
    set_result \<times> 'k list \<times> 'k hset" where
  "set_insert K al fn s data =
     (let (resize, s) = (if set_num_entries s \<ge> set_capacity s then set_resize K al s else (SET_OK, s)) in
      if resize \<noteq> SET_OK then (resize, [], s)
      else
        let slot = set_hash K s data; cur = set_entries s ! slot in
        if cur = [] then
          (case set_entry_new al data (set_data_size s) of
             None \<Rightarrow> (SET_minus_1, [], s)
           | Some e \<Rightarrow> (SET_OK, [], set_put s (set_num_entries s + 1) slot [e]))
        else if list_ex (\<lambda>d. set_compare K s data d = 0) cur then
          (SET_KEY_EXISTS, if fn then [data] else [], s)
        else
          (case set_entry_new al data (set_data_size s) of
             None \<Rightarrow> (SET_OOM, [], s)
           | Some e \<Rightarrow> (SET_OK, [], set_put s (set_num_entries s + 1) slot (e # cur))))"

definition set_has :: "'k key_ops \<Rightarrow> 'k hset \<Rightarrow> 'k \<Rightarrow> bool" where
  "set_has K s data =
     (let cur = set_entries s ! set_hash K s data in
      if cur = [] then False else list_ex (\<lambda>d. set_compare K s data d = 0) cur)"

fun set_chain_delete :: "('k \<Rightarrow> int) \<Rightarrow> 'k list \<Rightarrow> ('k \<times> 'k list) option" where
  "set_chain_delete cmp [] = None"
| "set_chain_delete cmp (d # ds) =
     (if cmp d = 0 then Some (d, ds)
      else map_option (\<lambda>(e, ds'). (e, d # ds')) (set_chain_delete cmp ds))"

definition set_delete :: "'k key_ops \<Rightarrow> bool \<Rightarrow> 'k hset \<Rightarrow> 'k \<Rightarrow> set_result \<times> 'k list \<times> 'k hset" where
  "set_delete K fn s data =
     (let slot = set_hash K s data; cur = set_entries s ! slot in
      if cur = [] then (SET_INV_KEY, [], s)
      else case set_chain_delete (set_compare K s data) cur of
        Some (e, cur') \<Rightarrow> (SET_OK, if fn then [e] else [], set_put s (set_num_entries s - 1) slot cur')
      | None \<Rightarrow> (SET_INV_KEY, [], s))"

definition set_free :: "bool \<Rightarrow> 'k hset \<Rightarrow> 'k list \<times> 'k hset" where
  "set_free fn s =
     (concat (map (\<lambda>cur. if fn then cur else []) (take (set_capacity s) (set_entries s))),
      Set_struct 0 (set_capacity s) (set_data_size s) (set_key_cmp s) (set_seed s) (set_addr s)
        (set_entries s))"

section \<open>Invariant and contents\<close>

definition set_contents :: "'k hset \<Rightarrow> 'k set" where
  "set_contents s = set (concat (set_entries s))"

definition set_wf :: "'k key_ops \<Rightarrow> bool \<Rightarrow> nat \<Rightarrow> ('k \<Rightarrow> bool) \<Rightarrow> 'k hset \<Rightarrow> bool" where
  "set_wf K key_cmp ds D s \<longleftrightarrow>
     set_key_cmp s = key_cmp \<and> set_data_size s = ds \<and>
     0 < set_capacity s \<and> length (set_entries s) = set_capacity s \<and>
     set_num_entries s = length (concat (set_entries s)) \<and>
     in_slots (set_hash K s) (set_entries s) \<and> distinct (concat (set_entries s)) \<and>
     (\<forall>e \<in> set_contents s. D e)"

lemma set_new_spec:
  assumes "set_new al random ds kc = Inr s"
  shows "set_wf K kc ds D s" "set_contents s = {}"
  using assms by (auto simp: set_new_def set_wf_def set_contents_def Let_def concat_replicate_trivial split: if_splits)

lemma set_chain_delete_None: "set_chain_delete cmp es = None \<longleftrightarrow> (\<forall>e \<in> set es. cmp e \<noteq> 0)"
  by (induction cmp es rule: set_chain_delete.induct) auto

lemma set_chain_delete_Some:
  assumes "set_chain_delete cmp es = Some (e, es')"
  shows "\<exists>xs ys. es = xs @ e # ys \<and> es' = xs @ ys \<and> cmp e = 0"
  using assms
proof (induction cmp es arbitrary: es' rule: set_chain_delete.induct)
  case (1 cmp)
  then show ?case by simp
next
  case (2 cmp d ds)
  show ?case
  proof (cases "cmp d = 0")
    case True
    with "2.prems" show ?thesis by (intro exI [of _ "[]"] exI [of _ ds]) auto
  next
    case False
    with "2.prems" obtain ds' where "set_chain_delete cmp ds = Some (e, ds')" "es' = d # ds'" by auto
    with "2.IH" [OF False] show ?thesis by (metis append_Cons)
  qed
qed

section \<open>The finite set contract\<close>

text \<open>
  What the clients rely on: a membership test reads the set, an insertion that finds memory adds
  the element and says whether it was there, a deletion removes it.
\<close>

locale finset =
  fixes has :: "'s \<Rightarrow> 'k \<Rightarrow> bool"
    and insert_elem :: "allocator \<Rightarrow> 's \<Rightarrow> 'k \<Rightarrow> set_result \<times> 'k list \<times> 's"
    and delete_elem :: "'s \<Rightarrow> 'k \<Rightarrow> set_result \<times> 'k list \<times> 's"
    and contents :: "'s \<Rightarrow> 'k set"
    and inv :: "'s \<Rightarrow> bool"
    and D :: "'k \<Rightarrow> bool"
  assumes has_law: "inv s \<Longrightarrow> D k \<Longrightarrow> has s k \<longleftrightarrow> k \<in> contents s"
    and insert_law: "inv s \<Longrightarrow> D k \<Longrightarrow> insert_elem al s k = (r, f, s') \<Longrightarrow>
      inv s' \<and> contents s' = (if r = SET_OK then insert k (contents s) else contents s) \<and>
      (r = SET_OK \<longrightarrow> k \<notin> contents s) \<and> (r = SET_KEY_EXISTS \<longrightarrow> k \<in> contents s)"
    and insert_total: "inv s \<Longrightarrow> alloc_total al \<Longrightarrow> fst (insert_elem al s k) \<in> {SET_OK, SET_KEY_EXISTS}"
    and delete_law: "inv s \<Longrightarrow> D k \<Longrightarrow> delete_elem s k = (r, f, s') \<Longrightarrow>
      inv s' \<and> contents s' = contents s - {k} \<and> r = (if k \<in> contents s then SET_OK else SET_INV_KEY)"
begin

lemma has_insert:
  assumes "inv s" "D k" "D k'" "alloc_total al"
  shows "\<exists>f s'. insert_elem al s k = (if has s k then SET_KEY_EXISTS else SET_OK, f, s') \<and> inv s' \<and>
    (has s' k' \<longleftrightarrow> k' = k \<or> has s k')"
proof -
  obtain r f s' where i: "insert_elem al s k = (r, f, s')" by (cases "insert_elem al s k")
  from insert_law [OF assms(1,2) i] insert_total [OF assms(1,4), of k] i assms show ?thesis
    by (auto simp: has_law)
qed

lemma has_delete:
  assumes "inv s" "D k" "D k'"
  shows "\<exists>f s'. delete_elem s k = (if has s k then SET_OK else SET_INV_KEY, f, s') \<and> inv s' \<and>
    (has s' k' \<longleftrightarrow> k' \<noteq> k \<and> has s k')"
proof -
  obtain r f s' where i: "delete_elem s k = (r, f, s')" by (cases "delete_elem s k")
  from delete_law [OF assms(1,2) i] i assms show ?thesis by (auto simp: has_law)
qed

end

locale set_keys =
  fixes K :: "'k key_ops" and key_cmp :: bool and ds :: nat and D :: "'k \<Rightarrow> bool"
  assumes set_cmp_law: "set_key_cmp s = key_cmp \<Longrightarrow> set_data_size s = ds \<Longrightarrow> D a \<Longrightarrow> D b \<Longrightarrow>
      set_compare K s a b = 0 \<longleftrightarrow> a = b"
begin

lemma set_hash_less: "set_wf K key_cmp ds D s \<Longrightarrow> set_hash K s k < length (set_entries s)"
  by (auto simp: set_wf_def set_hash_def set_slot_def)

lemma slot_contents:
  assumes "set_wf K key_cmp ds D s"
  shows "k \<in> set (set_entries s ! set_hash K s k) \<longleftrightarrow> k \<in> set_contents s"
  using assms in_slots_concat [of "set_hash K s" "set_entries s" k] set_hash_less [OF assms, of k]
  by (simp add: set_wf_def set_contents_def)

lemma chain_found:
  assumes "set_wf K key_cmp ds D s" "D k"
  shows "(\<exists>d \<in> set (set_entries s ! set_hash K s k). set_compare K s k d = 0) \<longleftrightarrow> k \<in> set_contents s"
proof -
  have "D d" if "d \<in> set (set_entries s ! set_hash K s k)" for d
    using that assms(1) set_hash_less [OF assms(1), of k] nth_mem
    by (auto simp: set_wf_def set_contents_def)
  moreover have "set_key_cmp s = key_cmp" "set_data_size s = ds" using assms(1) by (auto simp: set_wf_def)
  ultimately show ?thesis using slot_contents [OF assms(1), of k] set_cmp_law [of s k] assms(2) by auto
qed

lemma set_hash_put: "set_hash K (set_put s n slot c) = set_hash K s"
  by (simp add: fun_eq_iff set_hash_def set_put_def)

lemma set_put_wf:
  assumes "set_wf K key_cmp ds D s" "slot = set_hash K s k" "D k"
    and "\<forall>e \<in> set c. e \<in> set (set_entries s ! slot) \<or> e = k"
    and "mset (concat ((set_entries s)[slot := c])) = mset es" "distinct es" "n = length es"
    "\<forall>e \<in> set es. D e"
  shows "set_wf K key_cmp ds D (set_put s n slot c)" "set_contents (set_put s n slot c) = set es"
proof -
  let ?bs = "(set_entries s)[slot := c]"
  have slot: "slot < length (set_entries s)" using assms(1,2) set_hash_less by simp
  have sl: "in_slots (set_hash K s) (set_entries s)" using assms(1) by (simp add: set_wf_def)
  have "set_hash K s e = slot" if "e \<in> set c" for e
    using assms(2,4) that in_slotsD [OF sl slot] by blast
  then have "in_slots (set_hash K (set_put s n slot c)) ?bs"
    unfolding set_hash_put by (intro in_slots_update sl)
  moreover show c: "set_contents (set_put s n slot c) = set es"
    using mset_eq_setD [OF assms(5)] by (simp add: set_contents_def set_put_def)
  ultimately show "set_wf K key_cmp ds D (set_put s n slot c)"
    using assms mset_eq_length [OF assms(5)] mset_eq_imp_distinct_iff [OF assms(5)]
    by (simp add: set_wf_def) (simp add: set_put_def)
qed

lemma set_resize_spec:
  assumes "set_wf K key_cmp ds D s" "set_resize K al s = (r, s')"
  shows "set_wf K key_cmp ds D s'" "set_contents s' = set_contents s"
proof -
  let ?slot = "set_slot K (set_seed s) (set_data_size s) (set_capacity s * 2)"
  let ?new = "rehash ?slot (set_capacity s * 2) (set_entries s)"
  have cap: "0 < set_capacity s" using assms(1) by (simp add: set_wf_def)
  then have new: "length ?new = set_capacity s * 2" "in_slots ?slot ?new"
    "mset (concat ?new) = mset (concat (set_entries s))"
    by (simp_all add: rehash_spec set_slot_def)
  have "set_wf K key_cmp ds D s' \<and> set_contents s' = set_contents s"
  proof (cases "r = SET_OK")
    case True
    then have "s' = Set_struct (set_num_entries s) (set_capacity s * 2) (set_data_size s) (set_key_cmp s)
        (set_seed s) (al (set_capacity s * 2 * 8)) ?new"
      using assms(2) by (auto simp: set_resize_def Let_def split: if_splits)
    with new(1,2) mset_eq_length [OF new(3)] mset_eq_setD [OF new(3)] mset_eq_imp_distinct_iff [OF new(3)]
      assms(1) cap show ?thesis
      by (simp add: set_wf_def set_contents_def set_hash_def [abs_def])
  next
    case False
    with assms show ?thesis by (auto simp: set_resize_def Let_def split: if_splits)
  qed
  then show "set_wf K key_cmp ds D s'" "set_contents s' = set_contents s" by auto
qed

lemma set_insert_spec:
  assumes "set_wf K key_cmp ds D s" "D k" "set_insert K al fn s k = (r, f, s')"
  shows "set_wf K key_cmp ds D s' \<and>
    set_contents s' = (if r = SET_OK then insert k (set_contents s) else set_contents s) \<and>
    (r = SET_OK \<longrightarrow> k \<notin> set_contents s) \<and> (r = SET_KEY_EXISTS \<longrightarrow> k \<in> set_contents s)"
proof -
  obtain rr s1 where s1: "(if set_num_entries s \<ge> set_capacity s then set_resize K al s else (SET_OK, s)) = (rr, s1)"
    by fastforce
  have wf1: "set_wf K key_cmp ds D s1" "set_contents s1 = set_contents s"
    using s1 assms(1) set_resize_spec [OF assms(1), of al rr s1] by (auto split: if_splits)
  have rr: "rr = SET_OK \<or> rr = SET_OOM" using s1 by (auto simp: set_resize_def Let_def split: if_splits)
  define slot where "slot = set_hash K s1 k"
  define cur where "cur = set_entries s1 ! slot"
  have slot: "slot < length (set_entries s1)" using set_hash_less [OF wf1(1)] by (simp add: slot_def)
  have found: "list_ex (\<lambda>d. set_compare K s1 k d = 0) cur \<longleftrightarrow> k \<in> set_contents s"
    using chain_found [OF wf1(1) assms(2)] wf1(2) by (simp add: cur_def slot_def list_ex_iff)
  have new: "set_wf K key_cmp ds D (set_put s1 (set_num_entries s1 + 1) slot (k # cur)) \<and>
      set_contents (set_put s1 (set_num_entries s1 + 1) slot (k # cur)) = insert k (set_contents s)"
    if "k \<notin> set_contents s"
  proof -
    have c1: "set (concat (set_entries s1)) = set_contents s" "distinct (concat (set_entries s1))"
      "set_num_entries s1 + 1 = length (k # concat (set_entries s1))" "\<forall>e \<in> set_contents s. D e"
      using wf1(1) by (simp_all only: set_wf_def wf1(2) [symmetric]) (simp_all add: set_contents_def)
    show ?thesis
      using set_put_wf [OF wf1(1) slot_def assms(2), of "k # cur" "k # concat (set_entries s1)", OF _ _ _ c1(3)]
        mset_concat_cons [OF slot, of k] that c1(1,2,4) assms(2)
      by (simp add: cur_def del: set_concat)
  qed
  show ?thesis
  proof (cases "rr = SET_OK")
    case False
    with rr assms(3) s1 wf1 show ?thesis by (auto simp: set_insert_def)
  next
    case True
    have "set_insert K al fn s k =
        (if list_ex (\<lambda>d. set_compare K s1 k d = 0) cur then (SET_KEY_EXISTS, if fn then [k] else [], s1)
         else case set_entry_new al k (set_data_size s1) of
           None \<Rightarrow> (if cur = [] then SET_minus_1 else SET_OOM, [], s1)
         | Some e \<Rightarrow> (SET_OK, [], set_put s1 (set_num_entries s1 + 1) slot (e # cur)))"
      unfolding set_insert_def s1 True
      by (cases "cur = []") (simp_all add: slot_def [symmetric] cur_def [symmetric] split: option.split)
    with assms(3) found show ?thesis
      using new wf1 by (cases "k \<in> set_contents s") (auto simp: set_entry_new_def split: if_splits)
  qed
qed

lemma set_delete_spec:
  assumes "set_wf K key_cmp ds D s" "D k" "set_delete K fn s k = (r, f, s')"
  shows "set_wf K key_cmp ds D s' \<and> set_contents s' = set_contents s - {k} \<and>
    r = (if k \<in> set_contents s then SET_OK else SET_INV_KEY)"
proof -
  define slot where "slot = set_hash K s k"
  define cur where "cur = set_entries s ! slot"
  note found = chain_found [OF assms(1,2), folded slot_def, folded cur_def]
  show ?thesis
  proof (cases "set_chain_delete (set_compare K s k) cur")
    case None
    with found have "k \<notin> set_contents s" by (simp add: set_chain_delete_None)
    moreover have "r = SET_INV_KEY" "s' = s"
      using assms(3) None by (auto simp: set_delete_def slot_def cur_def Let_def split: if_splits)
    ultimately show ?thesis using assms(1) by simp
  next
    case (Some p)
    then obtain e c where p: "set_chain_delete (set_compare K s k) cur = Some (e, c)" by (cases p) auto
    from set_chain_delete_Some [OF p] obtain xs ys where
      c: "cur = xs @ e # ys" "c = xs @ ys" "set_compare K s k e = 0" by blast
    have slot: "slot < length (set_entries s)" using set_hash_less [OF assms(1)] by (simp add: slot_def)
    have "e \<in> set_contents s" using c(1) slot nth_mem [OF slot] by (auto simp: cur_def set_contents_def intro!: bexI [of _ "xs @ e # ys"])
    then have e: "e = k" using set_cmp_law [of s k e] c(3) assms(1,2) by (auto simp: set_wf_def)
    let ?es = "concat ((set_entries s)[slot := xs @ ys])"
    have m: "mset (concat (set_entries s)) = mset (k # ?es)"
      using mset_concat_drop [OF slot, of xs e ys] c(1) e by (simp add: cur_def)
    have es: "distinct (k # ?es)" "set_contents s = set (k # ?es)" "set_num_entries s = Suc (length ?es)"
      using assms(1) mset_eq_imp_distinct_iff [OF m] mset_eq_setD [OF m] mset_eq_length [OF m]
      by (simp_all add: set_wf_def set_contents_def)
    have "\<forall>e \<in> set ?es. D e" using assms(1) es(2) by (auto simp: set_wf_def)
    moreover have "\<forall>x \<in> set (xs @ ys). x \<in> set (set_entries s ! slot) \<or> x = k"
      using c(1) by (auto simp: cur_def)
    ultimately have "set_wf K key_cmp ds D (set_put s (set_num_entries s - 1) slot c)"
      "set_contents (set_put s (set_num_entries s - 1) slot c) = set ?es"
      using set_put_wf [OF assms(1) slot_def assms(2), of "xs @ ys" ?es "set_num_entries s - 1"] es c(2)
      by simp_all
    moreover have "r = SET_OK" "s' = set_put s (set_num_entries s - 1) slot c"
      using assms(3) p c by (auto simp: set_delete_def slot_def [symmetric] cur_def [symmetric] Let_def)
    ultimately show ?thesis using es(1,2) by auto
  qed
qed

lemma set_insert_code:
  "alloc_total al \<Longrightarrow> fst (set_insert K al fn s k) \<in> {SET_OK, SET_KEY_EXISTS}"
  by (auto simp: set_insert_def set_resize_def set_entry_new_def Let_def)

lemma set_has_spec:
  "set_wf K key_cmp ds D s \<Longrightarrow> D k \<Longrightarrow> set_has K s k \<longleftrightarrow> k \<in> set_contents s"
  using chain_found [of s k] by (auto simp: set_has_def Let_def list_ex_iff)

end

sublocale set_keys \<subseteq> finset "set_has K" "\<lambda>al. set_insert K al fn" "set_delete K fn" set_contents
  "set_wf K key_cmp ds D" D for fn
  by unfold_locales (rule set_has_spec set_insert_spec set_insert_code set_delete_spec; assumption)+

text \<open>\<^verbatim>\<open>set_free\<close> hands every element to the callback.\<close>

lemma set_free_all: "set_wf K kc ds D s \<Longrightarrow> fst (set_free True s) = concat (set_entries s)"
  by (simp add: set_free_def set_wf_def)

end
