(* ===== verification/Object.thy ===== *)
theory Object
  imports Vstr Vec Hset
begin

text \<open>
  The values the database stores (\<^verbatim>\<open>src/src/object.h\<close>, \<^verbatim>\<open>src/src/object.c\<close>): a tagged union, which
  contains vectors and tables of itself. The theory holds construction, comparison and freeing,
  the bytes of an object as the tables hash them, the abstract value an object stands for, and the
  keys on which comparison and hashing agree, so that tables and sets of objects are maps and sets.
\<close>

section \<open>Data\<close>

text \<open>
  The tagged union. A double is its 64 bits, \<^verbatim>\<open>int boolean\<close> a 32-bit word; an array is the vector
  behind its pointer.
\<close>

datatype object =
    Null
  | Int_o (obj_num: "64 word")
  | Double (obj_dbl: "64 word")
  | Bool (obj_boolean: "32 word")
  | String (obj_string: vstr)
  | Array (obj_vec: "object vec")
  | Ht (obj_ht: "(object, object) ht")

text \<open>\<^verbatim>\<open>sizeof(object)\<close>: the tag, four bytes of padding, the union (a table has 56 bytes).\<close>

abbreviation sizeof_object :: nat where "sizeof_object \<equiv> 64"

definition object_type :: "object \<Rightarrow> int" where
  "object_type obj = (case obj of Null \<Rightarrow> 0 | Int_o _ \<Rightarrow> 1 | Double _ \<Rightarrow> 2 | Bool _ \<Rightarrow> 3 | String _ \<Rightarrow> 4
     | Array _ \<Rightarrow> 5 | Ht _ \<Rightarrow> 6)"

section \<open>Operations\<close>

text \<open>
  \<^verbatim>\<open>object_new\<close>: the argument is the tag with the value that lies at \<^verbatim>\<open>data\<close>. There is no case for
  tables.
\<close>

definition object_new :: "object \<Rightarrow> object" where
  "object_new data = (case data of Ht h \<Rightarrow> Null | obj \<Rightarrow> obj)"

text \<open>
  The difference of a double with itself, converted to \<^verbatim>\<open>int\<close>: 0, or, for an infinity or a NaN,
  the value that the conversion instruction of the target gives for a NaN (the C standard leaves
  it open).
\<close>

definition double_self_diff :: "64 word \<Rightarrow> int" where
  "double_self_diff d = (if (unat d div 2 ^ 52) mod 2 ^ 11 = 2 ^ 11 - 1 then - (2 ^ 31) else 0)"

text \<open>
  The comparison. The difference of two 64-bit integers is returned as an \<^verbatim>\<open>int\<close>, so only its
  lower 32 bits count; doubles and booleans are compared with themselves.
\<close>

definition object_cmp :: "object \<Rightarrow> object \<Rightarrow> int" where
  "object_cmp a b =
     (if object_type a \<noteq> object_type b then object_type a - object_type b
      else case a of
        Null \<Rightarrow> 0
      | Int_o ai \<Rightarrow> sint (ucast (ai - obj_num b) :: 32 word)
      | Double ad \<Rightarrow> double_self_diff ad
      | Bool ab \<Rightarrow> 0
      | String as \<Rightarrow> vstr_cmp as (obj_string b)
      | _ \<Rightarrow> 1)"

text \<open>Sizes of the parts of an object.\<close>

lemma size_vec_mem: "x \<in> set (vec_data v) \<Longrightarrow> f x < size_vec f v"
  by (cases v) (auto simp: size_list_estimation' [of x] less_Suc_eq_le)

lemma size_ht_entry:
  assumes "e \<in> set (concat (ht_entries h))"
  shows "f (fst e) < size_ht f g h" "g (snd e) < size_ht f g h"
proof -
  obtain n c d k s a es where h: "h = Ht_struct n c d k s a es" by (cases h)
  with assms obtain b where b: "b \<in> set es" "e \<in> set b" by auto
  have "f (fst e) \<le> size_prod f g e" "g (snd e) \<le> size_prod f g e" by (cases e; simp)+
  moreover have "size_prod f g e \<le> size_list (size_prod f g) b"
    by (rule size_list_estimation' [OF b(2)]) simp
  moreover have "size_list (size_prod f g) b \<le> size_list (size_list (size_prod f g)) es"
    by (rule size_list_estimation' [OF b(1)]) simp
  ultimately show "f (fst e) < size_ht f g h" "g (snd e) < size_ht f g h" using h by simp_all
qed

text \<open>The abstract values, and the value of an object.\<close>

datatype avalue =
    VNull
  | VInt int
  | VDouble "64 word"
  | VBool bool
  | VStr string
  | VArr "avalue list"
  | VHt "(avalue \<times> avalue) list"

function obj_value :: "object \<Rightarrow> avalue" where
  "obj_value Null = VNull"
| "obj_value (Int_o n) = VInt (sint n)"
| "obj_value (Double d) = VDouble d"
| "obj_value (Bool b) = VBool (b \<noteq> 0)"
| "obj_value (String s) = VStr (vstr_str s)"
| "obj_value (Array v) = VArr (map obj_value (vec_list v))"
| "obj_value (Ht h) = VHt (map (\<lambda>e. (obj_value (fst e), obj_value (snd e))) (concat (ht_entries h)))"
  by pat_completeness auto

termination
proof (relation "measure size")
  fix v :: "object vec" and x
  assume "x \<in> set (vec_list v)"
  then show "(x, Array v) \<in> measure size"
    using size_vec_mem [of x v size] by (auto simp: vec_list_def dest: in_set_takeD)
next
  fix h :: "(object, object) ht" and e
  assume "e \<in> set (concat (ht_entries h))"
  from size_ht_entry [OF this, of size size]
  show "(fst e, Ht h) \<in> measure size" "(snd e, Ht h) \<in> measure size" by simp_all
qed simp

lemma ht_free_sub:
  assumes "f \<in> set (ht_free True True h)"
  shows "\<exists>e \<in> set (concat (ht_entries h)). f = Freed_key (fst e) \<or> f = Freed_data (snd e)"
proof -
  from assms obtain b e where "b \<in> set (take (ht_capacity h) (ht_entries h))" "e \<in> set b"
    "f \<in> set (ht_entry_free True True e)" by (auto simp: ht_free_def)
  then show ?thesis by (intro bexI [of _ e]) (auto simp: ht_entry_free_def dest: in_set_takeD)
qed

text \<open>
  \<^verbatim>\<open>object_free\<close>: the blocks it frees, in order (the heap buffer of a string, the block of a vector,
  the array of a table; the blocks of the entries of a table have no address in the model).
\<close>

function object_free :: "object \<Rightarrow> addr list" where
  "object_free (String s) = (case s of Large l a \<Rightarrow> [lg_addr l] | Small d a \<Rightarrow> [])"
| "object_free (Array v) =
     concat (map object_free (fst (vec_free True v))) @ [snd (vec_free True v)]"
| "object_free (Ht h) =
     concat (map (\<lambda>f. case f of Freed_key k \<Rightarrow> object_free k | Freed_data d \<Rightarrow> object_free d)
               (ht_free True True h)) @ [ht_addr h]"
| "object_free Null = []"
| "object_free (Int_o n) = []"
| "object_free (Double d) = []"
| "object_free (Bool b) = []"
  by pat_completeness auto

termination
proof (relation "measure size")
  fix v :: "object vec" and x
  assume "x \<in> set (fst (vec_free True v))"
  then show "(x, Array v) \<in> measure size"
    using size_vec_mem [of x v size] by (auto simp: vec_free_def dest: in_set_takeD)
next
  fix h :: "(object, object) ht" and f k
  assume f: "f \<in> set (ht_free True True h)"
  show "(k, Ht h) \<in> measure size" if "f = Freed_key k"
  proof -
    from ht_free_sub [OF f] that obtain e where "e \<in> set (concat (ht_entries h))" "k = fst e" by auto
    with size_ht_entry(1) [of e h size size] show ?thesis by simp
  qed
  show "(k, Ht h) \<in> measure size" if "f = Freed_data k"
  proof -
    from ht_free_sub [OF f] that obtain e where "e \<in> set (concat (ht_entries h))" "k = snd e" by auto
    with size_ht_entry(2) [of e h size size] show ?thesis by simp
  qed
qed simp

section \<open>The bytes of an object\<close>

text \<open>
  The tables hash the object representation of a key: the tag, the padding (zero, from the
  initialisation of the struct) and the union. Of a heap string this is the pointer, the capacity
  and the length, not the text. \<^term>\<open>ca\<close> is the address of the comparison function in a table.
\<close>

definition vstr_bytes :: "vstr \<Rightarrow> string" where
  "vstr_bytes s = (case s of
     Small d a \<Rightarrow> d @ le_bytes 1 (2 * a)
   | Large l a \<Rightarrow> lg_bytes l @ le_bytes 1 (2 * a + 1))"

definition union_bytes :: "addr \<Rightarrow> object \<Rightarrow> string" where
  "union_bytes ca obj = (case obj of
     Null \<Rightarrow> []
   | Int_o n \<Rightarrow> le_bytes 8 (unat n)
   | Double d \<Rightarrow> le_bytes 8 (unat d)
   | Bool b \<Rightarrow> le_bytes 4 (unat b)
   | String s \<Rightarrow> vstr_bytes s
   | Array v \<Rightarrow> le_bytes 8 (unat (vec_addr v))
   | Ht h \<Rightarrow> le_bytes 8 (ht_num_entries h) @ le_bytes 8 (ht_capacity h) @ le_bytes 8 (ht_data_size h) @
       le_bytes 8 (if ht_key_cmp h then unat ca else 0) @ ht_seed h @ le_bytes 8 (unat (ht_addr h)))"

definition object_bytes :: "addr \<Rightarrow> object \<Rightarrow> string" where
  "object_bytes ca obj =
     (let u = union_bytes ca obj in
      le_bytes 4 (nat (object_type obj)) @ replicate 4 NUL @ u @ replicate (56 - length u) NUL)"

text \<open>The key type of the tables of objects: \<^verbatim>\<open>server_compare_objects\<close> and \<^verbatim>\<open>parser_object_cmp\<close>.\<close>

definition object_keys :: "addr \<Rightarrow> object key_ops" where
  "object_keys ca = \<lparr>key_bytes = object_bytes ca, key_fn = object_cmp\<rparr>"

section \<open>Good keys\<close>

text \<open>
  The keys on which the comparison is equality: null, integers of 32 bits, and strings in the
  small layout without a zero byte.
\<close>

fun good_key :: "object \<Rightarrow> bool" where
  "good_key Null = True"
| "good_key (Int_o n) \<longleftrightarrow> - (2 ^ 31) \<le> sint n \<and> sint n < 2 ^ 31"
| "good_key (String s) \<longleftrightarrow> vstr_clean s \<and> \<not> is_large s \<and> NUL \<notin> set (vstr_str s)"
| "good_key _ = False"

lemma small_clean_eq:
  assumes "vstr_clean a" "vstr_clean b" "\<not> is_large a" "\<not> is_large b" "vstr_str a = vstr_str b"
  shows "a = b"
proof -
  obtain da na db nb where ab: "a = Small da na" "b = Small db nb" using assms(3,4) by (cases a; cases b) auto
  have len: "length da = 23" "length db = 23" "na \<le> 23" "nb \<le> 23"
    using assms(1,2) ab by (auto simp: vstr_clean_def)
  have "23 - na = 23 - nb"
    using arg_cong [OF assms(5), of length] ab len by (simp add: vstr_str_def vstr_len_def vstr_data_def)
  then have n: "na = nb" using len(3,4) by simp
  have z: "drop (23 - m) d = replicate m NUL" if "zero_tail d (23 - m)" "length d = 23" "m \<le> 23" for d m
    using that by (intro replicate_eqI) (auto simp: zero_tail_def)
  have "drop (23 - na) da = replicate na NUL" "drop (23 - na) db = replicate na NUL"
    using z [of da na] z [of db nb] assms(1,2) ab n len
    by (simp_all add: vstr_clean_def vstr_len_def vstr_data_def)
  moreover have "take (23 - na) da = take (23 - na) db"
    using assms(5) ab n by (simp add: vstr_str_def vstr_len_def vstr_data_def)
  ultimately have "da = db" by (metis append_take_drop_id)
  with ab n show ?thesis by simp
qed

lemma ucast_word_of_int: "(ucast (word_of_int k :: 64 word) :: 32 word) = word_of_int k"
  by (simp add: ucast_eq word_of_int_eq_iff uint_word_of_int take_bit_eq_mod mod_mod_cancel)
lemma int_window:
  fixes a b :: "64 word"
  assumes "- (2 ^ 31) \<le> sint a" "sint a < 2 ^ 31" "- (2 ^ 31) \<le> sint b" "sint b < 2 ^ 31"
  shows "sint (ucast (a - b) :: 32 word) = 0 \<longleftrightarrow> a = b"
proof
  assume "sint (ucast (a - b) :: 32 word) = 0"
  then have z: "(ucast (a - b) :: 32 word) = 0" by (simp only: signed_eq_0_iff)
  have ab: "a - b = word_of_int (sint a - sint b)" by simp
  have "(ucast (a - b) :: 32 word) = word_of_int (sint a - sint b)"
    unfolding ab by (rule ucast_word_of_int)
  with z have "(2 ^ 32 :: int) dvd sint a - sint b" by (simp only: word_of_int_eq_0_iff) simp
  moreover have "\<bar>sint a - sint b\<bar> < 2 ^ 32" using assms by simp
  ultimately have "sint a = sint b"
    using dvd_imp_le_int [of "sint a - sint b" "2 ^ 32"] by auto
  then show "a = b" by (rule signed_word_eqI)
qed simp

lemma good_key_cmp:
  assumes "good_key a" "good_key b"
  shows "object_cmp a b = 0 \<longleftrightarrow> a = b"
  using assms
  by (cases a; cases b)
    (auto simp: object_cmp_def object_type_def int_window vstr_clean_live vstr_live_wf vstr_cmp_zero
      intro: small_clean_eq)

interpretation ok: ht_keys "object_keys ca" True good_key for ca
  by unfold_locales (simp add: key_compare_def object_keys_def good_key_cmp)

interpretation os: set_keys "object_keys ca" True sizeof_object good_key for ca
  by unfold_locales (simp add: set_compare_def object_keys_def good_key_cmp)

section \<open>Heap strings as keys\<close>

lemma le_bytes_Suc: "le_bytes (Suc k) n = char_of n # le_bytes k (n div 256)"
  unfolding le_bytes_def by (simp add: upt_rec [of 0] map_Suc_upt [symmetric] div_mult2_eq del: upt_Suc)

lemma le_bytes_inj:
  "le_bytes k m = le_bytes k n \<Longrightarrow> m < 256 ^ k \<Longrightarrow> n < 256 ^ k \<Longrightarrow> m = n"
proof (induction k arbitrary: m n)
  case 0
  then show ?case by simp
next
  case (Suc k)
  from Suc.prems(1) have "char_of m = (char_of n :: char)" "le_bytes k (m div 256) = le_bytes k (n div 256)"
    by (simp_all add: le_bytes_Suc)
  moreover have "m div 256 < 256 ^ k" "n div 256 < 256 ^ k"
    using Suc.prems(2,3) by (simp_all add: less_mult_imp_div_less mult.commute)
  ultimately have "m div 256 = n div 256" "m mod 256 = n mod 256"
    using Suc.IH [of "m div 256" "n div 256"] of_char_of [of m] of_char_of [of n] by simp_all
  then show ?case by (metis mod_div_mult_eq)
qed

lemma object_bytes_heap_string:
  assumes "lg_addr l \<noteq> lg_addr l'"
  shows "object_bytes ca (String (Large l a)) \<noteq> object_bytes ca (String (Large l' a'))"
proof
  assume "object_bytes ca (String (Large l a)) = object_bytes ca (String (Large l' a'))"
  then have "le_bytes 8 (unat (lg_addr l)) = le_bytes 8 (unat (lg_addr l'))"
    by (simp add: object_bytes_def union_bytes_def vstr_bytes_def lg_bytes_def Let_def)
  moreover have "unat w < 256 ^ 8" for w :: "64 word"
    using unsigned_less [of w, where 'a = nat] by simp
  ultimately have "unat (lg_addr l) = unat (lg_addr l')" by (intro le_bytes_inj)
  with assms show False using unsigned_word_eqI by blast
qed

section \<open>Properties\<close>

text \<open>
  On good keys (null, integers of 32 bits, strings of the small layout without a zero byte)
  the comparison function of the tables returns 0 exactly on equal keys.
\<close>

theorem object_cmp_good_keys:
  assumes "good_key a" "good_key b"
  shows "object_cmp a b = 0 \<longleftrightarrow> a = b"
  using assms by (rule good_key_cmp)

theorem object_cmp_good_keys_witness:
  "object_cmp (Int_o 5) (String (vstr_from (\<lambda>_. 0) ''five'')) = 0 \<longleftrightarrow>
   Int_o 5 = String (vstr_from (\<lambda>_. 0) ''five'')"
  by (rule object_cmp_good_keys)
    (simp_all add: vstr_from_def strlen_def c_str_def vstr_views vstr_clean_def zero_tail_def)

text \<open>
  On other keys the comparison is not equality: two integers that differ by a multiple of
  \<^verbatim>\<open>2^32\<close>, two booleans, and two finite doubles always compare as equal.
\<close>

theorem object_cmp_confuses:
  "object_cmp (Int_o n) (Int_o (n + of_int (k * 2 ^ 32))) = 0 \<and> object_cmp (Bool b) (Bool b') = 0 \<and>
   object_cmp (Double 0x3FF0000000000000) (Double d) = 0"
proof -
  have "n - (n + word_of_int (k * 2 ^ 32)) = word_of_int (- (k * 2 ^ 32))" by simp
  then have "(ucast (n - (n + word_of_int (k * 2 ^ 32))) :: 32 word) = word_of_int (- (k * 2 ^ 32))"
    by (simp only: ucast_word_of_int)
  also have "\<dots> = 0" by (simp only: word_of_int_eq_0_iff) simp
  finally show ?thesis by (simp add: object_cmp_def object_type_def double_self_diff_def)
qed



end
