(* ===== verification/Builder.thy ===== *)
theory Builder
  imports Object
begin

text \<open>
  Building of messages (\<^verbatim>\<open>src/src/builder.h\<close>, \<^verbatim>\<open>src/src/builder.c\<close>) and the error texts
  (\<^verbatim>\<open>src/src/reply.h\<close>, \<^verbatim>\<open>src/src/reply.c\<close>). The theory holds one definition per function, the encoding of
  abstract values that the protocol means, the proof that \<^verbatim>\<open>builder_add_object\<close> writes that encoding,
  and what it does on the objects it cannot send.
\<close>

section \<open>Data\<close>

type_synonym builder = vstr

text \<open>The conversion \<^verbatim>\<open>%g\<close> of \<^verbatim>\<open>printf\<close>, from the bits of a double to its text.\<close>

type_synonym fmt_double = "64 word \<Rightarrow> string"

text \<open>\<^verbatim>\<open>if (res == -1) { return -1; }\<close> after a call that may fail.\<close>

definition then_if :: "(int \<times> builder) res \<Rightarrow> (builder \<Rightarrow> (int \<times> builder) res) \<Rightarrow> (int \<times> builder) res" where
  "then_if r f = res_bind r (\<lambda>(res, b). if res = - 1 then Inr (- 1, b) else f b)"

text \<open>The pushes of the string component as steps.\<close>

definition push_c :: "allocator \<Rightarrow> byte \<Rightarrow> builder \<Rightarrow> (int \<times> builder) res" where
  "push_c al c b = Inr (vstr_push_char al b c)"

definition push_s :: "allocator \<Rightarrow> string \<Rightarrow> nat \<Rightarrow> builder \<Rightarrow> (int \<times> builder) res" where
  "push_s al str len b = Inr (vstr_push_string_len al b str len)"

section \<open>Operations\<close>

definition builder_new :: builder where
  "builder_new = vstr_new"

definition builder_out :: "builder \<Rightarrow> string" where
  "builder_out b = vstr_data b"

definition builder_len :: "builder \<Rightarrow> nat" where
  "builder_len b = vstr_len b"

definition builder_add_end :: "allocator \<Rightarrow> builder \<Rightarrow> (int \<times> builder) res" where
  "builder_add_end al b = then_if (push_c al CR b) (push_c al LF)"

definition builder_add_ok :: "allocator \<Rightarrow> builder \<Rightarrow> (int \<times> builder) res" where
  "builder_add_ok al b = push_s al (''+OK'' @ CRLF) 5 b"

definition builder_add_ping :: "allocator \<Rightarrow> builder \<Rightarrow> (int \<times> builder) res" where
  "builder_add_ping al b = push_s al (''+PING'' @ CRLF) 7 b"

definition builder_add_pong :: "allocator \<Rightarrow> builder \<Rightarrow> (int \<times> builder) res" where
  "builder_add_pong al b = push_s al (''+PONG'' @ CRLF) 7 b"

definition builder_add_none :: "allocator \<Rightarrow> builder \<Rightarrow> (int \<times> builder) res" where
  "builder_add_none al b = push_s al (''+NONE'' @ CRLF) 7 b"

text \<open>
  \<^verbatim>\<open>builder_add_array\<close> frees the formatted length before it pushes it; a length has at most 20
  digits, so it is in the small layout, whose bytes \<^verbatim>\<open>vstr_free\<close> leaves.
\<close>

definition builder_add_array :: "allocator \<Rightarrow> nat \<Rightarrow> builder \<Rightarrow> (int \<times> builder) res" where
  "builder_add_array al arr_len b =
     res_bind (vstr_format al (fmt_lu arr_len)) (\<lambda>len_vstr.
       let len_str_len = vstr_len len_vstr; len_str = vstr_data len_vstr in
       then_if (push_c al (CHR ''*'') b) (\<lambda>b.
       then_if (push_s al len_str len_str_len b) (builder_add_end al)))"

definition builder_add_err :: "allocator \<Rightarrow> string \<Rightarrow> nat \<Rightarrow> builder \<Rightarrow> (int \<times> builder) res" where
  "builder_add_err al str len b =
     then_if (push_c al (CHR ''-'') b) (\<lambda>b.
     then_if (push_s al str len b) (builder_add_end al))"

definition builder_add_string :: "allocator \<Rightarrow> string \<Rightarrow> nat \<Rightarrow> builder \<Rightarrow> (int \<times> builder) res" where
  "builder_add_string al str str_len b =
     then_if (push_c al (CHR ''$'') b) (\<lambda>b.
     res_bind (vstr_format al (fmt_lu str_len)) (\<lambda>len_vstr.
       then_if (push_s al (vstr_data len_vstr) (vstr_len len_vstr) b) (\<lambda>b.
       then_if (builder_add_end al b) (\<lambda>b.
       then_if (push_s al str str_len b) (builder_add_end al)))))"

definition builder_add_int :: "allocator \<Rightarrow> 64 word \<Rightarrow> builder \<Rightarrow> (int \<times> builder) res" where
  "builder_add_int al val b =
     res_bind (vstr_format al (fmt_ld (sint val))) (\<lambda>int_str.
       then_if (push_c al (CHR '':'') b) (\<lambda>b.
       then_if (push_s al (vstr_data int_str) (vstr_len int_str) b) (builder_add_end al)))"

definition builder_add_boolean :: "allocator \<Rightarrow> 32 word \<Rightarrow> builder \<Rightarrow> (int \<times> builder) res" where
  "builder_add_boolean al boolean b =
     then_if (push_c al (CHR ''#'') b) (\<lambda>b.
     then_if (if boolean \<noteq> 0 then push_c al (CHR ''t'') b else push_c al (CHR ''f'') b)
       (builder_add_end al))"

definition builder_add_double :: "fmt_double \<Rightarrow> allocator \<Rightarrow> 64 word \<Rightarrow> builder \<Rightarrow> (int \<times> builder) res" where
  "builder_add_double fmt_g al val b =
     res_bind (vstr_format al (fmt_g val)) (\<lambda>tmp.
       then_if (push_c al (CHR '','') b) (\<lambda>b.
       then_if (push_s al (vstr_data tmp) (vstr_len tmp) b) (builder_add_end al)))"

definition builder_add_ht :: "allocator \<Rightarrow> nat \<Rightarrow> builder \<Rightarrow> (int \<times> builder) res" where
  "builder_add_ht al len b =
     res_bind (vstr_format al (fmt_lu len)) (\<lambda>len_str.
       then_if (push_c al (CHR ''%'') b) (\<lambda>b.
       then_if (push_s al (vstr_data len_str) (vstr_len len_str) b) (builder_add_end al)))"

text \<open>
  A loop that only ends when its body fails. The loop of \<^verbatim>\<open>builder_add_object\<close> over a table is one:
  it does not call \<^verbatim>\<open>ht_iter_next\<close>, so it writes the first entry again and again.
\<close>

partial_function (option) repeat_until_fail ::
    "('s \<Rightarrow> (int \<times> 's) res) \<Rightarrow> 's \<Rightarrow> (int \<times> 's) res option" where
  "repeat_until_fail f s = (case f s of
     Inl e \<Rightarrow> Some (Inl e)
   | Inr (r, s') \<Rightarrow> if r = - 1 then Some (Inr (- 1, s')) else repeat_until_fail f s')"

text \<open>
  \<^verbatim>\<open>builder_add_object\<close>, for objects nested less than \<^term>\<open>n\<close> deep.
\<close>

fun builder_add_object :: "fmt_double \<Rightarrow> allocator \<Rightarrow> nat \<Rightarrow> object \<Rightarrow> builder \<Rightarrow> (int \<times> builder) res" where
  "builder_add_object fmt_g al 0 obj b = Inl Out_of_fuel"
| "builder_add_object fmt_g al (Suc n) obj b = (case obj of
     Null \<Rightarrow> builder_add_none al b
   | Int_o num \<Rightarrow> builder_add_int al num b
   | Double dbl \<Rightarrow> builder_add_double fmt_g al dbl b
   | Bool boolean \<Rightarrow> builder_add_boolean al boolean b
   | String s \<Rightarrow> builder_add_string al (vstr_data s) (vstr_len s) b
   | Array v \<Rightarrow>
       (let iter = vec_iter_new v in
        then_if (builder_add_array al (vec_len v) b) (\<lambda>b.
          res_bind (vec_iter_loop (vec_cap v + 1)
              (\<lambda>cur b. res_bind (builder_add_object fmt_g al n cur b) (\<lambda>(add_res, b). Inr (add_res \<noteq> - 1, b)))
              iter b)
            (\<lambda>(finished, b). Inr (if finished then 0 else - 1, b))))
   | Ht h \<Rightarrow>
       res_bind (ht_iter_new h) (\<lambda>iter.
        then_if (builder_add_ht al (ht_num_entries h) b) (\<lambda>b.
          case hit_cur iter of
            None \<Rightarrow> Inr (0, b)
          | Some (slot, j) \<Rightarrow>
              (let (key, value) = ht_entries h ! slot ! j in
               case repeat_until_fail (\<lambda>b. then_if (builder_add_object fmt_g al n key b)
                                            (\<lambda>b. builder_add_object fmt_g al n value b)) b of
                 None \<Rightarrow> Inl Diverges
               | Some r \<Rightarrow> r))))"

definition builder_reset :: "builder \<Rightarrow> builder" where
  "builder_reset b = vstr_reset b"

definition builder_free :: "builder \<Rightarrow> builder" where
  "builder_free b = vstr_free b"

section \<open>The error texts\<close>

record err_reply =
  err_str :: string
  err_len :: nat

definition err_unauthed :: err_reply where
  "err_unauthed = \<lparr>err_str = ''EUNAUTHED'', err_len = 9\<rparr>"

definition err_invalid_command :: err_reply where
  "err_invalid_command = \<lparr>err_str = ''EINVCMD'', err_len = 7\<rparr>"

definition err_bad_auth :: err_reply where
  "err_bad_auth = \<lparr>err_str = ''EBADAUTH'', err_len = 8\<rparr>"

definition err_invalid_key :: err_reply where
  "err_invalid_key = \<lparr>err_str = ''EINVKEY'', err_len = 7\<rparr>"

definition err_oom :: err_reply where
  "err_oom = \<lparr>err_str = ''EOOM'', err_len = 4\<rparr>"

definition err_dbrange :: err_reply where
  "err_dbrange = \<lparr>err_str = ''EDBRANGE'', err_len = 8\<rparr>"

lemmas err_reply_defs = err_unauthed_def err_invalid_command_def err_bad_auth_def err_invalid_key_def
  err_oom_def err_dbrange_def

section \<open>The encoding\<close>

text \<open>What the protocol means a value to look like on the wire.\<close>

fun enc :: "fmt_double \<Rightarrow> avalue \<Rightarrow> string" where
  "enc g VNull = ''+NONE'' @ CRLF"
| "enc g (VInt z) = '':'' @ fmt_ld z @ CRLF"
| "enc g (VDouble d) = '','' @ g d @ CRLF"
| "enc g (VBool b) = ''#'' @ (if b then ''t'' else ''f'') @ CRLF"
| "enc g (VStr s) = ''$'' @ fmt_lu (length s) @ CRLF @ s @ CRLF"
| "enc g (VArr vs) = ''*'' @ fmt_lu (length vs) @ CRLF @ concat (map (enc g) vs)"
| "enc g (VHt es) = ''%'' @ fmt_lu (length es) @ CRLF @ concat (map (\<lambda>(k, v). enc g k @ enc g v) es)"

text \<open>
  What is used of the conversion \<^verbatim>\<open>%g\<close>: its text is not empty, short (at most six digits, a sign, a
  point and an exponent), and has no control characters.
\<close>

definition fmt_g_ok :: "fmt_double \<Rightarrow> bool" where
  "fmt_g_ok g \<longleftrightarrow> (\<forall>d. g d \<noteq> [] \<and> length (g d) \<le> 22 \<and> CR \<notin> set (g d) \<and> NUL \<notin> set (g d))"

text \<open>
  The objects the builder can send: strings with a buffer, arrays that are not empty, tables
  without entries.
\<close>

lemma size_Array_mem [termination_simp]:
  "x \<in> set (vec_list v) \<Longrightarrow> size x < Suc (size_vec size v)"
  using size_vec_mem [of x v size] by (auto simp: vec_list_def dest: in_set_takeD)

fun sendable :: "object \<Rightarrow> bool" where
  "sendable (String s) \<longleftrightarrow> vstr_live s"
| "sendable (Array v) \<longleftrightarrow> vec_wf v \<and> vec_list v \<noteq> [] \<and> vec_len v + 2 < 2 ^ 64 \<and>
     (\<forall>x \<in> set (vec_list v). sendable x)"
| "sendable (Ht h) \<longleftrightarrow> ht_shape h \<and> ht_num_entries h = 0 \<and> concat (ht_entries h) = []"
| "sendable _ \<longleftrightarrow> True"

section \<open>What a step writes\<close>

definition adds :: "(builder \<Rightarrow> (int \<times> builder) res) \<Rightarrow> string \<Rightarrow> bool" where
  "adds f t \<longleftrightarrow> (\<forall>b. vstr_live b \<longrightarrow> length (vstr_str b) + length t \<le> VSTR_MAX_LARGE_SIZE \<longrightarrow>
     (\<exists>b'. f b = Inr (0, b') \<and> vstr_live b' \<and> vstr_str b' = vstr_str b @ t))"

lemma addsE:
  assumes "adds f t" "vstr_live b" "length (vstr_str b) + length t \<le> VSTR_MAX_LARGE_SIZE"
  obtains b' where "f b = Inr (0, b')" "vstr_live b'" "vstr_str b' = vstr_str b @ t"
  using assms by (auto simp: adds_def)

lemma adds_then:
  assumes "adds f s" "adds g t"
  shows "adds (\<lambda>b. then_if (f b) g) (s @ t)"
  unfolding adds_def
proof (intro allI impI)
  fix b
  assume b: "vstr_live b" "length (vstr_str b) + length (s @ t) \<le> VSTR_MAX_LARGE_SIZE"
  then have "length (vstr_str b) + length s \<le> VSTR_MAX_LARGE_SIZE" by simp
  with addsE [OF assms(1) b(1)] obtain b1 where
    b1: "f b = Inr (0, b1)" "vstr_live b1" "vstr_str b1 = vstr_str b @ s" by metis
  with b(2) have "length (vstr_str b1) + length t \<le> VSTR_MAX_LARGE_SIZE" by simp
  with addsE [OF assms(2) b1(2)] obtain b2 where
    "g b1 = Inr (0, b2)" "vstr_live b2" "vstr_str b2 = vstr_str b1 @ t" by metis
  with b1 show "\<exists>b'. then_if (f b) g = Inr (0, b') \<and> vstr_live b' \<and> vstr_str b' = vstr_str b @ s @ t"
    by (simp add: then_if_def)
qed

lemma adds_push_c: "alloc_total al \<Longrightarrow> adds (push_c al c) [c]"
  using vs.push_char_law by (simp add: adds_def push_c_def)

lemma adds_push_s: "alloc_total al \<Longrightarrow> n \<le> length str \<Longrightarrow> adds (push_s al str n) (take n str)"
  using vs.push_str_law by (simp add: adds_def push_s_def)

lemma adds_end: "alloc_total al \<Longrightarrow> adds (builder_add_end al) CRLF"
  using adds_then [OF adds_push_c adds_push_c, of al al CR LF] by (simp add: builder_add_end_def [abs_def])

text \<open>A step that first formats a text: if the text is part of what is written, it is short enough.\<close>

lemma adds_format:
  assumes "alloc_total al" "out \<noteq> []" "length out < length t"
    and "\<And>s. vstr_clean s \<Longrightarrow> vstr_str s = out \<Longrightarrow> adds (f s) t"
  shows "adds (\<lambda>b. res_bind (vstr_format al out) (\<lambda>s. f s b)) t"
  unfolding adds_def
proof (intro allI impI)
  fix b
  assume b: "vstr_live b" "length (vstr_str b) + length t \<le> VSTR_MAX_LARGE_SIZE"
  then have "length out < VSTR_MAX_LARGE_SIZE" using assms(3) by simp
  with vstr_format_total [OF assms(1,2)] obtain s where
    s: "vstr_format al out = Inr s" "vstr_clean s" "vstr_str s = out" by metis
  from addsE [OF assms(4) [OF s(2,3)] b] obtain b' where
    "f s b = Inr (0, b')" "vstr_live b'" "vstr_str b' = vstr_str b @ t" .
  with s(1) show "\<exists>b'. res_bind (vstr_format al out) (\<lambda>s. f s b) = Inr (0, b') \<and> vstr_live b' \<and>
      vstr_str b' = vstr_str b @ t" by simp
qed

lemma adds_push_vstr:
  assumes "alloc_total al" "vstr_live s"
  shows "adds (push_s al (vstr_data s) (vstr_len s)) (vstr_str s)"
  using adds_push_s [OF assms(1), of "vstr_len s" "vstr_data s"] vstr_len_le_data [of s] assms(2)
  by (simp add: vstr_live_wf vstr_str_def)

text \<open>The common form of the operations: a type byte, a formatted text, the end of the line.\<close>

lemma adds_line:
  assumes "alloc_total al" "out \<noteq> []"
  shows "adds (\<lambda>b. res_bind (vstr_format al out) (\<lambda>s.
      then_if (push_c al c b) (\<lambda>b. then_if (push_s al (vstr_data s) (vstr_len s) b) (builder_add_end al))))
    (c # out @ CRLF)"
proof (rule adds_format [OF assms])
  fix s
  assume s: "vstr_clean s" "vstr_str s = out"
  from adds_then [OF adds_push_c [OF assms(1), of c]
      adds_then [OF adds_push_vstr [OF assms(1) vstr_clean_live [OF s(1)]] adds_end [OF assms(1)]]]
  show "adds (\<lambda>b. then_if (push_c al c b)
      (\<lambda>b. then_if (push_s al (vstr_data s) (vstr_len s) b) (builder_add_end al))) (c # out @ CRLF)"
    by (simp add: s(2))
qed simp

lemma fmt_ld_not_Nil [simp]: "fmt_ld z \<noteq> []"
  by (simp add: fmt_ld_def)

lemma adds_array: "alloc_total al \<Longrightarrow> adds (builder_add_array al n) (''*'' @ fmt_lu n @ CRLF)"
  using adds_line [of al "fmt_lu n" "CHR ''*''"] by (simp add: builder_add_array_def [abs_def] Let_def)

lemma adds_ht: "alloc_total al \<Longrightarrow> adds (builder_add_ht al n) (''%'' @ fmt_lu n @ CRLF)"
  using adds_line [of al "fmt_lu n" "CHR ''%''"] by (simp add: builder_add_ht_def [abs_def])

lemma adds_int: "alloc_total al \<Longrightarrow> adds (builder_add_int al n) ('':'' @ fmt_ld (sint n) @ CRLF)"
  using adds_line [of al "fmt_ld (sint n)" "CHR '':''"] by (simp add: builder_add_int_def [abs_def])

lemma adds_double:
  "alloc_total al \<Longrightarrow> fmt_g_ok g \<Longrightarrow> adds (builder_add_double g al d) ('','' @ g d @ CRLF)"
  using adds_line [of al "g d" "CHR '',''"] by (simp add: builder_add_double_def [abs_def] fmt_g_ok_def)

lemma adds_simple:
  assumes "alloc_total al"
  shows "adds (builder_add_ok al) (''+OK'' @ CRLF)" "adds (builder_add_ping al) (''+PING'' @ CRLF)"
    "adds (builder_add_pong al) (''+PONG'' @ CRLF)" "adds (builder_add_none al) (''+NONE'' @ CRLF)"
  using adds_push_s [OF assms, of 5 "''+OK'' @ CRLF"] adds_push_s [OF assms, of 7 "''+PING'' @ CRLF"]
    adds_push_s [OF assms, of 7 "''+PONG'' @ CRLF"] adds_push_s [OF assms, of 7 "''+NONE'' @ CRLF"]
  by (simp_all add: builder_add_ok_def [abs_def] builder_add_ping_def [abs_def]
      builder_add_pong_def [abs_def] builder_add_none_def [abs_def])

lemma adds_err:
  assumes "alloc_total al" "n = length str"
  shows "adds (builder_add_err al str n) (''-'' @ str @ CRLF)"
  using adds_then [OF adds_push_c [OF assms(1), of "CHR ''-''"]
      adds_then [OF adds_push_s [OF assms(1), of n str] adds_end [OF assms(1)]]] assms(2)
  by (simp add: builder_add_err_def [abs_def])

lemma adds_boolean:
  assumes "alloc_total al"
  shows "adds (builder_add_boolean al b) (''#'' @ (if b \<noteq> 0 then ''t'' else ''f'') @ CRLF)"
  using adds_then [OF adds_push_c [OF assms, of "CHR ''#''"]
      adds_then [OF adds_push_c [OF assms, of "if b \<noteq> 0 then CHR ''t'' else CHR ''f''"] adds_end [OF assms]]]
  by (simp add: builder_add_boolean_def [abs_def] split: if_splits)

lemma adds_string:
  assumes "alloc_total al" "n \<le> length str"
  shows "adds (builder_add_string al str n) (''$'' @ fmt_lu n @ CRLF @ take n str @ CRLF)"
proof -
  note e = adds_end [OF assms(1)]
  have "adds (\<lambda>b. res_bind (vstr_format al (fmt_lu n)) (\<lambda>s.
      then_if (push_s al (vstr_data s) (vstr_len s) b) (\<lambda>b. then_if (builder_add_end al b)
        (\<lambda>b. then_if (push_s al str n b) (builder_add_end al)))))
     (fmt_lu n @ CRLF @ take n str @ CRLF)"
  proof (rule adds_format [OF assms(1)])
    fix s
    assume s: "vstr_clean s" "vstr_str s = fmt_lu n"
    show "adds (\<lambda>b. then_if (push_s al (vstr_data s) (vstr_len s) b) (\<lambda>b. then_if (builder_add_end al b)
        (\<lambda>b. then_if (push_s al str n b) (builder_add_end al)))) (fmt_lu n @ CRLF @ take n str @ CRLF)"
      using adds_push_vstr [OF assms(1) vstr_clean_live [OF s(1)]] s(2)
      by (intro adds_then e adds_push_s assms) simp_all
  qed simp_all
  from adds_then [OF adds_push_c [OF assms(1)] this, of "CHR ''$''"] show ?thesis
    by (simp add: builder_add_string_def [abs_def])
qed

section \<open>What an object writes\<close>

lemma run_body_adds:
  assumes "\<And>x. x \<in> set xs \<Longrightarrow> adds (f x) (e x)" "vstr_live b"
    "length (vstr_str b) + length (concat (map e xs)) \<le> VSTR_MAX_LARGE_SIZE"
  shows "\<exists>b'. run_body (\<lambda>x b. res_bind (f x b) (\<lambda>(r, b). Inr (r \<noteq> - 1, b))) xs b = Inr (True, b') \<and>
    vstr_live b' \<and> vstr_str b' = vstr_str b @ concat (map e xs)"
  using assms
proof (induction xs arbitrary: b)
  case Nil
  then show ?case by simp
next
  case (Cons x xs)
  have "adds (f x) (e x)" "length (vstr_str b) + length (e x) \<le> VSTR_MAX_LARGE_SIZE"
    using Cons.prems(1,3) by simp_all
  from addsE [OF this(1) Cons.prems(2) this(2)] obtain b1 where
    b1: "f x b = Inr (0, b1)" "vstr_live b1" "vstr_str b1 = vstr_str b @ e x" .
  with Cons.IH [of b1] Cons.prems(1,3) show ?case by simp
qed

lemma empty_ht_iter:
  assumes "ht_shape h" "concat (ht_entries h) = []"
  obtains it where "ht_iter_new h = Inr it" "hit_cur it = None"
proof -
  from assms(1) ht_iter_new_ok [of h] obtain it where
    it: "ht_iter_new h = Inr it" "place_ok (ht_entries h) (hit_cur it)"
      "chain_rest (ht_entries h) (hit_cur it) = concat (ht_entries h)" by (metis ht_shape_def)
  have "ht_entries h ! i = []" if "i < length (ht_entries h)" for i
    using assms(2) nth_mem [OF that] by simp
  with it(2) have "hit_cur it = None" by (cases "hit_cur it") auto
  with it(1) that show thesis by blast
qed

text \<open>The builder writes the encoding of the value of the object.\<close>

lemma builder_add_object_adds:
  assumes "sendable obj" "size obj < n" "alloc_total al" "fmt_g_ok g"
  shows "adds (builder_add_object g al n obj) (enc g (obj_value obj))"
  using assms
proof (induction n arbitrary: obj)
  case 0
  then show ?case by simp
next
  case (Suc n)
  note al = Suc.prems(3) and g = Suc.prems(4)
  show ?case
  proof (cases obj)
    case (String s)
    with Suc.prems(1) have "vstr_live s" by simp
    with adds_string [OF al, of "vstr_len s" "vstr_data s"] vstr_len_le_data [of s] String show ?thesis
      by (simp add: adds_def vstr_str_def [symmetric] vstr_live_wf)
  next
    case (Array v)
    with Suc.prems(1) have v: "vec_wf v" "vec_list v \<noteq> []" "vec_len v + 2 < 2 ^ 64"
      "\<forall>x \<in> set (vec_list v). sendable x" by simp_all
    define body where "body = (\<lambda>cur b. res_bind (builder_add_object g al n cur b) (\<lambda>(r, b). Inr (r \<noteq> - 1, b)))"
    have loop: "vec_iter_loop (Suc (vec_cap v)) body (vec_iter_new v) b = run_body body (vec_list v) b" for b
      using v by (intro vec_iter_loop_visits) simp_all
    have each: "adds (builder_add_object g al n x) (enc g (obj_value x))" if "x \<in> set (vec_list v)" for x
      using that v(4) Suc.IH [of x] size_Array_mem [OF that] Suc.prems(2) al g Array by simp
    have "adds (\<lambda>b. res_bind (run_body body (vec_list v) b) (\<lambda>(fin, b). Inr (if fin then 0 else - 1, b)))
        (concat (map (\<lambda>x. enc g (obj_value x)) (vec_list v)))"
      unfolding adds_def body_def using run_body_adds [OF each, of "vec_list v"] by fastforce
    from adds_then [OF adds_array [OF al, of "vec_len v"] this] Array v(1) show ?thesis
      by (simp add: adds_def body_def [symmetric] loop comp_def Let_def del: vec_iter_loop.simps)
  next
    case (Ht h)
    with Suc.prems(1) obtain it where it: "ht_iter_new h = Inr it" "hit_cur it = None"
      using empty_ht_iter [of h] by auto
    have c: "concat (ht_entries h) = []" "ht_num_entries h = 0" using Ht Suc.prems(1) by simp_all
    have "adds (\<lambda>b. Inr (0, b)) []" by (simp add: adds_def)
    from adds_then [OF adds_ht [OF al, of "ht_num_entries h"] this] it Ht show ?thesis
      by (simp add: adds_def c del: concat_eq_Nil_conv)
  qed (use al g adds_simple(4) adds_int adds_double adds_boolean in \<open>simp_all add: adds_def\<close>)
qed

section \<open>What it cannot send\<close>

text \<open>A loop that only ends by failure does not succeed.\<close>

lemma repeat_until_fail_result:
  assumes "repeat_until_fail f s = Some r"
  shows "r \<noteq> Inr (0, s')"
proof -
  have "\<forall>s'. r \<noteq> Inr (0, s')"
    by (rule repeat_until_fail.raw_induct [where P = "\<lambda>f s r. \<forall>s'. r \<noteq> Inr (0, s')", OF _ assms])
      (auto split: sum.splits prod.splits if_splits)
  then show ?thesis by blast
qed

lemma nonempty_ht_iter:
  assumes "ht_shape h" "concat (ht_entries h) \<noteq> []"
  obtains it slot j where "ht_iter_new h = Inr it" "hit_cur it = Some (slot, j)"
proof -
  from assms(1) ht_iter_new_ok [of h] obtain it where
    it: "ht_iter_new h = Inr it" "chain_rest (ht_entries h) (hit_cur it) = concat (ht_entries h)"
    by (metis ht_shape_def)
  with assms(2) show thesis using that by (cases "hit_cur it") auto
qed

section \<open>Properties\<close>

text \<open>
  C17. The builder refines the encoding of the protocol: for every object it can send
  (arbitrarily nested, no empty array, no table with entries) it returns 0 and appends exactly
  the encoding of the object's value to the message.
\<close>

theorem builder_sends_value:
  assumes "sendable obj" "size obj < n" "alloc_total al" "fmt_g_ok g" "vstr_live b"
    and "length (vstr_str b) + length (enc g (obj_value obj)) \<le> VSTR_MAX_LARGE_SIZE"
  shows "\<exists>b'. builder_add_object g al n obj b = Inr (0, b') \<and> vstr_live b' \<and>
    vstr_str b' = vstr_str b @ enc g (obj_value obj)"
  using builder_add_object_adds [OF assms(1-4)] assms(5,6) by (simp add: adds_def)

theorem builder_sends_value_witness:
  "\<exists>b'. builder_add_object (\<lambda>_. ''1'') (\<lambda>_. 4096) 50
      (Array (Vec 4096 2 2 64 [Int_o 7, String (vstr_from (\<lambda>_. 4096) ''a'')])) builder_new = Inr (0, b') \<and>
    vstr_live b' \<and> vstr_str b' = vstr_str builder_new @ enc (\<lambda>_. ''1'')
      (obj_value (Array (Vec 4096 2 2 64 [Int_o 7, String (vstr_from (\<lambda>_. 4096) ''a'')])))"
proof (rule builder_sends_value)
  let ?s = "vstr_from (\<lambda>_. 4096) ''a''"
  have s: "vstr_live ?s" "vstr_str ?s = ''a''"
    by (simp_all add: vstr_from_def strlen_def c_str_def vstr_views)
  show "sendable (Array (Vec 4096 2 2 64 [Int_o 7, String ?s]))"
    using s by (simp add: vec_wf_def vec_list_def)
  show "length (vstr_str builder_new) + length (enc (\<lambda>_. ''1'') (obj_value
      (Array (Vec 4096 2 2 64 [Int_o 7, String ?s])))) \<le> VSTR_MAX_LARGE_SIZE"
    using s by (simp add: builder_new_def vec_list_def fmt_ld_def fmt_lu.simps VSTR_MAX_LARGE_SIZE_def)
  show "vstr_live builder_new" by (simp add: builder_new_def)
  show "fmt_g_ok (\<lambda>_. ''1'')" by (simp add: fmt_g_ok_def)
qed (simp_all add: vstr_from_def strlen_def c_str_def)

text \<open>
  C40. A table with entries is never sent: the loop over it does not advance its iterator, so
  \<^verbatim>\<open>builder_add_object\<close> either does not return or returns after a push has failed, never with 0.
\<close>

theorem builder_table_never_sent:
  assumes "ht_shape h" "concat (ht_entries h) \<noteq> []"
  shows "builder_add_object g al n (Ht h) b \<noteq> Inr (0, b')"
proof (cases n)
  case 0
  then show ?thesis by simp
next
  case (Suc m)
  from nonempty_ht_iter [OF assms] obtain it slot j where
    "ht_iter_new h = Inr it" "hit_cur it = Some (slot, j)" .
  with Suc show ?thesis
    by (auto simp: then_if_def res_bind_Inr Let_def dest: repeat_until_fail_result
        split: prod.splits option.splits if_splits)
qed

theorem builder_table_never_sent_witness:
  "builder_add_object (\<lambda>_. ''1'') (\<lambda>_. 4096) 9
     (Ht (Ht_struct 1 1 64 True (replicate 16 NUL) 4096 [[(Int_o 1, Int_o 2)]])) builder_new
     \<noteq> Inr (0, builder_new)"
  by (rule builder_table_never_sent) (simp_all add: ht_shape_def)

text \<open>
  An array that has just been created (empty, the slots zero) is not sent: after the length
  the builder writes the unused slots as \<^verbatim>\<open>+NONE\<close> and then reads past the end of the vector.
\<close>

theorem builder_empty_array_out_of_bounds:
  assumes "alloc_total al" "vec_new al Null sizeof_object = Some v" "vstr_live b"
    "length (vstr_str b) < 100"
  shows "builder_add_object g al (Suc (Suc n)) (Array v) b = Inl Out_of_bounds"
proof -
  define body where "body = (\<lambda>cur b. res_bind (builder_add_object g al (Suc n) cur b)
    (\<lambda>(r, b). Inr (r \<noteq> - 1, b)))"
  have v: "vec_len v = 0" "vec_cap v = 2" "vec_data v = [Null, Null]"
    using assms(1,2) by (auto simp: vec_new_def Let_def numeral_2_eq_2)
  have loop: "vec_iter_loop (Suc (vec_cap v)) body (vec_iter_new v) t =
      res_bind (run_body body [Null, Null] t) (\<lambda>(go, s'). if go then Inl Out_of_bounds else Inr (False, s'))" for t
    using vec_iter_loop_oob [of "- 1" 0 v "Suc (vec_cap v)" body t] v by (simp add: vec_iter_new_at)
  have m: "100 + 30 \<le> VSTR_MAX_LARGE_SIZE" by (simp add: VSTR_MAX_LARGE_SIZE_def)
  have f: "length (fmt_lu 0) = 1" by (simp add: fmt_lu.simps)
  have "length (vstr_str b) + length (''*'' @ fmt_lu 0 @ CRLF) \<le> VSTR_MAX_LARGE_SIZE"
    using assms(4) m f by simp
  from addsE [OF adds_array [OF assms(1), of 0] assms(3) this] obtain b1 where
    b1: "builder_add_array al 0 b = Inr (0, b1)" "vstr_live b1" "vstr_str b1 = vstr_str b @ ''*'' @ fmt_lu 0 @ CRLF" .
  have "\<exists>b'. run_body body [Null, Null] b1 = Inr (True, b') \<and> vstr_live b' \<and>
      vstr_str b' = vstr_str b1 @ concat (map (\<lambda>_. ''+NONE'' @ CRLF) [Null, Null])"
    unfolding body_def using b1(2,3) m f assms(4) adds_simple(4) [OF assms(1)]
    by (intro run_body_adds) (auto simp: adds_def)
  moreover have "builder_add_object g al (Suc (Suc n)) (Array v) b =
      then_if (builder_add_array al 0 b) (\<lambda>b. res_bind
        (vec_iter_loop (Suc (vec_cap v)) body (vec_iter_new v) b) (\<lambda>(fin, b). Inr (if fin then 0 else - 1, b)))"
    by (subst builder_add_object.simps(2))
      (simp add: v(1) body_def Let_def del: builder_add_object.simps vec_iter_loop.simps)
  ultimately show ?thesis
    using b1(1) by (auto simp: then_if_def loop simp del: builder_add_object.simps run_body.simps vec_iter_loop.simps)
qed

theorem builder_empty_array_out_of_bounds_witness:
  "builder_add_object (\<lambda>_. ''1'') (\<lambda>_. 4096) (Suc (Suc 0)) (Array (Vec 4096 0 2 64 [Null, Null])) builder_new
     = Inl Out_of_bounds"
proof (rule builder_empty_array_out_of_bounds)
  have "replicate 2 Null = [Null, Null]" by (simp add: numeral_2_eq_2)
  then show "vec_new (\<lambda>_. 4096) Null sizeof_object = Some (Vec 4096 0 2 64 [Null, Null])"
    by (simp add: vec_new_def)
qed (simp_all add: builder_new_def)

end
