(* ===== verification/Parser.thy ===== *)
theory Parser
  imports Builder
begin

text \<open>
  The parser of the wire protocol (\<^verbatim>\<open>src/src/parser.c\<close>, with the command types of \<^verbatim>\<open>src/src/cmd.h\<close>).
  The theory holds one definition per function (the repeated reading of a length and of a single
  argument as definitions of their own), the proof that it ends on every input but one form of
  double, and the round trips with the encoding of values.
\<close>

section \<open>Data\<close>

record parser =
  p_input :: string
  p_input_len :: nat
  p_pos :: nat
  p_ch :: byte

datatype cmdt = Illegal | Okc | Auth | Ping | Infoc | Select | Help | Keys | Set | Get | Del | Push | Pop
  | Enque | Deque | ZSet | ZHas | ZDel

text \<open>The union of the argument structs: \<^verbatim>\<open>auth_cmd\<close>, \<^verbatim>\<open>kv_cmd\<close>, \<^verbatim>\<open>k_cmd\<close>, \<^verbatim>\<open>v_cmd\<close> and \<^verbatim>\<open>help_cmd\<close>.\<close>

datatype cmd_data =
    No_data
  | Auth_data (auth_username: object) (auth_password: object)
  | KV_data (kv_key: object) (kv_value: object)
  | K_data (k_key: object)
  | V_data (v_value: object)
  | Help_data (wants_cmd_help: bool) (cmd_to_help: cmdt)

record cmd =
  cmd_type :: cmdt
  cmd_data :: cmd_data

text \<open>\<^verbatim>\<open>cmd cmd = {0}\<close>: the type is \<^verbatim>\<open>Illegal\<close>.\<close>

definition cmd_zero :: cmd where
  "cmd_zero = \<lparr>cmd_type = Illegal, cmd_data = No_data\<rparr>"

text \<open>
  What the parser takes from its surroundings: the allocator, the random bytes for a new table,
  the address of its comparison function, \<^verbatim>\<open>strtod\<close>, and \<^verbatim>\<open>strtold\<close> (converted to \<^verbatim>\<open>int64_t\<close>) on texts
  that are not a plain decimal integer.
\<close>

record env =
  e_al :: allocator
  e_random :: string
  e_cmp :: addr
  e_strtod :: "string \<Rightarrow> 64 word"
  e_strtold :: "string \<Rightarrow> 64 word"

section \<open>Reading bytes\<close>

definition parser_read_char :: "parser \<Rightarrow> parser" where
  "parser_read_char p =
     (if p_pos p \<ge> p_input_len p then p\<lparr>p_ch := NUL\<rparr>
      else p\<lparr>p_ch := p_input p ! p_pos p, p_pos := p_pos p + 1\<rparr>)"

definition peek_byte :: "parser \<Rightarrow> byte" where
  "peek_byte p = (if p_pos p \<ge> p_input_len p then NUL else p_input p ! p_pos p)"

definition parser_new :: "string \<Rightarrow> nat \<Rightarrow> parser" where
  "parser_new input input_len =
     parser_read_char \<lparr>p_input = input, p_input_len = input_len, p_pos = 0, p_ch = NUL\<rparr>"

definition cur_byte_is :: "parser \<Rightarrow> byte \<Rightarrow> bool" where
  "cur_byte_is p byte \<longleftrightarrow> p_ch p = byte"

definition peek_byte_is :: "parser \<Rightarrow> byte \<Rightarrow> bool" where
  "peek_byte_is p byte \<longleftrightarrow> peek_byte p = byte"

definition expect_peek_byte :: "parser \<Rightarrow> byte \<Rightarrow> bool \<times> parser" where
  "expect_peek_byte p byte =
     (if peek_byte_is p byte then (True, parser_read_char p) else (False, p))"

definition expect_peek_byte_to_be_num :: "parser \<Rightarrow> bool \<times> parser" where
  "expect_peek_byte_to_be_num p =
     (if isdigit (peek_byte p) then (True, parser_read_char p) else (False, p))"

text \<open>The unread bytes, and what is left to read: it bounds the loops.\<close>

definition p_rest :: "parser \<Rightarrow> string" where
  "p_rest p = drop (p_pos p) (take (p_input_len p) (p_input p))"

definition p_left :: "parser \<Rightarrow> nat" where
  "p_left p = (p_input_len p - p_pos p) + (if p_ch p = NUL then 0 else 1)"

lemma p_left_read: "p_ch p \<noteq> NUL \<Longrightarrow> p_left (parser_read_char p) < p_left p"
  by (auto simp: p_left_def parser_read_char_def)

section \<open>Loops\<close>

text \<open>
  \<^verbatim>\<open>while (p->ch != '\r' && p->ch != 0)\<close>: push the byte and read the next. The return code of the
  push is not looked at.
\<close>

function parse_line_loop :: "allocator \<Rightarrow> parser \<Rightarrow> vstr \<Rightarrow> vstr \<times> parser" where
  "parse_line_loop al p s =
     (if p_ch p \<noteq> CR \<and> p_ch p \<noteq> NUL
      then parse_line_loop al (parser_read_char p) (snd (vstr_push_char al s (p_ch p)))
      else (s, p))"
  by pat_completeness auto

termination
  by (relation "measure (\<lambda>(al, p, s). p_left p)") (auto simp: p_left_read)

declare parse_line_loop.simps [simp del]

text \<open>\<^verbatim>\<open>while (isdigit(p->ch))\<close>, on 64-bit numbers: a longer number wraps.\<close>

function parse_len_loop :: "parser \<Rightarrow> 64 word \<Rightarrow> 64 word \<times> parser" where
  "parse_len_loop p res =
     (if isdigit (p_ch p)
      then parse_len_loop (parser_read_char p) (res * 10 + of_nat (digit_val (p_ch p)))
      else (res, p))"
  by pat_completeness auto

termination
  by (relation "measure (\<lambda>(p, res). p_left p)") (auto intro: p_left_read)

declare parse_len_loop.simps [simp del]

definition parse_len :: "parser \<Rightarrow> 64 word \<times> parser" where
  "parse_len p = parse_len_loop p 0"

fun parse_string_loop :: "allocator \<Rightarrow> nat \<Rightarrow> parser \<Rightarrow> vstr \<Rightarrow> vstr \<times> parser" where
  "parse_string_loop al 0 p s = (s, p)"
| "parse_string_loop al (Suc i) p s =
     parse_string_loop al i (parser_read_char p) (snd (vstr_push_char al s (p_ch p)))"

definition parse_string :: "allocator \<Rightarrow> parser \<Rightarrow> 64 word \<Rightarrow> (vstr \<times> parser) res" where
  "parse_string al p len =
     res_bind (vstr_new_len al (unat (len + 1))) (\<lambda>s. Inr (parse_string_loop al (unat len) p s))"

text \<open>
  \<^verbatim>\<open>while (p->ch != '\r')\<close>: this loop does not stop at the end of the input.
\<close>

partial_function (option) parse_double_loop :: "allocator \<Rightarrow> parser \<Rightarrow> vstr \<Rightarrow> (vstr \<times> parser) option" where
  "parse_double_loop al p s =
     (if p_ch p \<noteq> CR
      then parse_double_loop al (parser_read_char p) (snd (vstr_push_char al s (p_ch p)))
      else Some (s, p))"

section \<open>Numbers\<close>

text \<open>
  \<^verbatim>\<open>strtold\<close> with the conversion to \<^verbatim>\<open>int64_t\<close>. A plain decimal integer in the range of the type is
  exact (the significand of \<^verbatim>\<open>long double\<close> has 64 bits); outside the range the conversion gives the
  smallest value, which is what the target does. Other texts are left to the library.
\<close>

definition is_dec_int :: "string \<Rightarrow> bool" where
  "is_dec_int s \<longleftrightarrow> (case s of
     [] \<Rightarrow> False
   | c # cs \<Rightarrow> (if c = CHR ''-'' then cs \<noteq> [] \<and> list_all isdigit cs else list_all isdigit s))"

definition dec_int :: "string \<Rightarrow> int" where
  "dec_int s = (case s of
     [] \<Rightarrow> 0
   | c # cs \<Rightarrow> (if c = CHR ''-'' then - int (dec_value cs) else int (dec_value s)))"

definition strtold_int :: "env \<Rightarrow> string \<Rightarrow> 64 word" where
  "strtold_int E s =
     (if is_dec_int s then
        if - (2 ^ 63) \<le> dec_int s \<and> dec_int s < 2 ^ 63 then of_int (dec_int s) else of_int (- (2 ^ 63))
      else e_strtold E s)"

definition parse_integer :: "env \<Rightarrow> parser \<Rightarrow> 64 word \<times> parser" where
  "parse_integer E p =
     (let (int_str, p) = parse_line_loop (e_al E) (parser_read_char p) vstr_new in
      (strtold_int E (c_str (vstr_data int_str)), p))"

definition parse_double :: "env \<Rightarrow> parser \<Rightarrow> (64 word \<times> parser) res" where
  "parse_double E p =
     (case parse_double_loop (e_al E) (parser_read_char p) vstr_new of
        None \<Rightarrow> Inl Diverges
      | Some (number_string, p) \<Rightarrow> Inr (e_strtod E (c_str (vstr_data number_string)), p))"

section \<open>Simple strings\<close>

text \<open>The end of \<^verbatim>\<open>parse_simple_string\<close> and \<^verbatim>\<open>parse_error\<close>: without CR LF the string is freed.\<close>

definition finish_line :: "vstr \<times> parser \<Rightarrow> vstr \<times> parser" where
  "finish_line sp = (case sp of (s, p) \<Rightarrow>
     if \<not> cur_byte_is p CR then (vstr_free s, p)
     else (let (ok, p) = expect_peek_byte p LF in if \<not> ok then (vstr_free s, p) else (s, p)))"

definition parse_simple_string :: "allocator \<Rightarrow> parser \<Rightarrow> (vstr \<times> parser) res" where
  "parse_simple_string al p =
     res_bind (vstr_new_len al 5) (\<lambda>s. Inr (finish_line (parse_line_loop al (parser_read_char p) s)))"

definition parse_error :: "allocator \<Rightarrow> parser \<Rightarrow> vstr \<times> parser" where
  "parse_error al p = finish_line (parse_line_loop al (parser_read_char p) vstr_new)"

section \<open>Objects\<close>

text \<open>
  The header of strings, arrays and tables: digits, CR, LF; \<^term>\<open>None\<close> when one of the tests of
  the code fails.
\<close>

definition parse_header :: "parser \<Rightarrow> 64 word option \<times> parser" where
  "parse_header p =
     (let (num, p) = expect_peek_byte_to_be_num p in
      if \<not> num then (None, p)
      else
        let (len, p) = parse_len p in
        if \<not> cur_byte_is p CR then (None, p)
        else
          let (ok, p) = expect_peek_byte p LF in
          if \<not> ok then (None, p) else (Some len, p))"

fun repeat_n :: "nat \<Rightarrow> ('s \<Rightarrow> 's res) \<Rightarrow> 's \<Rightarrow> 's res" where
  "repeat_n 0 f s = Inr s"
| "repeat_n (Suc i) f s = res_bind (f s) (repeat_n i f)"

text \<open>
  \<^verbatim>\<open>parse_object\<close>, for values nested less than \<^term>\<open>n\<close> deep. The vector of an array is used without a
  test for \<^verbatim>\<open>NULL\<close>.
\<close>

fun parse_object :: "env \<Rightarrow> nat \<Rightarrow> parser \<Rightarrow> (object \<times> parser) res" where
  "parse_object E 0 p = Inl Out_of_fuel"
| "parse_object E (Suc n) p =
     (if p_ch p = CHR ''$'' then
        (case parse_header p of
           (None, p) \<Rightarrow> Inr (Null, p)
         | (Some len, p) \<Rightarrow>
             res_bind (parse_string (e_al E) (parser_read_char p) len) (\<lambda>(s, p).
               if \<not> cur_byte_is p CR then Inr (Null, p)
               else
                 let (ok, p) = expect_peek_byte p LF in
                 if \<not> ok then Inr (Null, p) else Inr (object_new (String s), parser_read_char p)))
      else if p_ch p = CHR '':'' then
        (let (val, p) = parse_integer E p in
         if \<not> cur_byte_is p CR then Inr (Null, p)
         else
           let (ok, p) = expect_peek_byte p LF in
           if \<not> ok then Inr (Null, p) else Inr (object_new (Int_o val), parser_read_char p))
      else if p_ch p = CHR '','' then
        res_bind (parse_double E p) (\<lambda>(val, p).
          if \<not> cur_byte_is p CR then Inr (Null, p)
          else
            let (ok, p) = expect_peek_byte p LF in
            if \<not> ok then Inr (Null, p) else Inr (object_new (Double val), parser_read_char p))
      else if p_ch p = CHR ''#'' then
        (let p = parser_read_char p in
         if p_ch p \<noteq> CHR ''t'' \<and> p_ch p \<noteq> CHR ''f'' then Inr (Null, p)
         else
           let boolean = (if p_ch p = CHR ''t'' then 1 else 0);
               (ok, p) = expect_peek_byte p CR in
           if \<not> ok then Inr (Null, p)
           else
             let (ok, p) = expect_peek_byte p LF in
             if \<not> ok then Inr (Null, p) else Inr (object_new (Bool boolean), parser_read_char p))
      else if p_ch p = CHR ''+'' then
        res_bind (parse_simple_string (e_al E) p) (\<lambda>(s, p).
          Inr (object_new (String s), parser_read_char p))
      else if p_ch p = CHR ''-'' then
        (let (s, p) = parse_error (e_al E) p in Inr (object_new (String s), parser_read_char p))
      else if p_ch p = CHR ''*'' then
        (case parse_header p of
           (None, p) \<Rightarrow> Inr (Null, p)
         | (Some len, p) \<Rightarrow>
             (case vec_new (e_al E) Null sizeof_object of
                None \<Rightarrow> Inl Null_deref
              | Some v \<Rightarrow>
                  res_bind (repeat_n (unat len) (\<lambda>(v, p). res_bind (parse_object E n p) (\<lambda>(cur, p).
                      Inr (snd (vec_push (e_al E) Null v cur), p))) (v, parser_read_char p))
                    (\<lambda>(v, p). Inr (Array v, p))))
      else if p_ch p = CHR ''%'' then
        (case parse_header p of
           (None, p) \<Rightarrow> Inr (Null, p)
         | (Some len, p) \<Rightarrow>
             res_bind (ht_new (e_al E) (e_random E) sizeof_object True) (\<lambda>h.
             res_bind (repeat_n (unat len) (\<lambda>(h, p). res_bind (parse_object E n p) (\<lambda>(key, p).
                 res_bind (parse_object E n p) (\<lambda>(value, p).
                 res_bind (ht_insert (object_keys (e_cmp E)) (e_al E) True True h key value)
                   (\<lambda>(_, _, h). Inr (h, p))))) (h, parser_read_char p))
               (\<lambda>(h, p). Inr (Ht h, p))))
      else Inr (Null, p))"

definition parse_from_server :: "env \<Rightarrow> string \<Rightarrow> nat \<Rightarrow> object res" where
  "parse_from_server E input input_len =
     res_bind (parse_object E (input_len + 2) (parser_new input input_len)) (\<lambda>(obj, p). Inr obj)"

section \<open>Commands\<close>

definition lookup :: "(string \<times> nat \<times> cmdt) list" where
  "lookup =
     [(''OK'', 2, Okc), (''SET'', 3, Set), (''GET'', 3, Get), (''DEL'', 3, Del), (''POP'', 3, Pop),
      (''HELP'', 4, Help), (''AUTH'', 4, Auth), (''PING'', 4, Ping), (''INFO'', 4, Infoc),
      (''KEYS'', 4, Keys), (''PUSH'', 4, Push), (''ZSET'', 4, ZSet), (''ZHAS'', 4, ZHas),
      (''ZDEL'', 4, ZDel), (''ENQUE'', 5, Enque), (''DEQUE'', 5, Deque), (''SELECT'', 6, Select)]"

fun lookup_from :: "(string \<times> nat \<times> cmdt) list \<Rightarrow> string \<Rightarrow> nat \<Rightarrow> cmdt" where
  "lookup_from [] s_data s_len = Illegal"
| "lookup_from ((cmd, cmd_len, type) # ls) s_data s_len =
     (if cmd_len \<noteq> s_len then lookup_from ls s_data s_len
      else if memcmp s_data cmd s_len = 0 then type
      else lookup_from ls s_data s_len)"

definition lookup_cmd :: "vstr \<Rightarrow> cmdt" where
  "lookup_cmd s = lookup_from lookup (vstr_data s) (vstr_len s)"

definition parse_simple_string_cmd :: "allocator \<Rightarrow> parser \<Rightarrow> (cmdt \<times> parser) res" where
  "parse_simple_string_cmd al p =
     res_bind (vstr_new_len al 5) (\<lambda>_.
     res_bind (parse_simple_string al p) (\<lambda>(s, p). Inr (lookup_cmd s, parser_read_char p)))"

definition parse_cmd_type :: "env \<Rightarrow> nat \<Rightarrow> parser \<Rightarrow> (cmdt \<times> parser) res" where
  "parse_cmd_type E n p =
     (if p_ch p = CHR ''$'' then
        res_bind (parse_object E n p) (\<lambda>(obj, p).
          case obj of String s \<Rightarrow> Inr (lookup_cmd s, p) | _ \<Rightarrow> Inr (Illegal, p))
      else if p_ch p = CHR ''+'' then parse_simple_string_cmd (e_al E) p
      else Inr (Illegal, p))"

definition parse_bulk_string_cmd :: "env \<Rightarrow> nat \<Rightarrow> parser \<Rightarrow> (cmdt \<times> parser) res" where
  "parse_bulk_string_cmd E n p = parse_cmd_type E n p"

text \<open>The branches of a command with one argument: the array has two elements and it is not null.\<close>

definition parse_one :: "env \<Rightarrow> nat \<Rightarrow> 64 word \<Rightarrow> parser \<Rightarrow> cmdt \<Rightarrow> (object \<Rightarrow> cmd_data) \<Rightarrow> cmd res" where
  "parse_one E n len p type data =
     (if len \<noteq> 2 then Inr cmd_zero
      else res_bind (parse_object E n p) (\<lambda>(value, p).
        if value = Null then Inr cmd_zero else Inr \<lparr>cmd_type = type, cmd_data = data value\<rparr>))"

text \<open>The branches of a command with two arguments.\<close>

definition parse_two :: "env \<Rightarrow> nat \<Rightarrow> 64 word \<Rightarrow> parser \<Rightarrow> cmdt \<Rightarrow> (object \<Rightarrow> object \<Rightarrow> cmd_data) \<Rightarrow> cmd res" where
  "parse_two E n len p type data =
     (if len \<noteq> 3 then Inr cmd_zero
      else res_bind (parse_object E n p) (\<lambda>(key, p).
        if key = Null then Inr cmd_zero
        else res_bind (parse_object E n p) (\<lambda>(value, p).
          if value = Null then Inr cmd_zero else Inr \<lparr>cmd_type = type, cmd_data = data key value\<rparr>)))"

definition parse_array_cmd :: "env \<Rightarrow> nat \<Rightarrow> parser \<Rightarrow> cmd res" where
  "parse_array_cmd E n p =
     (case parse_header p of
        (None, p) \<Rightarrow> Inr cmd_zero
      | (Some len, p) \<Rightarrow>
          if len = 0 then Inr cmd_zero
          else res_bind (parse_cmd_type E n (parser_read_char p)) (\<lambda>(type, p).
            case type of
              Help \<Rightarrow> res_bind (parse_bulk_string_cmd E n p) (\<lambda>(help_cmd, p).
                if help_cmd = Illegal then Inr cmd_zero
                else Inr \<lparr>cmd_type = Help, cmd_data = Help_data True help_cmd\<rparr>)
            | Auth \<Rightarrow> parse_two E n len p Auth Auth_data
            | Set \<Rightarrow> parse_two E n len p Set KV_data
            | Get \<Rightarrow> parse_one E n len p Get K_data
            | Del \<Rightarrow> parse_one E n len p Del K_data
            | Push \<Rightarrow> parse_one E n len p Push V_data
            | Enque \<Rightarrow> parse_one E n len p Enque V_data
            | ZSet \<Rightarrow> parse_one E n len p ZSet V_data
            | ZHas \<Rightarrow> parse_one E n len p ZHas V_data
            | ZDel \<Rightarrow> parse_one E n len p ZDel V_data
            | Select \<Rightarrow>
                if len \<noteq> 2 then Inr cmd_zero
                else res_bind (parse_object E n p) (\<lambda>(value, p).
                  case value of
                    Int_o num \<Rightarrow> Inr \<lparr>cmd_type = Select, cmd_data = V_data value\<rparr>
                  | _ \<Rightarrow> Inr cmd_zero)
            | _ \<Rightarrow> Inr cmd_zero))"

definition parse_cmd :: "env \<Rightarrow> nat \<Rightarrow> parser \<Rightarrow> cmd res" where
  "parse_cmd E n p =
     (if p_ch p = CHR ''*'' then parse_array_cmd E n p
      else if p_ch p = CHR ''+'' then
        res_bind (parse_simple_string_cmd (e_al E) p) (\<lambda>(type, p). Inr \<lparr>cmd_type = type, cmd_data = No_data\<rparr>)
      else if p_ch p = CHR ''$'' then
        res_bind (parse_bulk_string_cmd E n p) (\<lambda>(type, p). Inr \<lparr>cmd_type = type, cmd_data = No_data\<rparr>)
      else Inr cmd_zero)"

definition parse :: "env \<Rightarrow> string \<Rightarrow> nat \<Rightarrow> cmd res" where
  "parse E input input_len = parse_cmd E (input_len + 2) (parser_new input input_len)"

section \<open>Where the parser stands\<close>

text \<open>
  The parser stands at the text \<^term>\<open>t\<close>: its current byte is the first one of it, the rest is
  unread; at the end of the input the current byte is zero.
\<close>

definition at_text :: "parser \<Rightarrow> string \<Rightarrow> bool" where
  "at_text p t \<longleftrightarrow> p_input_len p \<le> length (p_input p) \<and>
     (case t of [] \<Rightarrow> p_ch p = NUL \<and> p_rest p = [] | c # cs \<Rightarrow> p_ch p = c \<and> p_rest p = cs)"

lemma at_text_ch: "at_text p (c # t) \<Longrightarrow> p_ch p = c"
  by (simp add: at_text_def)

lemma p_rest_step:
  assumes "p_input_len p \<le> length (p_input p)"
  shows "p_rest p = (if p_pos p \<ge> p_input_len p then [] else p_input p ! p_pos p #
    drop (Suc (p_pos p)) (take (p_input_len p) (p_input p)))"
  using assms by (auto simp: p_rest_def Cons_nth_drop_Suc [symmetric])

lemma at_text_read: "at_text p (c # t) \<Longrightarrow> at_text (parser_read_char p) t"
  using p_rest_step [of p] by (auto simp: at_text_def parser_read_char_def p_rest_def split: if_splits)

lemma at_text_peek: "at_text p (c # d # t) \<Longrightarrow> peek_byte p = d"
  using p_rest_step [of p] by (auto simp: at_text_def peek_byte_def split: if_splits)

lemma at_text_new: "at_text (parser_new s (length s)) s"
  by (cases s) (auto simp: at_text_def parser_new_def parser_read_char_def p_rest_def)

lemma at_text_buffer: "n \<le> length buf \<Longrightarrow> at_text (parser_new buf n) (take n buf)"
  by (cases buf; cases n) (auto simp: at_text_def parser_new_def parser_read_char_def p_rest_def)

lemma at_text_expect:
  "at_text p (c # d # t) \<Longrightarrow> expect_peek_byte p d = (True, parser_read_char p)"
  by (simp add: expect_peek_byte_def peek_byte_is_def at_text_peek)

lemma at_text_cur: "at_text p (c # t) \<Longrightarrow> cur_byte_is p d \<longleftrightarrow> c = d"
  by (auto simp: cur_byte_is_def at_text_def)

lemmas at_text_simps = at_text_ch at_text_cur at_text_expect

section \<open>What the loops read\<close>

lemma parse_line_loop_reads:
  assumes "at_text p (xs @ CR # t)" "CR \<notin> set xs" "NUL \<notin> set xs" "vstr_clean s" "alloc_total al"
    "length (vstr_str s) + length xs \<le> VSTR_MAX_LARGE_SIZE"
  obtains s' p' where "parse_line_loop al p s = (s', p')" "at_text p' (CR # t)" "vstr_clean s'"
    "vstr_str s' = vstr_str s @ xs"
  using assms
proof (induction xs arbitrary: p s thesis)
  case Nil
  then show ?case by (simp add: parse_line_loop.simps [of al p s] at_text_ch)
next
  case (Cons x xs)
  have x: "p_ch p = x" "x \<noteq> CR" "x \<noteq> NUL" using Cons.prems by (auto simp: at_text_ch)
  from vc.push_charE [of s al x] Cons.prems(5-7) obtain s1 where
    s1: "vstr_push_char al s x = (0, s1)" "vstr_clean s1" "vstr_str s1 = vstr_str s @ [x]" by auto
  have "at_text (parser_read_char p) (xs @ CR # t)" using Cons.prems(2) at_text_read by simp
  from Cons.IH [OF _ this _ _ s1(2) Cons.prems(6)] Cons.prems(3,4,7) s1(3) obtain s' p' where
    "parse_line_loop al (parser_read_char p) s1 = (s', p')" "at_text p' (CR # t)" "vstr_clean s'"
    "vstr_str s' = vstr_str s @ x # xs" by auto
  with Cons.prems(1) x s1(1) show ?case by (simp add: parse_line_loop.simps [of al p s])
qed

lemma parse_double_loop_reads:
  assumes "at_text p (xs @ CR # t)" "CR \<notin> set xs" "vstr_clean s" "alloc_total al"
    "length (vstr_str s) + length xs \<le> VSTR_MAX_LARGE_SIZE"
  obtains s' p' where "parse_double_loop al p s = Some (s', p')" "at_text p' (CR # t)" "vstr_clean s'"
    "vstr_str s' = vstr_str s @ xs"
  using assms
proof (induction xs arbitrary: p s thesis)
  case Nil
  then show ?case by (simp add: parse_double_loop.simps [of al p s] at_text_ch)
next
  case (Cons x xs)
  have x: "p_ch p = x" "x \<noteq> CR" using Cons.prems by (auto simp: at_text_ch)
  from vc.push_charE [of s al x] Cons.prems(4-6) obtain s1 where
    s1: "vstr_push_char al s x = (0, s1)" "vstr_clean s1" "vstr_str s1 = vstr_str s @ [x]" by auto
  have "at_text (parser_read_char p) (xs @ CR # t)" using Cons.prems(2) at_text_read by simp
  from Cons.IH [OF _ this _ s1(2) Cons.prems(5)] Cons.prems(3,6) s1(3) obtain s' p' where
    "parse_double_loop al (parser_read_char p) s1 = Some (s', p')" "at_text p' (CR # t)" "vstr_clean s'"
    "vstr_str s' = vstr_str s @ x # xs" by auto
  with Cons.prems(1) x s1(1) show ?case by (simp add: parse_double_loop.simps [of al p s])
qed

lemma parse_len_loop_reads:
  assumes "at_text p (ds @ c # t)" "\<forall>d \<in> set ds. isdigit d" "\<not> isdigit c"
  shows "\<exists>p'. parse_len_loop p (of_nat acc) =
      (of_nat (foldl (\<lambda>acc d. acc * 10 + digit_val d) acc ds), p') \<and> at_text p' (c # t)"
  using assms
proof (induction ds arbitrary: p acc)
  case Nil
  then show ?case by (simp add: parse_len_loop.simps [of p] at_text_ch)
next
  case (Cons d ds)
  have d: "p_ch p = d" "isdigit d" using Cons.prems by (auto simp: at_text_ch)
  have "at_text (parser_read_char p) (ds @ c # t)" using Cons.prems(1) at_text_read by simp
  from Cons.IH [OF this, of "acc * 10 + digit_val d"] Cons.prems(2,3) d show ?case
    by (simp add: parse_len_loop.simps [of p])
qed

lemma parse_header_reads:
  assumes "at_text p (c # fmt_lu n @ CR # LF # t)"
  obtains p' where "parse_header p = (Some (of_nat n), p')" "at_text p' (LF # t)"
proof -
  obtain d ds where d: "fmt_lu n = d # ds" by (cases "fmt_lu n") auto
  have dig: "\<forall>c \<in> set (fmt_lu n). isdigit c" by (rule fmt_lu_digits)
  have "peek_byte p = d" using assms d at_text_peek by simp
  then have e: "expect_peek_byte_to_be_num p = (True, parser_read_char p)"
    using dig d by (simp add: expect_peek_byte_to_be_num_def)
  have "at_text (parser_read_char p) (fmt_lu n @ CR # LF # t)" using assms by (rule at_text_read)
  from parse_len_loop_reads [OF this dig, of 0] obtain p1 where
    p1: "parse_len (parser_read_char p) = (of_nat n, p1)" "at_text p1 (CR # LF # t)"
    using dec_value_fmt_lu [of n] by (auto simp: parse_len_def dec_value_def)
  show thesis
    using e p1 at_text_read [OF p1(2)]
    by (intro that [of "parser_read_char p1"]) (simp_all add: parse_header_def at_text_simps)
qed

lemma parse_string_loop_reads:
  assumes "at_text p (xs @ t)" "vstr_clean s" "alloc_total al"
    "length (vstr_str s) + length xs \<le> VSTR_MAX_LARGE_SIZE"
  obtains s' p' where "parse_string_loop al (length xs) p s = (s', p')" "at_text p' t" "vstr_clean s'"
    "vstr_str s' = vstr_str s @ xs"
  using assms
proof (induction xs arbitrary: p s thesis)
  case Nil
  then show ?case by simp
next
  case (Cons x xs)
  have x: "p_ch p = x" using Cons.prems by (auto simp: at_text_ch)
  from vc.push_charE [of s al x] Cons.prems(3-5) obtain s1 where
    s1: "vstr_push_char al s x = (0, s1)" "vstr_clean s1" "vstr_str s1 = vstr_str s @ [x]" by auto
  have "at_text (parser_read_char p) (xs @ t)" using Cons.prems(2) at_text_read by simp
  from Cons.IH [OF _ this s1(2) Cons.prems(4)] Cons.prems(5) s1(3) obtain s' p' where
    "parse_string_loop al (length xs) (parser_read_char p) s1 = (s', p')" "at_text p' t" "vstr_clean s'"
    "vstr_str s' = vstr_str s @ x # xs" by auto
  with Cons.prems(1) x s1(1) show ?case by simp
qed

text \<open>A string of at most 22 bytes stays in the small layout.\<close>

lemma parse_string_loop_small:
  "i \<le> a \<Longrightarrow> \<not> is_large (fst (parse_string_loop al i p (Small d a)))"
proof (induction i arbitrary: p d a)
  case 0
  then show ?case by simp
next
  case (Suc i)
  then have "a \<noteq> 0" by simp
  then obtain d' where "vstr_push_char al (Small d a) (p_ch p) = (0, Small d' (a - 1))"
    by (simp add: vstr_push_char_def vstr_sm_push_char_def)
  with Suc show ?case by simp
qed

lemma parse_string_reads:
  assumes "at_text p (xs @ t)" "alloc_total al" "length xs < VSTR_MAX_LARGE_SIZE"
  obtains s p' where "parse_string al p (of_nat (length xs)) = Inr (s, p')" "at_text p' t" "vstr_clean s"
    "vstr_str s = xs" "length xs \<le> 22 \<longrightarrow> \<not> is_large s"
proof -
  have len: "length xs + 1 < 2 ^ 64" using assms(3) by (simp add: VSTR_MAX_LARGE_SIZE_def)
  have u: "unat (of_nat (length xs) :: 64 word) = length xs"
    "unat (of_nat (length xs) + 1 :: 64 word) = length xs + 1"
    using unat_of_nat_64 [of "length xs"] unat_of_nat_64 [of "length xs + 1"] len
    by (simp_all add: add.commute)
  from vstr_new_len_total [OF assms(2), of "length xs + 1"] assms(3) obtain s0 where
    s0: "vstr_new_len al (length xs + 1) = Inr s0" by auto
  note c0 = vstr_new_len_clean [OF s0]
  from parse_string_loop_reads [OF assms(1) c0(1) assms(2)] c0(2) assms(3) obtain s p' where
    r: "parse_string_loop al (length xs) p s0 = (s, p')" "at_text p' t" "vstr_clean s" "vstr_str s = xs"
    by auto
  have "\<not> is_large s" if "length xs \<le> 22"
  proof -
    have "s0 = Small (replicate 23 NUL) 23" using s0 that by (simp add: vstr_new_len_def)
    then show ?thesis
      using parse_string_loop_small [of "length xs" 23 al p "replicate 23 NUL"] that r(1) by simp
  qed
  with r s0 show thesis by (intro that [of s p']) (simp_all add: parse_string_def u del: of_nat_Suc)
qed

section \<open>Values on the wire\<close>

text \<open>
  The values that come back as they were sent: integers of 64 bits, doubles whose text reads back
  as the same bits, strings of any bytes, arrays of such values. (A null is sent as the simple
  string \<^verbatim>\<open>NONE\<close>, which is read as a string.)
\<close>

fun wire :: "env \<Rightarrow> fmt_double \<Rightarrow> avalue \<Rightarrow> bool" where
  "wire E g (VInt z) \<longleftrightarrow> - (2 ^ 63) \<le> z \<and> z < 2 ^ 63"
| "wire E g (VDouble d) \<longleftrightarrow> e_strtod E (g d) = d"
| "wire E g (VBool b) \<longleftrightarrow> True"
| "wire E g (VStr s) \<longleftrightarrow> length s < VSTR_MAX_LARGE_SIZE"
| "wire E g (VArr vs) \<longleftrightarrow> length vs < 2 ^ 64 \<and> (\<forall>v \<in> set vs. wire E g v)"
| "wire E g _ \<longleftrightarrow> False"

text \<open>How deep arrays are nested in a value.\<close>

fun vdepth :: "avalue \<Rightarrow> nat" where
  "vdepth (VArr vs) = Suc (foldr max (map vdepth vs) 0)"
| "vdepth _ = 0"

lemma foldr_max_ge: "x \<in> set xs \<Longrightarrow> x \<le> foldr max xs (0 :: nat)"
  by (induction xs) auto

lemma foldr_max_le: "(\<And>x. x \<in> set xs \<Longrightarrow> x \<le> (b :: nat)) \<Longrightarrow> foldr max xs 0 \<le> b"
  by (induction xs) auto

lemma vdepth_enc: "vdepth v < length (enc g v)"
proof (induction v)
  case (VArr vs)
  have "foldr max (map vdepth vs) 0 \<le> length (concat (map (enc g) vs))"
  proof (rule foldr_max_le)
    fix x
    assume "x \<in> set (map vdepth vs)"
    then obtain v where v: "v \<in> set vs" "x = vdepth v" by auto
    then obtain xs ys where "vs = xs @ v # ys" by (metis split_list)
    with VArr.IH [OF v(1)] v(2) show "x \<le> length (concat (map (enc g) vs))" by simp
  qed
  then show ?case by simp
qed simp_all

text \<open>An object as the parser builds it: clean strings, the short ones in the small layout.\<close>

fun parsed_ok :: "object \<Rightarrow> bool" where
  "parsed_ok (String s) \<longleftrightarrow> vstr_clean s \<and> (vstr_len s \<le> 22 \<longrightarrow> \<not> is_large s)"
| "parsed_ok (Array v) \<longleftrightarrow> vec_wf v \<and> (\<forall>x \<in> set (vec_list v). parsed_ok x)"
| "parsed_ok (Ht h) \<longleftrightarrow> False"
| "parsed_ok _ \<longleftrightarrow> True"

fun clean_obj :: "object \<Rightarrow> bool" where
  "clean_obj (String s) \<longleftrightarrow> vstr_clean s"
| "clean_obj (Array v) \<longleftrightarrow> vec_wf v \<and> (\<forall>x \<in> set (vec_list v). clean_obj x)"
| "clean_obj (Ht h) \<longleftrightarrow> False"
| "clean_obj _ \<longleftrightarrow> True"

lemma parsed_clean: "parsed_ok obj \<Longrightarrow> clean_obj obj"
  by (induction obj rule: parsed_ok.induct) auto

lemma c_str_clean:
  assumes "vstr_clean s" "NUL \<notin> set (vstr_str s)"
  shows "c_str (vstr_data s) = vstr_str s"
proof -
  let ?d = "vstr_data s" and ?n = "vstr_len s"
  have "\<forall>c \<in> set (drop ?n ?d). c = NUL" using assms(1) by (simp add: vstr_clean_def zero_tail_def)
  then have "takeWhile (\<lambda>c. c \<noteq> NUL) (drop ?n ?d) = []" by (cases "drop ?n ?d") auto
  moreover have "takeWhile (\<lambda>c. c \<noteq> NUL) (take ?n ?d @ drop ?n ?d) =
      take ?n ?d @ takeWhile (\<lambda>c. c \<noteq> NUL) (drop ?n ?d)"
    using assms(2) by (intro takeWhile_append2) (auto simp: vstr_str_def)
  ultimately show ?thesis by (simp add: c_str_def vstr_str_def)
qed

lemma fmt_lu_no_special: "CR \<notin> set (fmt_lu n)" "NUL \<notin> set (fmt_lu n)" "CHR ''-'' \<notin> set (fmt_lu n)"
proof -
  have d: "isdigit c" if "c \<in> set (fmt_lu n)" for c using fmt_lu_digits that by blast
  show "CR \<notin> set (fmt_lu n)" "NUL \<notin> set (fmt_lu n)" "CHR ''-'' \<notin> set (fmt_lu n)"
    using d [of CR] d [of NUL] d [of "CHR ''-''"] by auto
qed

lemma fmt_ld_no_special: "CR \<notin> set (fmt_ld z)" "NUL \<notin> set (fmt_ld z)"
  using fmt_lu_no_special by (auto simp: fmt_ld_def)

lemma length_fmt_lu: "n < 10 ^ k \<Longrightarrow> 0 < k \<Longrightarrow> length (fmt_lu n) \<le> k"
proof (induction k arbitrary: n)
  case 0
  then show ?case by simp
next
  case (Suc k)
  show ?case
  proof (cases "n < 10")
    case True
    then show ?thesis by (simp add: fmt_lu.simps [of n])
  next
    case False
    then have "0 < k" using Suc.prems(1) by (cases k) auto
    moreover have "n div 10 < 10 ^ k" using Suc.prems(1) by (simp add: less_mult_imp_div_less mult.commute)
    ultimately show ?thesis using Suc.IH [of "n div 10"] False by (simp add: fmt_lu.simps [of n])
  qed
qed

lemma dec_int_fmt_ld: "is_dec_int (fmt_ld z)" "dec_int (fmt_ld z) = z"
proof -
  have dig: "list_all isdigit (fmt_lu n)" for n using fmt_lu_digits [of n] by (simp add: list_all_iff)
  obtain d ds where d: "fmt_lu (nat z) = d # ds" by (cases "fmt_lu (nat z)") auto
  have neq: "d \<noteq> CHR ''-''" using d fmt_lu_no_special(3) [of "nat z"] by auto
  have v: "dec_value (d # ds) = nat z" using d dec_value_fmt_lu [of "nat z"] by simp
  have "is_dec_int (fmt_ld z) \<and> dec_int (fmt_ld z) = z"
  proof (cases "z < 0")
    case True
    then show ?thesis by (simp add: fmt_ld_def is_dec_int_def dec_int_def dig)
  next
    case False
    then show ?thesis using dig [of "nat z"] neq v by (simp add: fmt_ld_def is_dec_int_def dec_int_def d)
  qed
  then show "is_dec_int (fmt_ld z)" "dec_int (fmt_ld z) = z" by auto
qed

lemma length_fmt_ld:
  assumes "- (2 ^ 63) \<le> z" "z < 2 ^ 63"
  shows "length (fmt_ld z) \<le> 21"
proof -
  have "nat z < 10 ^ 20" "nat (- z) < 10 ^ 20" using assms by (simp_all add: nat_less_iff)
  then have "length (fmt_lu (nat z)) \<le> 20" "length (fmt_lu (nat (- z))) \<le> 20"
    using length_fmt_lu [of "nat z" 20] length_fmt_lu [of "nat (- z)" 20] by (simp_all del: power_numeral)
  then show ?thesis by (simp add: fmt_ld_def)
qed

lemma parse_integer_reads:
  assumes "at_text p (c # fmt_ld z @ CR # t)" "alloc_total (e_al E)" "- (2 ^ 63) \<le> z" "z < 2 ^ 63"
  obtains p' where "parse_integer E p = (of_int z, p')" "at_text p' (CR # t)"
proof -
  have "at_text (parser_read_char p) (fmt_ld z @ CR # t)" using assms(1) by (rule at_text_read)
  moreover have "length (vstr_str vstr_new) + length (fmt_ld z) \<le> VSTR_MAX_LARGE_SIZE"
    using length_fmt_ld [OF assms(3,4)] MAX_LARGE_gt by simp
  ultimately obtain s p' where
    s: "parse_line_loop (e_al E) (parser_read_char p) vstr_new = (s, p')" "at_text p' (CR # t)"
      "vstr_clean s" "vstr_str s = fmt_ld z"
    using parse_line_loop_reads [of "parser_read_char p" "fmt_ld z" t vstr_new "e_al E"] assms(2) fmt_ld_no_special
    by auto
  have "c_str (vstr_data s) = fmt_ld z" using c_str_clean [OF s(3)] s(4) fmt_ld_no_special(2) by simp
  with s(1,2) assms(3,4) show thesis
    by (intro that [of p']) (simp_all add: parse_integer_def strtold_int_def dec_int_fmt_ld)
qed

lemma parse_double_reads:
  assumes "at_text p (c # xs @ CR # t)" "alloc_total (e_al E)" "CR \<notin> set xs" "NUL \<notin> set xs" "length xs \<le> 22"
  obtains p' where "parse_double E p = Inr (e_strtod E xs, p')" "at_text p' (CR # t)"
proof -
  have "at_text (parser_read_char p) (xs @ CR # t)" using assms(1) by (rule at_text_read)
  moreover have "length (vstr_str vstr_new) + length xs \<le> VSTR_MAX_LARGE_SIZE"
    using assms(5) MAX_LARGE_gt by simp
  ultimately obtain s p' where
    s: "parse_double_loop (e_al E) (parser_read_char p) vstr_new = Some (s, p')" "at_text p' (CR # t)"
      "vstr_clean s" "vstr_str s = xs"
    using parse_double_loop_reads [of "parser_read_char p" xs t vstr_new "e_al E"] assms(2,3) by auto
  have "c_str (vstr_data s) = xs" using c_str_clean [OF s(3)] s(4) assms(4) by simp
  with s(1,2) show thesis by (intro that [of p']) (simp_all add: parse_double_def)
qed

section \<open>Reading a value back\<close>

text \<open>The parser \<^term>\<open>f\<close> reads the encoding of a value: it returns an object of that value and stops behind it.\<close>

definition reads_value :: "(parser \<Rightarrow> (object \<times> parser) res) \<Rightarrow> fmt_double \<Rightarrow> avalue \<Rightarrow> bool" where
  "reads_value f g v \<longleftrightarrow> (\<forall>p t. at_text p (enc g v @ t) \<longrightarrow>
     (\<exists>obj p'. f p = Inr (obj, p') \<and> at_text p' t \<and> obj_value obj = v \<and> parsed_ok obj))"

lemma reads_valueE:
  assumes "reads_value f g v" "at_text p (enc g v @ t)"
  obtains obj p' where "f p = Inr (obj, p')" "at_text p' t" "obj_value obj = v" "parsed_ok obj"
  using assms unfolding reads_value_def by blast

text \<open>The end of a line, as every branch of the parser checks it.\<close>

lemma at_line_end:
  assumes "at_text p (CR # LF # t)"
  shows "cur_byte_is p CR" "expect_peek_byte p LF = (True, parser_read_char p)"
    "at_text (parser_read_char (parser_read_char p)) t"
  using assms at_text_read [of p CR "LF # t"] at_text_read [of "parser_read_char p" LF t]
  by (simp_all add: at_text_simps)

lemma reads_string:
  assumes "alloc_total (e_al E)" "length xs < VSTR_MAX_LARGE_SIZE"
  shows "reads_value (parse_object E (Suc n)) g (VStr xs)"
  unfolding reads_value_def
proof (intro allI impI)
  fix p t
  assume "at_text p (enc g (VStr xs) @ t)"
  then have at: "at_text p (CHR ''$'' # fmt_lu (length xs) @ CR # LF # xs @ CR # LF # t)" by simp
  from parse_header_reads [OF at] obtain p1 where
    p1: "parse_header p = (Some (of_nat (length xs)), p1)" "at_text p1 (LF # xs @ CR # LF # t)" .
  from parse_string_reads [OF at_text_read [OF p1(2)] assms] obtain s p2 where
    p2: "parse_string (e_al E) (parser_read_char p1) (of_nat (length xs)) = Inr (s, p2)"
      "at_text p2 (CR # LF # t)" "vstr_clean s" "vstr_str s = xs" "length xs \<le> 22 \<longrightarrow> \<not> is_large s" .
  have "vstr_len s = length xs" using p2(3,4) length_vstr_str vstr_clean_live vstr_live_wf by metis
  with p1 p2 at_line_end [OF p2(2)] at_text_ch [OF at]
  show "\<exists>obj p'. parse_object E (Suc n) p = Inr (obj, p') \<and> at_text p' t \<and> obj_value obj = VStr xs \<and> parsed_ok obj"
    by (simp add: object_new_def)
qed

lemma reads_int:
  assumes "alloc_total (e_al E)" "- (2 ^ 63) \<le> z" "z < 2 ^ 63"
  shows "reads_value (parse_object E (Suc n)) g (VInt z)"
  unfolding reads_value_def
proof (intro allI impI)
  fix p t
  assume "at_text p (enc g (VInt z) @ t)"
  then have at: "at_text p (CHR '':'' # fmt_ld z @ CR # LF # t)" by simp
  from parse_integer_reads [OF at assms] obtain p1 where
    p1: "parse_integer E p = (of_int z, p1)" "at_text p1 (CR # LF # t)" .
  have "sint (word_of_int z :: 64 word) = z"
    using assms(2,3) by (simp add: signed_of_int signed_take_bit_int_eq_self)
  with p1 at_line_end [OF p1(2)] at_text_ch [OF at]
  show "\<exists>obj p'. parse_object E (Suc n) p = Inr (obj, p') \<and> at_text p' t \<and> obj_value obj = VInt z \<and> parsed_ok obj"
    by (simp add: object_new_def)
qed

lemma reads_double:
  assumes "alloc_total (e_al E)" "fmt_g_ok g" "e_strtod E (g d) = d"
  shows "reads_value (parse_object E (Suc n)) g (VDouble d)"
  unfolding reads_value_def
proof (intro allI impI)
  fix p t
  assume "at_text p (enc g (VDouble d) @ t)"
  then have at: "at_text p (CHR '','' # g d @ CR # LF # t)" by simp
  from parse_double_reads [OF at assms(1)] assms(2,3) obtain p1 where
    p1: "parse_double E p = Inr (d, p1)" "at_text p1 (CR # LF # t)" by (auto simp: fmt_g_ok_def)
  with at_line_end [OF p1(2)] at_text_ch [OF at]
  show "\<exists>obj p'. parse_object E (Suc n) p = Inr (obj, p') \<and> at_text p' t \<and> obj_value obj = VDouble d \<and> parsed_ok obj"
    by (simp add: object_new_def)
qed

lemma reads_bool: "reads_value (parse_object E (Suc n)) g (VBool b)"
  unfolding reads_value_def
proof (intro allI impI)
  fix p t
  assume "at_text p (enc g (VBool b) @ t)"
  then have at: "at_text p (CHR ''#'' # (if b then CHR ''t'' else CHR ''f'') # CR # LF # t)"
    by (simp split: if_splits)
  note at1 = at_text_read [OF at]
  with at_text_expect [OF at1] at_line_end [OF at_text_read [OF at1]] at_text_ch [OF at] at_text_ch [OF at1]
  show "\<exists>obj p'. parse_object E (Suc n) p = Inr (obj, p') \<and> at_text p' t \<and> obj_value obj = VBool b \<and> parsed_ok obj"
    by (auto simp: object_new_def Let_def split: if_splits)
qed

text \<open>The loop over the elements of an array.\<close>

lemma parse_elements:
  assumes "\<And>v. v \<in> set vs \<Longrightarrow> reads_value f g v" "at_text p (concat (map (enc g) vs) @ t)" "vec_wf w"
    "alloc_total al"
  shows "\<exists>w' p' objs. repeat_n (length vs) (\<lambda>(v, p). res_bind (f p) (\<lambda>(cur, p).
      Inr (snd (vec_push al Null v cur), p))) (w, p) = Inr (w', p') \<and> vec_wf w' \<and>
    vec_list w' = vec_list w @ objs \<and> map obj_value objs = vs \<and> (\<forall>x \<in> set objs. parsed_ok x) \<and> at_text p' t"
  using assms
proof (induction vs arbitrary: p w)
  case Nil
  then show ?case by simp
next
  case (Cons v vs)
  from Cons.prems(2) have at: "at_text p (enc g v @ concat (map (enc g) vs) @ t)" by simp
  from reads_valueE [OF Cons.prems(1) [of v] at] obtain obj p1 where
    o: "f p = Inr (obj, p1)" "at_text p1 (concat (map (enc g) vs) @ t)" "obj_value obj = v" "parsed_ok obj"
    by auto
  from vst.push_law [OF Cons.prems(3,4), where x = obj and z = Null] obtain w1 where
    w1: "vec_push al Null w obj = (0, w1)" "vec_wf w1" "vec_list w1 = vec_list w @ [obj]" by auto
  from Cons.IH [OF _ o(2) w1(2) Cons.prems(4)] Cons.prems(1) obtain w' p' objs where
    "repeat_n (length vs) (\<lambda>(v, p). res_bind (f p) (\<lambda>(cur, p). Inr (snd (vec_push al Null v cur), p)))
      (w1, p1) = Inr (w', p')" "vec_wf w'" "vec_list w' = vec_list w1 @ objs" "map obj_value objs = vs"
    "\<forall>x \<in> set objs. parsed_ok x" "at_text p' t" by auto
  with o w1 show ?case by (intro exI [of _ w'] exI [of _ p'] exI [of _ "obj # objs"]) simp
qed

lemma reads_array:
  assumes "alloc_total (e_al E)" "length vs < 2 ^ 64" "\<And>v. v \<in> set vs \<Longrightarrow> reads_value (parse_object E n) g v"
  shows "reads_value (parse_object E (Suc n)) g (VArr vs)"
  unfolding reads_value_def
proof (intro allI impI)
  fix p t
  assume "at_text p (enc g (VArr vs) @ t)"
  then have at: "at_text p (CHR ''*'' # fmt_lu (length vs) @ CR # LF # concat (map (enc g) vs) @ t)" by simp
  from parse_header_reads [OF at] obtain p1 where
    p1: "parse_header p = (Some (of_nat (length vs)), p1)" "at_text p1 (LF # concat (map (enc g) vs) @ t)" .
  from vec_new_total [OF assms(1), of Null sizeof_object] obtain w where
    w: "vec_new (e_al E) Null sizeof_object = Some w" by blast
  from parse_elements [OF assms(3) at_text_read [OF p1(2)] vec_new_spec(1) [OF w] assms(1)] vec_new_spec(2) [OF w]
  obtain w' p' where
    l: "repeat_n (length vs) (\<lambda>(v, p). res_bind (parse_object E n p) (\<lambda>(cur, p).
        Inr (snd (vec_push (e_al E) Null v cur), p))) (w, parser_read_char p1) = Inr (w', p')"
    "vec_wf w'" "map obj_value (vec_list w') = vs" "\<forall>x \<in> set (vec_list w'). parsed_ok x" "at_text p' t"
    by auto
  have "unat (of_nat (length vs) :: 64 word) = length vs" using assms(2) by (rule unat_of_nat_64)
  with p1(1) w l at_text_ch [OF at]
  show "\<exists>obj p'. parse_object E (Suc n) p = Inr (obj, p') \<and> at_text p' t \<and> obj_value obj = VArr vs \<and> parsed_ok obj"
    by simp
qed

lemma parse_object_reads:
  assumes "wire E g v" "vdepth v < n" "alloc_total (e_al E)" "fmt_g_ok g"
  shows "reads_value (parse_object E n) g v"
  using assms
proof (induction n arbitrary: v)
  case 0
  then show ?case by simp
next
  case (Suc n)
  show ?case
  proof (cases v)
    case (VArr vs)
    have "reads_value (parse_object E n) g x" if "x \<in> set vs" for x
    proof (rule Suc.IH)
      have "vdepth x \<le> foldr max (map vdepth vs) 0" using that by (intro foldr_max_ge) simp
      then show "vdepth x < n" using Suc.prems(2) VArr by simp
    qed (use that Suc.prems VArr in auto)
    with VArr Suc.prems show ?thesis by (auto intro: reads_array simp del: parse_object.simps)
  qed (use Suc.prems in \<open>auto intro: reads_string reads_int reads_double reads_bool
      simp del: parse_object.simps\<close>)
qed

section \<open>The parser ends\<close>

text \<open>The parser has moved on: the same input, not more left to read, the current byte from the input.\<close>

definition ch_ok :: "parser \<Rightarrow> bool" where
  "ch_ok p \<longleftrightarrow> p_input_len p \<le> length (p_input p) \<and> (p_ch p = NUL \<or> p_ch p \<in> set (p_input p))"

definition moved :: "parser \<Rightarrow> parser \<Rightarrow> bool" where
  "moved p q \<longleftrightarrow> p_input q = p_input p \<and> p_input_len q = p_input_len p \<and> p_left q \<le> p_left p \<and>
     (ch_ok p \<longrightarrow> ch_ok q)"

lemma moved_refl [simp]: "moved p p"
  by (simp add: moved_def)

lemma moved_trans: "moved p q \<Longrightarrow> moved q r \<Longrightarrow> moved p r"
  by (auto simp: moved_def)

lemma moved_read [simp]: "moved p (parser_read_char p)"
  by (auto simp: moved_def parser_read_char_def p_left_def ch_ok_def)

lemma moved_expect: "expect_peek_byte p c = (b, q) \<Longrightarrow> moved p q"
  by (auto simp: expect_peek_byte_def split: if_splits)

lemma moved_line: "moved p (snd (parse_line_loop al p s))"
proof (induction al p s rule: parse_line_loop.induct)
  case (1 al p s)
  then show ?case by (auto simp: parse_line_loop.simps [of al p s] intro: moved_trans [OF moved_read])
qed

lemma moved_len: "moved p (snd (parse_len_loop p r))"
proof (induction p r rule: parse_len_loop.induct)
  case (1 p r)
  then show ?case by (auto simp: parse_len_loop.simps [of p r] intro: moved_trans [OF moved_read])
qed

lemma moved_string: "moved p (snd (parse_string_loop al i p s))"
  by (induction al i p s rule: parse_string_loop.induct) (auto intro: moved_trans [OF moved_read])

lemma moved_finish: "moved p (snd (finish_line (s, p)))"
  by (auto simp: finish_line_def dest: moved_expect split: prod.splits)

lemma moved_header:
  assumes "parse_header p = (r, q)"
  shows "moved p q" "r \<noteq> None \<Longrightarrow> p_ch p \<noteq> NUL \<Longrightarrow> p_left q < p_left p"
proof -
  obtain len p1 where len: "parse_len (parser_read_char p) = (len, p1)" by (cases "parse_len (parser_read_char p)")
  have m1: "moved (parser_read_char p) p1" using len moved_len [of "parser_read_char p" 0] by (simp add: parse_len_def)
  have m2: "moved p1 (snd (expect_peek_byte p1 LF))" by (metis moved_expect prod.collapse)
  have "q = p \<and> r = None \<or> q = p1 \<and> r = None \<or> q = snd (expect_peek_byte p1 LF)"
    using assms len by (auto simp: parse_header_def expect_peek_byte_to_be_num_def split: if_splits prod.splits)
  then have "q = p \<and> r = None \<or> moved (parser_read_char p) q" using m1 m2 moved_trans by blast
  then have "moved p q \<and> (r \<noteq> None \<longrightarrow> p_ch p \<noteq> NUL \<longrightarrow> p_left q < p_left p)"
  proof
    assume mv: "moved (parser_read_char p) q"
    then have "p_left q \<le> p_left (parser_read_char p)" by (simp add: moved_def)
    then show ?thesis using moved_trans [OF moved_read mv] p_left_read [of p] by auto
  qed simp
  then show "moved p q" "r \<noteq> None \<Longrightarrow> p_ch p \<noteq> NUL \<Longrightarrow> p_left q < p_left p" by auto
qed

text \<open>An outcome of the parser: it has moved on with a result, or an assertion has failed.\<close>

definition ends :: "parser \<Rightarrow> ('a \<times> parser) res \<Rightarrow> bool" where
  "ends p r \<longleftrightarrow> r = Inl Assert_failed \<or> (\<exists>x q. r = Inr (x, q) \<and> moved p q)"

lemma ends_Inr [simp]: "ends p (Inr (x, q)) \<longleftrightarrow> moved p q"
  by (auto simp: ends_def)

lemma ends_bind:
  assumes "ends p r" "\<And>x q. r = Inr (x, q) \<Longrightarrow> moved p q \<Longrightarrow> ends p (f (x, q))"
  shows "ends p (res_bind r f)"
  using assms by (auto simp: ends_def)

lemma ends_moved: "moved p q \<Longrightarrow> ends q r \<Longrightarrow> ends p r"
  by (auto simp: ends_def intro: moved_trans)

lemma ends_line: "ends p (if \<not> cur_byte_is q CR then Inr (x, q)
    else let (ok, q') = expect_peek_byte q LF in if \<not> ok then Inr (x, q') else Inr (y, parser_read_char q'))"
  if "moved p q"
proof -
  obtain ok q' where e: "expect_peek_byte q LF = (ok, q')" by (cases "expect_peek_byte q LF")
  have "moved p q'" using that moved_expect [OF e] by (rule moved_trans)
  moreover from this have "moved p (parser_read_char q')" using moved_read by (rule moved_trans)
  ultimately show ?thesis using that e by simp
qed

lemma ends_repeat:
  assumes "\<And>s q. moved p q \<Longrightarrow> ends q (f (s, q))"
  shows "ends p (repeat_n i f (s, p))"
proof -
  have "ends p (repeat_n i f (s, q))" if "moved p q" for s q
    using that
  proof (induction i arbitrary: s q)
    case 0
    then show ?case by simp
  next
    case (Suc i)
    have "ends p (f (s, q))" using assms [OF Suc.prems] Suc.prems ends_moved by blast
    then show ?case using Suc.IH by (auto intro!: ends_bind)
  qed
  then show ?thesis by simp
qed

lemma ends_simple: "alloc_total al \<Longrightarrow> ends p (parse_simple_string al p)"
proof -
  assume "alloc_total al"
  then obtain s where s: "vstr_new_len al 5 = Inr s" by (auto simp: vstr_new_len_def)
  obtain s1 p1 where l: "parse_line_loop al (parser_read_char p) s = (s1, p1)"
    by (cases "parse_line_loop al (parser_read_char p) s")
  have "moved p p1" using moved_line [of "parser_read_char p" al s] l moved_trans [OF moved_read] by simp
  then show ?thesis
    using moved_trans [OF _ moved_finish [of p1 s1]] s l by (cases "finish_line (s1, p1)") (simp add: parse_simple_string_def)
qed

lemma moved_error: "moved p (snd (parse_error al p))"
proof -
  obtain s1 p1 where l: "parse_line_loop al (parser_read_char p) vstr_new = (s1, p1)"
    by (cases "parse_line_loop al (parser_read_char p) vstr_new")
  have "moved p p1" using moved_line [of "parser_read_char p" al vstr_new] l moved_trans [OF moved_read] by simp
  then show ?thesis using moved_trans [OF _ moved_finish [of p1 s1]] l by (simp add: parse_error_def)
qed

lemma moved_integer: "moved p (snd (parse_integer E p))"
  using moved_trans [OF moved_read moved_line [of "parser_read_char p" "e_al E" vstr_new]]
  by (auto simp: parse_integer_def split: prod.splits)

lemma ends_parse_string:
  assumes "alloc_total al"
  shows "ends p (parse_string al p len)"
proof (cases "vstr_new_len al (unat (len + 1))")
  case (Inl e)
  then have "e = Assert_failed"
    using assms by (auto simp: vstr_new_len_def vstr_lg_new_len_def Let_def split: if_splits)
  with Inl show ?thesis by (simp add: parse_string_def ends_def)
next
  case (Inr s)
  then show ?thesis using moved_string [of p al "unat len" s]
    by (cases "parse_string_loop al (unat len) p s") (simp add: parse_string_def)
qed

lemma ends_elements:
  assumes "\<And>q. moved p q \<Longrightarrow> ends q (f q)"
  shows "ends p (repeat_n i (\<lambda>(v, p). res_bind (f p) (\<lambda>(cur, p). Inr (snd (vec_push al Null v cur), p))) (v, p))"
proof (rule ends_repeat)
  fix s q
  assume "moved p q"
  then have "ends q (f q)" by (rule assms)
  then show "ends q ((\<lambda>(v, p). res_bind (f p) (\<lambda>(cur, p). Inr (snd (vec_push al Null v cur), p))) (s, q))"
    by (simp only: prod.case) (rule ends_bind; auto)
qed

lemma ends_entry:
  assumes "\<And>q. moved p q \<Longrightarrow> ends q (f q)" "alloc_total al"
  shows "ends p (res_bind (f p) (\<lambda>(key, p). res_bind (f p) (\<lambda>(value, p).
    res_bind (ht_insert K al True True h key value) (\<lambda>(_, _, h). Inr (h, p)))))"
proof (rule ends_bind [OF assms(1) [OF moved_refl]])
  fix key q
  assume q: "moved p q"
  have "ends q (res_bind (f q) (\<lambda>(value, p). res_bind (ht_insert K al True True h key value) (\<lambda>(_, _, h). Inr (h, p))))"
  proof (rule ends_bind [OF assms(1) [OF q]])
    fix val q'
    assume "moved q q'"
    with ht_insert_total [OF assms(2), of K True True h key val]
    show "ends q (case (val, q') of (value, p) \<Rightarrow>
        res_bind (ht_insert K al True True h key value) (\<lambda>(_, _, h). Inr (h, p)))" by auto
  qed
  from ends_moved [OF q this] show "ends p (case (key, q) of (key, p) \<Rightarrow> res_bind (f p) (\<lambda>(value, p).
      res_bind (ht_insert K al True True h key value) (\<lambda>(_, _, h). Inr (h, p))))" by simp
qed

lemma ends_entries:
  assumes "\<And>q. moved p q \<Longrightarrow> ends q (f q)" "alloc_total al"
  shows "ends p (repeat_n i (\<lambda>(h, p). res_bind (f p) (\<lambda>(key, p). res_bind (f p) (\<lambda>(value, p).
    res_bind (ht_insert K al True True h key value) (\<lambda>(_, _, h). Inr (h, p))))) (h, p))"
proof (rule ends_repeat)
  fix s q
  assume q: "moved p q"
  have "ends q' (f q')" if "moved q q'" for q' using q that assms(1) moved_trans by blast
  from ends_entry [OF this assms(2)]
  show "ends q ((\<lambda>(h, p). res_bind (f p) (\<lambda>(key, p). res_bind (f p) (\<lambda>(value, p).
      res_bind (ht_insert K al True True h key value) (\<lambda>(_, _, h). Inr (h, p))))) (s, q))" by simp
qed

lemma ends_bulk:
  assumes "moved p q" "alloc_total al"
  shows "ends p (res_bind (parse_string al q len) (\<lambda>(s, p).
    if \<not> cur_byte_is p CR then Inr (Null, p)
    else let (ok, p) = expect_peek_byte p LF in
      if \<not> ok then Inr (Null, p) else Inr (object_new (String s), parser_read_char p)))"
  using ends_moved [OF assms(1) ends_parse_string [OF assms(2)]]
  by (rule ends_bind) (simp only: prod.case, rule ends_line)

lemma ends_bool:
  shows "ends p (let p = parser_read_char p in
    if p_ch p \<noteq> CHR ''t'' \<and> p_ch p \<noteq> CHR ''f'' then Inr (Null, p)
    else let boolean = (if p_ch p = CHR ''t'' then 1 else 0); (ok, p) = expect_peek_byte p CR in
      if \<not> ok then Inr (Null, p)
      else let (ok, p) = expect_peek_byte p LF in
        if \<not> ok then Inr (Null, p) else Inr (object_new (Bool boolean), parser_read_char p))"
proof -
  obtain ok q where e: "expect_peek_byte (parser_read_char p) CR = (ok, q)"
    by (cases "expect_peek_byte (parser_read_char p) CR")
  have q: "moved p q" using moved_read moved_expect [OF e] by (rule moved_trans)
  obtain ok2 q2 where e2: "expect_peek_byte q LF = (ok2, q2)" by (cases "expect_peek_byte q LF")
  have q2: "moved p q2" using q moved_expect [OF e2] by (rule moved_trans)
  have "moved p (parser_read_char q2)" using q2 moved_read by (rule moved_trans)
  with e e2 q q2 show ?thesis by (simp add: Let_def)
qed

text \<open>
  With memory, the parser ends on every input without a comma: the depth \<^term>\<open>n\<close> is enough when it
  exceeds what is left to read.
\<close>

lemma parse_object_ends:
  assumes "alloc_total (e_al E)" "p_left p < n" "ch_ok p" "CHR '','' \<notin> set (p_input p)"
  shows "ends p (parse_object E n p)"
  using assms
proof (induction n arbitrary: p)
  case 0
  then show ?case by simp
next
  case (Suc n)
  note al = Suc.prems(1)
  obtain r p1 where h: "parse_header p = (r, p1)" by (cases "parse_header p")
  note mh = moved_header [OF h]
  have m1: "moved p (parser_read_char p1)" using mh(1) moved_read by (rule moved_trans)
  have ok: "ends q (parse_object E n q)" if "moved (parser_read_char p1) q" "r \<noteq> None" "p_ch p \<noteq> NUL" for q
    using that(2,3) mh moved_trans [OF moved_read that(1)] Suc.prems by (intro Suc.IH) (auto simp: moved_def)
  have comma: "p_ch p \<noteq> CHR '',''" using Suc.prems(3,4) by (auto simp: ch_ok_def)
  obtain v where v: "vec_new (e_al E) Null sizeof_object = Some v" using vec_new_total [OF al, of Null sizeof_object] by blast
  obtain t :: "(object, object) ht" where t: "ht_new (e_al E) (e_random E) sizeof_object True = Inr t"
    using ht_new_total [OF al, of "e_random E" sizeof_object True] by blast
  obtain val q where i: "parse_integer E p = (val, q)" by (cases "parse_integer E p")
  have mi: "moved p q" using moved_integer [of p E] i by simp
  obtain s q2 where e: "parse_error (e_al E) p = (s, q2)" by (cases "parse_error (e_al E) p")
  have me: "moved p (parser_read_char q2)" using moved_error [of p "e_al E"] e by (auto intro: moved_trans [OF _ moved_read])
  have arr: "ends p (res_bind (repeat_n k (\<lambda>(v, p). res_bind (parse_object E n p) (\<lambda>(cur, p).
      Inr (snd (vec_push (e_al E) Null v cur), p))) (v, parser_read_char p1)) (\<lambda>(v, p). Inr (Array v, p)))"
    if "r \<noteq> None" "p_ch p \<noteq> NUL" for k
    by (rule ends_bind [OF ends_moved [OF m1 ends_elements [OF ok [OF _ that]]]]) simp_all
  have tab: "ends p (res_bind (repeat_n k (\<lambda>(h, p). res_bind (parse_object E n p) (\<lambda>(key, p).
      res_bind (parse_object E n p) (\<lambda>(value, p).
      res_bind (ht_insert (object_keys (e_cmp E)) (e_al E) True True h key value) (\<lambda>(_, _, h). Inr (h, p)))))
      (t, parser_read_char p1)) (\<lambda>(h, p). Inr (Ht h, p)))"
    if "r \<noteq> None" "p_ch p \<noteq> NUL" for k
    by (rule ends_bind [OF ends_moved [OF m1 ends_entries [OF ok [OF _ that] al]]]) simp_all
  have simple: "ends p (res_bind (parse_simple_string (e_al E) p) (\<lambda>(s, p). Inr (object_new (String s), parser_read_char p)))"
    by (rule ends_bind [OF ends_simple [OF al]]) (auto intro: moved_trans [OF _ moved_read])
  show ?case
    using ends_bulk [OF m1 al] ends_line [OF mi, of Null "object_new (Int_o val)"] ends_bool [of p] simple me arr tab
      mh(1) h comma v t i e
    by (auto split: option.split simp del: Let_def)
qed

lemma ends_cmd_type:
  assumes "alloc_total (e_al E)" "p_left p < n" "ch_ok p" "CHR '','' \<notin> set (p_input p)"
  shows "ends p (parse_cmd_type E n p)"
proof -
  have a: "ends p (res_bind (parse_object E n p) (\<lambda>(obj, p).
      case obj of String s \<Rightarrow> Inr (lookup_cmd s, p) | _ \<Rightarrow> Inr (Illegal, p)))"
    by (rule ends_bind [OF parse_object_ends [OF assms]]) (auto split: object.split)
  obtain x where "vstr_new_len (e_al E) 5 = Inr x" by (auto simp: vstr_new_len_def)
  moreover have "ends p (res_bind (parse_simple_string (e_al E) p) (\<lambda>(s, p). Inr (lookup_cmd s, parser_read_char p)))"
    by (rule ends_bind [OF ends_simple [OF assms(1)]]) (auto intro: moved_trans [OF _ moved_read])
  ultimately show ?thesis using a by (simp add: parse_cmd_type_def parse_simple_string_cmd_def)
qed

text \<open>A command or a failed assertion.\<close>

definition cmd_ends :: "cmd res \<Rightarrow> bool" where
  "cmd_ends r \<longleftrightarrow> r = Inl Assert_failed \<or> (\<exists>c. r = Inr c)"

lemma cmd_ends_Inr [simp]: "cmd_ends (Inr c)"
  by (simp add: cmd_ends_def)

lemma cmd_ends_bind:
  assumes "ends p r" "\<And>x q. moved p q \<Longrightarrow> cmd_ends (f (x, q))"
  shows "cmd_ends (res_bind r f)"
proof (cases r)
  case (Inl e)
  with assms(1) show ?thesis by (simp add: ends_def cmd_ends_def)
next
  case (Inr y)
  with assms show ?thesis by (cases y) (simp add: ends_def)
qed

lemma parse_cmd_ends:
  assumes "alloc_total (e_al E)" "p_left p < n" "ch_ok p" "CHR '','' \<notin> set (p_input p)"
  shows "cmd_ends (parse_cmd E n p)"
proof -
  have later: "ends q (parse_object E n q)" "ends q (parse_cmd_type E n q)" if "moved p q" for q
    using that assms by (auto intro!: parse_object_ends ends_cmd_type simp: moved_def)
  have one: "cmd_ends (parse_one E n len q ty data)" if "moved p q" for len q ty data
    unfolding parse_one_def by (auto intro!: cmd_ends_bind [OF later(1) [OF that]])
  have two: "cmd_ends (parse_two E n len q ty data)" if "moved p q" for len q ty data
    unfolding parse_two_def
    using later(1) moved_trans [OF that] by (auto intro!: cmd_ends_bind [OF later(1) [OF that]] cmd_ends_bind [OF later(1)])
  obtain r p1 where h: "parse_header p = (r, p1)" by (cases "parse_header p")
  have m1: "moved p (parser_read_char p1)" using moved_header(1) [OF h] moved_read by (rule moved_trans)
  have "cmd_ends (parse_array_cmd E n p)"
  proof (cases r)
    case None
    with h show ?thesis by (simp add: parse_array_cmd_def)
  next
    case (Some len)
    have "cmd_ends (case ty of
              Help \<Rightarrow> res_bind (parse_bulk_string_cmd E n q) (\<lambda>(help_cmd, p).
                if help_cmd = Illegal then Inr cmd_zero
                else Inr \<lparr>cmd_type = Help, cmd_data = Help_data True help_cmd\<rparr>)
            | Auth \<Rightarrow> parse_two E n len q Auth Auth_data | Set \<Rightarrow> parse_two E n len q Set KV_data
            | Get \<Rightarrow> parse_one E n len q Get K_data | Del \<Rightarrow> parse_one E n len q Del K_data
            | Push \<Rightarrow> parse_one E n len q Push V_data | Enque \<Rightarrow> parse_one E n len q Enque V_data
            | ZSet \<Rightarrow> parse_one E n len q ZSet V_data | ZHas \<Rightarrow> parse_one E n len q ZHas V_data
            | ZDel \<Rightarrow> parse_one E n len q ZDel V_data
            | Select \<Rightarrow> if len \<noteq> 2 then Inr cmd_zero
                else res_bind (parse_object E n q) (\<lambda>(value, p). case value of
                    Int_o num \<Rightarrow> Inr \<lparr>cmd_type = Select, cmd_data = V_data value\<rparr> | _ \<Rightarrow> Inr cmd_zero)
            | _ \<Rightarrow> Inr cmd_zero)" if "moved p q" for ty q
      using one [OF that] two [OF that] that
      by (auto simp: parse_bulk_string_cmd_def intro!: cmd_ends_bind [OF later(1)] cmd_ends_bind [OF later(2)]
          split: cmdt.split object.split)
    with h Some show ?thesis
      by (auto simp: parse_array_cmd_def intro!: cmd_ends_bind [OF later(2) [OF m1]] moved_trans [OF m1])
  qed
  moreover obtain x where "vstr_new_len (e_al E) 5 = Inr x" by (auto simp: vstr_new_len_def)
  moreover have "cmd_ends (res_bind (parse_bulk_string_cmd E n p) (\<lambda>(type, p). Inr \<lparr>cmd_type = type, cmd_data = No_data\<rparr>))"
    unfolding parse_bulk_string_cmd_def by (rule cmd_ends_bind [OF later(2)]) auto
  moreover have "ends p (parse_simple_string (e_al E) p)" by (rule ends_simple [OF assms(1)])
  ultimately show ?thesis
    by (auto simp: parse_cmd_def parse_simple_string_cmd_def ends_def res_bind_assoc cmd_ends_def)
qed

section \<open>Reading lines\<close>

lemma parse_simple_string_reads:
  assumes "at_text p (c # w @ CR # LF # t)" "alloc_total al" "CR \<notin> set w" "NUL \<notin> set w" "length w \<le> VSTR_MAX_LARGE_SIZE"
  obtains s p' where "parse_simple_string al p = Inr (s, p')" "at_text p' (LF # t)" "vstr_clean s" "vstr_str s = w"
proof -
  obtain s0 where s0: "vstr_new_len al 5 = Inr s0"
    using vstr_new_len_total [OF assms(2), of 5] by (auto simp: VSTR_MAX_LARGE_SIZE_def)
  note c0 = vstr_new_len_clean [OF s0]
  from parse_line_loop_reads [OF at_text_read [OF assms(1)] assms(3,4) c0(1) assms(2)] c0(2) assms(5) obtain s p' where
    r: "parse_line_loop al (parser_read_char p) s0 = (s, p')" "at_text p' (CR # LF # t)" "vstr_clean s" "vstr_str s = w"
    by auto
  with at_line_end [OF r(2)] s0 at_text_read [OF r(2)] show thesis
    by (intro that [of s "parser_read_char p'"]) (simp_all add: parse_simple_string_def finish_line_def)
qed

lemma parse_error_reads:
  assumes "at_text p (c # w @ CR # LF # t)" "alloc_total al" "CR \<notin> set w" "NUL \<notin> set w" "length w \<le> VSTR_MAX_LARGE_SIZE"
  obtains s p' where "parse_error al p = (s, p')" "at_text p' (LF # t)" "vstr_clean s" "vstr_str s = w"
proof -
  from parse_line_loop_reads [OF at_text_read [OF assms(1)] assms(3,4) vstr_new_clean(1) assms(2)] assms(5) obtain s p' where
    r: "parse_line_loop al (parser_read_char p) vstr_new = (s, p')" "at_text p' (CR # LF # t)" "vstr_clean s" "vstr_str s = w"
    by auto
  with at_line_end [OF r(2)] at_text_read [OF r(2)] show thesis
    by (intro that [of s "parser_read_char p'"]) (simp_all add: parse_error_def finish_line_def)
qed

text \<open>A line with a sign in front of it, read by the client: a string, whatever the sign.\<close>

lemma parse_from_server_line:
  assumes "n \<le> length buf" "take n buf = c # w @ CRLF" "c = CHR ''+'' \<or> c = CHR ''-''" "alloc_total (e_al E)"
    and "CR \<notin> set w" "NUL \<notin> set w" "length w \<le> VSTR_MAX_LARGE_SIZE"
  shows "\<exists>obj. parse_from_server E buf n = Inr obj \<and> obj_value obj = VStr w \<and> clean_obj obj"
proof -
  have at: "at_text (parser_new buf n) (c # w @ CR # LF # [])"
    using at_text_buffer [OF assms(1)] assms(2) by simp
  then have c: "p_ch (parser_new buf n) = c" by (simp add: at_text_ch)
  show ?thesis
  proof (cases "c = CHR ''+''")
    case True
    from parse_simple_string_reads [OF at assms(4-7)] obtain s p' where
      "parse_simple_string (e_al E) (parser_new buf n) = Inr (s, p')" "vstr_str s = w" "vstr_clean s" by blast
    with c True show ?thesis by (simp add: parse_from_server_def object_new_def)
  next
    case False
    from parse_error_reads [OF at assms(4-7)] obtain s p' where
      "parse_error (e_al E) (parser_new buf n) = (s, p')" "vstr_str s = w" "vstr_clean s" by blast
    with c False assms(3) show ?thesis by (simp add: parse_from_server_def object_new_def)
  qed
qed

section \<open>Reading commands\<close>

lemma lookup_from_map:
  assumes "\<forall>(c, l, t) \<in> set ls. l = length c" "n \<le> length d"
  shows "lookup_from ls d n =
    (case map_of (map (\<lambda>(c, l, t). (c, t)) ls) (take n d) of None \<Rightarrow> Illegal | Some t \<Rightarrow> t)"
  using assms by (induction ls d n rule: lookup_from.induct) (auto simp: memcmp_eq_0)

lemma lookup_cmd_word:
  assumes "vstr_live s"
  shows "lookup_cmd s = (case map_of (map (\<lambda>(c, l, t). (c, t)) lookup) (vstr_str s) of None \<Rightarrow> Illegal | Some t \<Rightarrow> t)"
  unfolding lookup_cmd_def vstr_str_def
  using assms vstr_len_le_data [OF vstr_live_wf] by (intro lookup_from_map) (auto simp: lookup_def)

lemma parse_simple_cmd_reads:
  assumes "n \<le> length buf" "take n buf = CHR ''+'' # w @ CRLF" "alloc_total (e_al E)"
    and "map_of (map (\<lambda>(c, l, t). (c, t)) lookup) w = Some ty" "CR \<notin> set w" "NUL \<notin> set w" "length w \<le> VSTR_MAX_LARGE_SIZE"
  shows "parse E buf n = Inr \<lparr>cmd_type = ty, cmd_data = No_data\<rparr>"
proof -
  have at: "at_text (parser_new buf n) (CHR ''+'' # w @ CR # LF # [])"
    using at_text_buffer [OF assms(1)] assms(2) by simp
  from parse_simple_string_reads [OF at assms(3,5-7)] obtain s p' where
    s: "parse_simple_string (e_al E) (parser_new buf n) = Inr (s, p')" "vstr_clean s" "vstr_str s = w" .
  obtain s0 where "vstr_new_len (e_al E) 5 = Inr s0"
    using vstr_new_len_total [OF assms(3), of 5] by (auto simp: VSTR_MAX_LARGE_SIZE_def)
  with s lookup_cmd_word [OF vstr_clean_live [OF s(2)]] assms(4) at_text_ch [OF at] show ?thesis
    by (simp add: parse_def parse_cmd_def parse_simple_string_cmd_def)
qed

lemma parse_cmd_type_reads:
  assumes "at_text p (enc g (VStr w) @ t)" "alloc_total (e_al E)" "length w < VSTR_MAX_LARGE_SIZE" "0 < n"
  obtains p' where "parse_cmd_type E n p =
      Inr (case map_of (map (\<lambda>(c, l, t). (c, t)) lookup) w of None \<Rightarrow> Illegal | Some t \<Rightarrow> t, p')" "at_text p' t"
proof -
  obtain m where n: "n = Suc m" using assms(4) by (cases n) auto
  from reads_valueE [OF reads_string [OF assms(2,3), of m g] assms(1)] obtain obj p' where
    o: "parse_object E n p = Inr (obj, p')" "at_text p' t" "obj_value obj = VStr w" "parsed_ok obj"
    unfolding n by blast
  then obtain s where s: "obj = String s" "vstr_str s = w" "vstr_live s"
    by (cases obj) (auto simp: vstr_clean_live)
  have "p_ch p = CHR ''$''" using assms(1) by (simp add: at_text_def)
  with o(1,2) s lookup_cmd_word [OF s(3)] show thesis
    by (intro that [of p']) (simp_all add: parse_cmd_type_def del: parse_object.simps)
qed

lemma wire_not_Null: "wire E g v \<Longrightarrow> obj_value obj = v \<Longrightarrow> obj \<noteq> Null"
  by (cases obj) auto

lemma parse_one_reads:
  assumes "at_text p (enc g v @ t)" "wire E g v" "vdepth v < n" "alloc_total (e_al E)" "fmt_g_ok g"
  obtains obj where "parse_one E n 2 p ty data = Inr \<lparr>cmd_type = ty, cmd_data = data obj\<rparr>"
    "obj_value obj = v" "parsed_ok obj"
proof -
  from reads_valueE [OF parse_object_reads [OF assms(2-5)] assms(1)] obtain obj p' where
    "parse_object E n p = Inr (obj, p')" "obj_value obj = v" "parsed_ok obj" .
  with that [of obj] wire_not_Null [OF assms(2)] show thesis
    by (simp add: parse_one_def del: parse_object.simps)
qed

lemma parse_two_reads:
  assumes "at_text p (enc g k @ enc g v @ t)" "wire E g k" "vdepth k < n" "wire E g v" "vdepth v < n"
    "alloc_total (e_al E)" "fmt_g_ok g"
  obtains ko vo where "parse_two E n 3 p ty data = Inr \<lparr>cmd_type = ty, cmd_data = data ko vo\<rparr>"
    "obj_value ko = k" "parsed_ok ko" "obj_value vo = v" "parsed_ok vo"
proof -
  from reads_valueE [OF parse_object_reads [OF assms(2,3,6,7)] assms(1)] obtain ko p1 where
    k: "parse_object E n p = Inr (ko, p1)" "at_text p1 (enc g v @ t)" "obj_value ko = k" "parsed_ok ko" .
  from reads_valueE [OF parse_object_reads [OF assms(4-7)] k(2)] obtain vo p2 where
    v: "parse_object E n p1 = Inr (vo, p2)" "obj_value vo = v" "parsed_ok vo" .
  from k v that [of ko vo] wire_not_Null [OF assms(2)] wire_not_Null [OF assms(4)] show thesis
    by (simp add: parse_two_def del: parse_object.simps)
qed

text \<open>A message: the array of a command word and its arguments, as the client sends it.\<close>

definition message :: "fmt_double \<Rightarrow> string \<Rightarrow> avalue list \<Rightarrow> string" where
  "message g w args = enc g (VArr (VStr w # args))"

lemma parse_message_word:
  assumes "n \<le> length buf" "take n buf = message g w args"
    "alloc_total (e_al E)" "length args + 1 < 2 ^ 64" "length w < VSTR_MAX_LARGE_SIZE"
  obtains p where "parse E buf n = parse_array_cmd E (n + 2) (parser_new buf n)"
    "parse_header (parser_new buf n) = (Some (of_nat (Suc (length args))), p)"
    "at_text (parser_read_char p) (enc g (VStr w) @ concat (map (enc g) args))"
proof -
  let ?p = "parser_new buf n"
  have "at_text ?p (message g w args)" using at_text_buffer [OF assms(1)] assms(2) by simp
  then have at: "at_text ?p (CHR ''*'' # fmt_lu (Suc (length args)) @ CR # LF #
      enc g (VStr w) @ concat (map (enc g) args))" by (simp add: message_def)
  from parse_header_reads [OF at] obtain p where
    p: "parse_header ?p = (Some (of_nat (Suc (length args))), p)"
      "at_text p (LF # enc g (VStr w) @ concat (map (enc g) args))" .
  show thesis
    using p(1) at_text_read [OF p(2)] at_text_ch [OF at] by (intro that [of p]) (simp_all add: parse_def parse_cmd_def)
qed

section \<open>Inputs that stop the server\<close>

text \<open>Without a CR the loop of \<^verbatim>\<open>parse_double\<close> goes on at the end of the input for ever.\<close>

lemma at_text_end: "at_text p [] \<Longrightarrow> at_text (parser_read_char p) []"
  using p_rest_step [of p] by (auto simp: at_text_def parser_read_char_def p_rest_def split: if_splits)

lemma parse_double_loop_None:
  assumes "at_text p t" "CR \<notin> set t"
  shows "parse_double_loop al p s = None"
proof (rule ccontr)
  assume "parse_double_loop al p s \<noteq> None"
  then obtain r where r: "parse_double_loop al p s = Some r" by auto
  have "\<forall>t. at_text p t \<longrightarrow> CR \<in> set t"
  proof (rule parse_double_loop.raw_induct [where P = "\<lambda>al p s r. \<forall>t. at_text p t \<longrightarrow> CR \<in> set t", OF _ r])
    fix loop al p s r
    assume IH: "\<And>al p s r. loop al p s = Some r \<Longrightarrow> \<forall>t. at_text p t \<longrightarrow> CR \<in> set t"
      and step: "(if p_ch p \<noteq> CR then loop al (parser_read_char p) (snd (vstr_push_char al s (p_ch p)))
        else Some (s, p)) = Some r"
    show "\<forall>t. at_text p t \<longrightarrow> CR \<in> set t"
    proof (intro allI impI)
      fix t
      assume t: "at_text p t"
      show "CR \<in> set t"
      proof (cases "p_ch p = CR")
        case True
        with t show ?thesis by (cases t) (auto simp: at_text_def)
      next
        case False
        with step have "loop al (parser_read_char p) (snd (vstr_push_char al s (p_ch p))) = Some r" by simp
        from IH [OF this] t at_text_end [of p] at_text_read [of p] show ?thesis by (cases t) auto
      qed
    qed
  qed
  with assms show False by blast
qed

lemma ch_ok_new: "n \<le> length s \<Longrightarrow> ch_ok (parser_new s n)" "p_input (parser_new s n) = s"
  "p_left (parser_new s n) \<le> n"
  using moved_read [of "\<lparr>p_input = s, p_input_len = n, p_pos = 0, p_ch = NUL\<rparr>"]
  by (auto simp: moved_def ch_ok_def parser_new_def p_left_def)

section \<open>Properties\<close>

text \<open>
  C15. Round trip of values: the parser reads the encoding of every value (64-bit integers,
  doubles whose text reads back, booleans, strings of arbitrary bytes, nested arrays) as an object
  of the same value, whatever follows in the buffer.
\<close>

theorem parse_value_roundtrip:
  assumes "wire E g v" "alloc_total (e_al E)" "fmt_g_ok g"
  shows "\<exists>obj. parse_from_server E (enc g v @ t) (length (enc g v @ t)) = Inr obj \<and> obj_value obj = v"
proof -
  have "vdepth v < length (enc g v @ t) + 2" using vdepth_enc [of v g] by simp
  from reads_valueE [OF parse_object_reads [OF assms(1) this assms(2,3)] at_text_new] obtain obj p' where
    "parse_object E (length (enc g v @ t) + 2) (parser_new (enc g v @ t) (length (enc g v @ t))) = Inr (obj, p')"
    "obj_value obj = v" .
  then show ?thesis by (simp add: parse_from_server_def del: parse_object.simps)
qed

theorem parse_value_roundtrip_witness:
  "\<exists>obj. parse_from_server \<lparr>e_al = (\<lambda>_. 4096), e_random = [], e_cmp = 64, e_strtod = (\<lambda>_. 0), e_strtold = (\<lambda>_. 0)\<rparr>
      (enc (\<lambda>_. ''0'') (VArr [VInt (- 7), VArr [], VStr [CR, LF, NUL]]) @ ''+OK'')
      (length (enc (\<lambda>_. ''0'') (VArr [VInt (- 7), VArr [], VStr [CR, LF, NUL]]) @ ''+OK'')) = Inr obj \<and>
    obj_value obj = VArr [VInt (- 7), VArr [], VStr [CR, LF, NUL]]"
  by (rule parse_value_roundtrip) (simp_all add: fmt_g_ok_def VSTR_MAX_LARGE_SIZE_def)

text \<open>
  C16. The parser of commands ends on every input that has no comma (no double): with memory it
  returns a command (perhaps \<^verbatim>\<open>Illegal\<close>) or stops at the assertion on the length of a string; the nesting
  depth it is given is never used up.
\<close>

theorem parse_terminates:
  assumes "alloc_total (e_al E)" "CHR '','' \<notin> set input" "n \<le> length input"
  shows "(\<exists>c. parse E input n = Inr c) \<or> parse E input n = Inl Assert_failed"
proof -
  have "p_left (parser_new input n) < n + 2" using ch_ok_new(3) [of input n] by simp
  from parse_cmd_ends [OF assms(1) this ch_ok_new(1) [OF assms(3)]] assms(2) show ?thesis
    by (auto simp: parse_def ch_ok_new(2) cmd_ends_def)
qed

theorem parse_terminates_witness:
  "(\<exists>c. parse \<lparr>e_al = (\<lambda>_. 4096), e_random = [], e_cmp = 64, e_strtod = (\<lambda>_. 0), e_strtold = (\<lambda>_. 0)\<rparr> ''*3$%'' 4 = Inr c) \<or>
   parse \<lparr>e_al = (\<lambda>_. 4096), e_random = [], e_cmp = 64, e_strtod = (\<lambda>_. 0), e_strtold = (\<lambda>_. 0)\<rparr> ''*3$%'' 4 = Inl Assert_failed"
  by (rule parse_terminates) simp_all

text \<open>
  C38. A command with a double that is not followed by a CR stops the server: the loop that
  collects the digits does not test for the end of the input, and \<^verbatim>\<open>parse\<close> never returns.
\<close>

theorem parse_double_diverges:
  assumes "CR \<notin> set digits" "alloc_total (e_al E)"
    and "input = ''*'' @ fmt_lu 2 @ CRLF @ enc g (VStr ''GET'') @ '','' @ digits"
  shows "parse E input (length input) = Inl Diverges"
proof -
  let ?p = "parser_new input (length input)" and ?n = "length input + 2"
  have "at_text ?p input" by (rule at_text_new)
  then have at: "at_text ?p (CHR ''*'' # fmt_lu 2 @ CR # LF # enc g (VStr ''GET'') @ CHR '','' # digits)"
    using assms(3) by (metis (no_types, lifting) append.simps)
  from parse_header_reads [OF at] obtain p1 where
    p1: "parse_header ?p = (Some 2, p1)" "at_text p1 (LF # enc g (VStr ''GET'') @ CHR '','' # digits)"
    by (metis of_nat_numeral)
  have "length ''GET'' < VSTR_MAX_LARGE_SIZE" by (simp add: VSTR_MAX_LARGE_SIZE_def)
  from parse_cmd_type_reads [OF at_text_read [OF p1(2)] assms(2) this, of ?n] obtain p2 where
    p2: "parse_cmd_type E ?n (parser_read_char p1) = Inr (Get, p2)" "at_text p2 (CHR '','' # digits)"
    by (auto simp: lookup_def)
  have "parse_double E p2 = Inl Diverges"
    using parse_double_loop_None [OF at_text_read [OF p2(2)] assms(1)] by (simp add: parse_double_def)
  then have "parse_object E ?n p2 = Inl Diverges" using at_text_ch [OF p2(2)] by simp
  then have "parse_one E ?n 2 p2 Get K_data = Inl Diverges" by (simp add: parse_one_def del: parse_object.simps)
  with p1(1) p2(1) at_text_ch [OF at] show ?thesis by (simp add: parse_def parse_cmd_def parse_array_cmd_def)
qed

theorem parse_double_diverges_witness:
  "parse \<lparr>e_al = (\<lambda>_. 4096), e_random = [], e_cmp = 64, e_strtod = (\<lambda>_. 0), e_strtold = (\<lambda>_. 0)\<rparr>
     (''*'' @ fmt_lu 2 @ CRLF @ enc (\<lambda>_. ''0'') (VStr ''GET'') @ '','' @ ''3.14'')
     (length (''*'' @ fmt_lu 2 @ CRLF @ enc (\<lambda>_. ''0'') (VStr ''GET'') @ '','' @ ''3.14'')) = Inl Diverges"
  by (rule parse_double_diverges) simp_all

text \<open>
  C39. A string whose announced length does not fit 56 bits stops the server at an assertion,
  before any byte of the string has been received.
\<close>

theorem parse_long_string_aborts:
  assumes "VSTR_MAX_LARGE_SIZE \<le> n" "n + 1 < 2 ^ 64" "input = ''$'' @ fmt_lu n @ CRLF @ t"
  shows "parse E input (length input) = Inl Assert_failed"
proof -
  let ?p = "parser_new input (length input)"
  have "at_text ?p input" by (rule at_text_new)
  then have at: "at_text ?p (CHR ''$'' # fmt_lu n @ CR # LF # t)" using assms(3) by simp
  from parse_header_reads [OF at] obtain p where h: "parse_header ?p = (Some (of_nat n), p)" .
  have "unat (of_nat n + 1 :: 64 word) = n + 1" using unat_of_nat_64 [OF assms(2)] by (simp add: add.commute)
  moreover have "vstr_new_len (e_al E) (n + 1) = Inl Assert_failed"
    using assms(1) MAX_LARGE_gt by (simp add: vstr_new_len_def)
  ultimately have "parse_string (e_al E) (parser_read_char p) (of_nat n) = Inl Assert_failed"
    by (simp add: parse_string_def)
  with h at_text_ch [OF at] show ?thesis
    by (simp add: parse_def parse_cmd_def parse_bulk_string_cmd_def parse_cmd_type_def)
qed

theorem parse_long_string_aborts_witness:
  "parse \<lparr>e_al = (\<lambda>_. 4096), e_random = [], e_cmp = 64, e_strtod = (\<lambda>_. 0), e_strtold = (\<lambda>_. 0)\<rparr>
     (''$'' @ fmt_lu (2 ^ 60) @ CRLF @ []) (length (''$'' @ fmt_lu (2 ^ 60) @ CRLF @ [])) = Inl Assert_failed"
  by (rule parse_long_string_aborts [where n = "2 ^ 60" and t = "[]"]) (simp_all add: VSTR_MAX_LARGE_SIZE_def)

end
