(* ===== verification/Sha256.thy ===== *)
theory Sha256
  imports Vstr
begin

unbundle bit_operations_syntax

text \<open>
  The hash of passwords: SHA-256 (\<^verbatim>\<open>src/src/sha256.h\<close>, \<^verbatim>\<open>src/src/sha256.c\<close>) and the functions on
  passwords (\<^verbatim>\<open>src/src/auth.c\<close>). The theory holds the functions as they are written, with the
  buffer of the context that is filled byte by byte, a reference definition in the form of
  the standard (pad the message, cut it into blocks, compress each), and the proof that the two
  agree.
\<close>

section \<open>The code\<close>

record SHA256_CTX =
  ctx_data :: string
  ctx_datalen :: nat
  ctx_bitlen :: "64 word"
  ctx_state :: "32 word list"

definition ROTRIGHT :: "32 word \<Rightarrow> nat \<Rightarrow> 32 word" where
  "ROTRIGHT a b = drop_bit b a OR push_bit (32 - b) a"

definition CH :: "32 word \<Rightarrow> 32 word \<Rightarrow> 32 word \<Rightarrow> 32 word" where
  "CH x y z = (x AND y) XOR (NOT x AND z)"

definition MAJ :: "32 word \<Rightarrow> 32 word \<Rightarrow> 32 word \<Rightarrow> 32 word" where
  "MAJ x y z = (x AND y) XOR (x AND z) XOR (y AND z)"

definition EP0 :: "32 word \<Rightarrow> 32 word" where
  "EP0 x = ROTRIGHT x 2 XOR ROTRIGHT x 13 XOR ROTRIGHT x 22"

definition EP1 :: "32 word \<Rightarrow> 32 word" where
  "EP1 x = ROTRIGHT x 6 XOR ROTRIGHT x 11 XOR ROTRIGHT x 25"

definition SIG0 :: "32 word \<Rightarrow> 32 word" where
  "SIG0 x = ROTRIGHT x 7 XOR ROTRIGHT x 18 XOR drop_bit 3 x"

definition SIG1 :: "32 word \<Rightarrow> 32 word" where
  "SIG1 x = ROTRIGHT x 17 XOR ROTRIGHT x 19 XOR drop_bit 10 x"

text \<open>The table of constants, row by row as in the source.\<close>

definition sha_k :: "32 word list" where
  "sha_k = concat [
    [0x428a2f98, 0x71374491, 0xb5c0fbcf, 0xe9b5dba5, 0x3956c25b, 0x59f111f1],
    [0x923f82a4, 0xab1c5ed5, 0xd807aa98, 0x12835b01, 0x243185be, 0x550c7dc3],
    [0x72be5d74, 0x80deb1fe, 0x9bdc06a7, 0xc19bf174, 0xe49b69c1, 0xefbe4786],
    [0x0fc19dc6, 0x240ca1cc, 0x2de92c6f, 0x4a7484aa, 0x5cb0a9dc, 0x76f988da],
    [0x983e5152, 0xa831c66d, 0xb00327c8, 0xbf597fc7, 0xc6e00bf3, 0xd5a79147],
    [0x06ca6351, 0x14292967, 0x27b70a85, 0x2e1b2138, 0x4d2c6dfc, 0x53380d13],
    [0x650a7354, 0x766a0abb, 0x81c2c92e, 0x92722c85, 0xa2bfe8a1, 0xa81a664b],
    [0xc24b8b70, 0xc76c51a3, 0xd192e819, 0xd6990624, 0xf40e3585, 0x106aa070],
    [0x19a4c116, 0x1e376c08, 0x2748774c, 0x34b0bcb5, 0x391c0cb3, 0x4ed8aa4a],
    [0x5b9cca4f, 0x682e6ff3, 0x748f82ee, 0x78a5636f, 0x84c87814, 0x8cc70208],
    [0x90befffa, 0xa4506ceb, 0xbef9a3f7, 0xc67178f2]]"

text \<open>The two loops that fill the message schedule \<^verbatim>\<open>m\<close>.\<close>

definition sha_load :: "string \<Rightarrow> nat \<Rightarrow> 32 word" where
  "sha_load d i =
     (let j = 4 * i in
      push_bit 24 (of_char (d ! j)) OR push_bit 16 (of_char (d ! (j + 1))) OR
      push_bit 8 (of_char (d ! (j + 2))) OR of_char (d ! (j + 3)))"

fun sha_extend :: "nat \<Rightarrow> 32 word list \<Rightarrow> 32 word list" where
  "sha_extend 0 m = m"
| "sha_extend (Suc n) m =
     (let i = length m in
      sha_extend n (m @ [SIG1 (m ! (i - 2)) + m ! (i - 7) + SIG0 (m ! (i - 15)) + m ! (i - 16)]))"

type_synonym sha_vars = "32 word \<times> 32 word \<times> 32 word \<times> 32 word \<times> 32 word \<times> 32 word \<times> 32 word \<times> 32 word"

definition sha_round :: "32 word list \<Rightarrow> sha_vars \<Rightarrow> nat \<Rightarrow> sha_vars" where
  "sha_round m v i = (case v of (a, b, c, d, e, f, g, h) \<Rightarrow>
     let t1 = h + EP1 e + CH e f g + sha_k ! i + m ! i;
         t2 = EP0 a + MAJ a b c
     in (t1 + t2, a, b, c, d + t1, e, f, g))"

text \<open>\<^verbatim>\<open>sha256_transform\<close> on the state words: it reads 64 bytes of the buffer.\<close>

definition sha256_transform :: "32 word list \<Rightarrow> string \<Rightarrow> 32 word list" where
  "sha256_transform st d =
     (let m = sha_extend 48 (map (sha_load d) [0..<16]) in
      case foldl (sha_round m)
          (st ! 0, st ! 1, st ! 2, st ! 3, st ! 4, st ! 5, st ! 6, st ! 7) [0..<64] of
        (a, b, c, d, e, f, g, h) \<Rightarrow>
          [st ! 0 + a, st ! 1 + b, st ! 2 + c, st ! 3 + d, st ! 4 + e, st ! 5 + f, st ! 6 + g, st ! 7 + h])"

definition sha_init_state :: "32 word list" where
  "sha_init_state = [0x6a09e667, 0xbb67ae85, 0x3c6ef372, 0xa54ff53a,
     0x510e527f, 0x9b05688c, 0x1f83d9ab, 0x5be0cd19]"

definition sha256_init :: "SHA256_CTX \<Rightarrow> SHA256_CTX" where
  "sha256_init ctx = ctx\<lparr>ctx_datalen := 0, ctx_bitlen := 0, ctx_state := sha_init_state\<rparr>"

definition sha256_update_byte :: "SHA256_CTX \<Rightarrow> byte \<Rightarrow> SHA256_CTX" where
  "sha256_update_byte ctx c =
     (let ctx = ctx\<lparr>ctx_data := (ctx_data ctx)[ctx_datalen ctx := c], ctx_datalen := ctx_datalen ctx + 1\<rparr> in
      if ctx_datalen ctx = 64
      then ctx\<lparr>ctx_state := sha256_transform (ctx_state ctx) (ctx_data ctx),
               ctx_bitlen := ctx_bitlen ctx + 512, ctx_datalen := 0\<rparr>
      else ctx)"

text \<open>The counter of the loop has 32 bits, so a longer input is never used up.\<close>

definition sha256_update :: "SHA256_CTX \<Rightarrow> string \<Rightarrow> SHA256_CTX res" where
  "sha256_update ctx data =
     (if length data \<ge> 2 ^ 32 then Inl Diverges else Inr (foldl sha256_update_byte ctx data))"

text \<open>\<^verbatim>\<open>ctx->data[i++] = 0x80; while (i < lim) ctx->data[i++] = 0x00;\<close>\<close>

definition sha_pad_buffer :: "string \<Rightarrow> nat \<Rightarrow> nat \<Rightarrow> string" where
  "sha_pad_buffer d i lim = take i d @ [CHR 0x80] @ replicate (lim - (i + 1)) NUL @ drop lim d"

text \<open>The eight assignments that store the length, most significant byte first.\<close>

definition be64 :: "64 word \<Rightarrow> string" where
  "be64 w = map (\<lambda>i. char_of (unat (drop_bit (56 - 8 * i) w))) [0..<8]"

definition sha256_digest :: "32 word list \<Rightarrow> string" where
  "sha256_digest st =
     concat (map (\<lambda>w. map (\<lambda>i. char_of (unat (drop_bit (24 - i * 8) w AND 0xff))) [0..<4]) st)"

definition sha256_final :: "SHA256_CTX \<Rightarrow> string \<times> SHA256_CTX" where
  "sha256_final ctx =
     (let i = ctx_datalen ctx;
          ctx1 = (if ctx_datalen ctx < 56
                  then ctx\<lparr>ctx_data := sha_pad_buffer (ctx_data ctx) i 56\<rparr>
                  else
                    let d = sha_pad_buffer (ctx_data ctx) i 64 in
                    ctx\<lparr>ctx_state := sha256_transform (ctx_state ctx) d,
                        ctx_data := replicate 56 NUL @ drop 56 d\<rparr>);
          bitlen = ctx_bitlen ctx1 + of_nat (ctx_datalen ctx1 * 8);
          d = take 56 (ctx_data ctx1) @ be64 bitlen;
          ctx2 = ctx1\<lparr>ctx_bitlen := bitlen, ctx_data := d,
                      ctx_state := sha256_transform (ctx_state ctx1) d\<rparr>
      in (sha256_digest (ctx_state ctx2), ctx2))"

section \<open>The reference definition\<close>

text \<open>
  FIPS 180: the message, a one bit, zeros, and the length in bits as 64 bits, up to a multiple of
  64 bytes; every block of 64 bytes is compressed into the state.
\<close>

definition sha_zeros :: "nat \<Rightarrow> nat" where
  "sha_zeros n = (if n mod 64 < 56 then 55 - n mod 64 else 119 - n mod 64)"

definition sha_pad :: "string \<Rightarrow> string" where
  "sha_pad msg = msg @ [CHR 0x80] @ replicate (sha_zeros (length msg)) NUL @ be64 (of_nat (8 * length msg))"

fun sha_blocks :: "nat \<Rightarrow> string \<Rightarrow> string list" where
  "sha_blocks 0 p = []"
| "sha_blocks (Suc n) p = take 64 p # sha_blocks n (drop 64 p)"

definition sha256_spec :: "string \<Rightarrow> string" where
  "sha256_spec msg =
     (let p = sha_pad msg in
      sha256_digest (foldl sha256_transform sha_init_state (sha_blocks (length p div 64) p)))"

section \<open>Agreement\<close>

lemma sha_load_take: "i < 16 \<Longrightarrow> 64 \<le> length d \<Longrightarrow> sha_load (take 64 d) i = sha_load d i"
  by (simp add: sha_load_def Let_def)

lemma length_be64 [simp]: "length (be64 w) = 8"
  by (simp add: be64_def)

lemma sha_blocks_append: "64 * n \<le> length p \<Longrightarrow> sha_blocks n (p @ q) = sha_blocks n p"
  by (induction n arbitrary: p) auto

lemma sha_blocks_Suc: "sha_blocks (Suc n) p = sha_blocks n p @ [take 64 (drop (64 * n) p)]"
proof (induction n arbitrary: p)
  case 0
  show ?case by simp
next
  case (Suc n)
  have "sha_blocks (Suc (Suc n)) p = take 64 p # sha_blocks (Suc n) (drop 64 p)" by simp
  also have "\<dots> = take 64 p # sha_blocks n (drop 64 p) @ [take 64 (drop (64 * n) (drop 64 p))]"
    by (simp only: Suc.IH)
  finally show ?case by (simp add: add.commute)
qed

text \<open>The context after a message: full blocks are in the state, the rest is in the buffer.\<close>

definition sha_inv :: "SHA256_CTX \<Rightarrow> string \<Rightarrow> bool" where
  "sha_inv ctx msg \<longleftrightarrow>
     length (ctx_data ctx) = 64 \<and> ctx_datalen ctx = length msg mod 64 \<and>
     ctx_bitlen ctx = of_nat (512 * (length msg div 64)) \<and>
     take (length msg mod 64) (ctx_data ctx) = drop (64 * (length msg div 64)) msg \<and>
     ctx_state ctx = foldl sha256_transform sha_init_state (sha_blocks (length msg div 64) msg)"

lemma sha_inv_init: "length (ctx_data ctx) = 64 \<Longrightarrow> sha_inv (sha256_init ctx) []"
  by (simp add: sha_inv_def sha256_init_def)

lemma sha_inv_byte:
  assumes "sha_inv ctx msg"
  shows "sha_inv (sha256_update_byte ctx c) (msg @ [c])"
proof -
  let ?n = "length msg div 64" and ?r = "length msg mod 64"
  let ?d = "(ctx_data ctx)[?r := c]"
  have inv: "length (ctx_data ctx) = 64" "ctx_datalen ctx = ?r" "ctx_bitlen ctx = of_nat (512 * ?n)"
    "take ?r (ctx_data ctx) = drop (64 * ?n) msg"
    "ctx_state ctx = foldl sha256_transform sha_init_state (sha_blocks ?n msg)"
    using assms by (simp_all add: sha_inv_def)
  have le: "64 * ?n \<le> length msg" by simp
  have r: "?r < 64" by simp
  then have d: "take (Suc ?r) ?d = drop (64 * ?n) (msg @ [c])"
    using inv(1,4) le by (simp add: take_list_update_last)
  have bl: "sha_blocks ?n (msg @ [c]) = sha_blocks ?n msg" using le by (rule sha_blocks_append)
  show ?thesis
  proof (cases "?r = 63")
    case True
    have q: "Suc (length msg) div 64 = Suc ?n" "Suc (length msg) mod 64 = 0"
      using True by (simp_all add: div_Suc mod_Suc)
    have "?d = drop (64 * ?n) (msg @ [c])" using d inv(1) True by simp
    moreover have "length (drop (64 * ?n) (msg @ [c])) = 64"
      using True le by (metis \<open>?d = drop (64 * ?n) (msg @ [c])\<close> inv(1) length_list_update)
    ultimately have "sha_blocks (Suc ?n) (msg @ [c]) = sha_blocks ?n msg @ [?d]"
      unfolding sha_blocks_Suc bl by simp
    then show ?thesis
      using inv True q by (simp add: sha_inv_def sha256_update_byte_def Let_def del: sha_blocks.simps)
  next
    case False
    then have q: "Suc (length msg) div 64 = ?n" "Suc (length msg) mod 64 = Suc ?r"
      using r by (simp_all add: div_Suc mod_Suc)
    from False r have "Suc ?r \<noteq> 64" by simp
    then show ?thesis
      using inv d q bl le by (simp add: sha_inv_def sha256_update_byte_def Let_def)
  qed
qed

lemma sha_inv_update: "sha_inv ctx msg \<Longrightarrow> sha_inv (foldl sha256_update_byte ctx data) (msg @ data)"
proof (induction data arbitrary: ctx msg)
  case Nil
  then show ?case by simp
next
  case (Cons c data)
  from Cons.IH [OF sha_inv_byte [OF Cons.prems, of c]] show ?case by simp
qed

lemma drop_prefix: "drop (length xs) (xs @ ys) = ys"
  by simp

lemma sha_pad_arith:
  "r < 56 \<Longrightarrow> 64 * n + r + 1 + (55 - r) + 8 = 64 * Suc (n :: nat)"
  "r < 64 \<Longrightarrow> 64 * n + r + 1 + (63 - r) = 64 * Suc (n :: nat)"
  "512 * n + r * 8 = 8 * (64 * n + r)"
  by simp_all

text \<open>The blocks of the padded message: the full blocks of the message and one or two more.\<close>

lemma sha_pad_blocks_short:
  assumes "length msg mod 64 < 56"
  shows "sha_blocks (length (sha_pad msg) div 64) (sha_pad msg) = sha_blocks (length msg div 64) msg @
    [drop (64 * (length msg div 64)) msg @ [CHR 0x80] @ replicate (55 - length msg mod 64) NUL @
     be64 (of_nat (8 * length msg))]"
proof -
  let ?n = "length msg div 64" and ?r = "length msg mod 64"
  let ?q = "[CHR 0x80] @ replicate (55 - ?r) NUL @ be64 (of_nat (8 * length msg))"
  have p: "sha_pad msg = msg @ ?q" using assms by (simp add: sha_pad_def sha_zeros_def)
  have le: "64 * ?n \<le> length msg" and rest: "length (drop (64 * ?n) msg) = ?r"
    by (simp_all add: minus_mult_div_eq_mod)
  have "length (sha_pad msg) = length msg + 1 + (55 - ?r) + 8" by (simp add: p)
  also have "\<dots> = 64 * Suc ?n" using sha_pad_arith(1) [OF assms, of ?n] by (simp only: mult_div_mod_eq)
  finally have "length (sha_pad msg) div 64 = Suc ?n" by simp
  moreover have "take 64 (drop (64 * ?n) (sha_pad msg)) = drop (64 * ?n) msg @ ?q"
    using assms le rest by (simp add: p)
  ultimately show ?thesis
    unfolding p by (simp only: sha_blocks_Suc sha_blocks_append [OF le]) 
qed

lemma sha_pad_blocks_long:
  assumes "56 \<le> length msg mod 64"
  shows "sha_blocks (length (sha_pad msg) div 64) (sha_pad msg) = sha_blocks (length msg div 64) msg @
    [drop (64 * (length msg div 64)) msg @ [CHR 0x80] @ replicate (63 - length msg mod 64) NUL,
     replicate 56 NUL @ be64 (of_nat (8 * length msg))]"
proof -
  let ?n = "length msg div 64" and ?r = "length msg mod 64"
  let ?b = "replicate 56 NUL @ be64 (of_nat (8 * length msg))"
  let ?q = "[CHR 0x80] @ replicate (63 - ?r) NUL"
  have r: "?r < 64" by simp
  have "119 - ?r = (63 - ?r) + 56" using assms r by simp
  then have p: "sha_pad msg = (msg @ ?q) @ ?b"
    using assms by (simp add: sha_pad_def sha_zeros_def replicate_add [symmetric])
  have le: "64 * ?n \<le> length msg" and rest: "length (drop (64 * ?n) msg) = ?r"
    by (simp_all add: minus_mult_div_eq_mod)
  have len: "length (msg @ ?q) = 64 * Suc ?n"
  proof -
    have "length (msg @ ?q) = length msg + 1 + (63 - ?r)" by simp
    also have "\<dots> = 64 * Suc ?n" using sha_pad_arith(2) [OF r, of ?n] by (simp only: mult_div_mod_eq)
    finally show ?thesis .
  qed
  then have "length (sha_pad msg) div 64 = Suc (Suc ?n)" by (simp add: p)
  moreover have "drop (64 * Suc ?n) ((msg @ ?q) @ ?b) = ?b" unfolding len [symmetric] by (rule drop_prefix)
  then have "take 64 (drop (64 * Suc ?n) ((msg @ ?q) @ ?b)) = ?b" by simp
  moreover have "sha_blocks (Suc ?n) ((msg @ ?q) @ ?b) = sha_blocks (Suc ?n) (msg @ ?q)"
    using len by (intro sha_blocks_append) simp
  moreover have "sha_blocks (Suc ?n) (msg @ ?q) = sha_blocks ?n msg @ [drop (64 * ?n) msg @ ?q]"
  proof -
    have "length (drop (64 * ?n) msg @ ?q) = 64" using rest r by simp
    then have "take 64 (drop (64 * ?n) msg @ ?q) = drop (64 * ?n) msg @ ?q" by (intro take_all) (simp only: le_refl)
    moreover have "drop (64 * ?n) (msg @ ?q) = drop (64 * ?n) msg @ ?q" using le by simp
    ultimately show ?thesis by (simp only: sha_blocks_Suc sha_blocks_append [OF le])
  qed
  ultimately have "sha_blocks (length (sha_pad msg) div 64) ((msg @ ?q) @ ?b) =
      (sha_blocks ?n msg @ [drop (64 * ?n) msg @ ?q]) @ [?b]"
    by (simp only: sha_blocks_Suc [of "Suc ?n"])
  then show ?thesis unfolding p by (simp only: append_assoc append.simps)
qed

lemma sha256_final_spec:
  assumes "sha_inv ctx msg"
  shows "fst (sha256_final ctx) = sha256_spec msg"
proof -
  let ?n = "length msg div 64" and ?r = "length msg mod 64"
  have inv: "length (ctx_data ctx) = 64" "ctx_datalen ctx = ?r" "ctx_bitlen ctx = of_nat (512 * ?n)"
    "take ?r (ctx_data ctx) = drop (64 * ?n) msg"
    "ctx_state ctx = foldl sha256_transform sha_init_state (sha_blocks ?n msg)"
    using assms by (simp_all add: sha_inv_def)
  have r: "?r < 64" by simp
  have rest: "length (drop (64 * ?n) msg) = ?r" by (simp add: minus_mult_div_eq_mod)
  have "512 * ?n + ?r * 8 = 8 * length msg" using sha_pad_arith(3) [of ?n ?r] by (simp only: mult_div_mod_eq)
  then have bits: "ctx_bitlen ctx + of_nat (?r * 8) = of_nat (8 * length msg)"
    unfolding inv(3) by (simp only: of_nat_add [symmetric])
  show ?thesis
  proof (cases "?r < 56")
    case True
    have "take 56 (sha_pad_buffer (ctx_data ctx) ?r 56) @ be64 (of_nat (8 * length msg)) =
        drop (64 * ?n) msg @ [CHR 0x80] @ replicate (55 - ?r) NUL @ be64 (of_nat (8 * length msg))"
    proof -
      have "56 - ?r = Suc (55 - ?r)" using True by simp
      then show ?thesis using True inv(1) rest by (simp add: sha_pad_buffer_def inv(4))
    qed
    then show ?thesis
      using True inv(2,5) bits
      by (simp add: sha256_final_def sha256_spec_def Let_def sha_pad_blocks_short del: of_nat_mult)
  next
    case False
    have "sha_pad_buffer (ctx_data ctx) ?r 64 = drop (64 * ?n) msg @ [CHR 0x80] @ replicate (63 - ?r) NUL"
      using inv(1) by (simp add: sha_pad_buffer_def inv(4))
    then show ?thesis
      using False inv(2,5) bits
      by (simp add: sha256_final_def sha256_spec_def Let_def sha_pad_blocks_long del: of_nat_mult)
  qed
qed

section \<open>Passwords\<close>

abbreviation HASH_PASSWORD_LEN :: nat where "HASH_PASSWORD_LEN \<equiv> 64"

text \<open>A byte as the \<^verbatim>\<open>int\<close> that the operators of C see.\<close>

definition char_int :: "byte \<Rightarrow> 32 word" where
  "char_int c = scast (of_char c :: 8 word)"

fun time_safe_compare :: "string \<Rightarrow> string \<Rightarrow> nat \<Rightarrow> 32 word res" where
  "time_safe_compare a b 0 = Inr 0"
| "time_safe_compare (x # a) (y # b) (Suc len) =
     res_bind (time_safe_compare a b len) (\<lambda>res. Inr ((char_int x XOR char_int y) OR res))"
| "time_safe_compare _ _ (Suc len) = Inl Out_of_bounds"

definition hex_digit :: "nat \<Rightarrow> byte" where
  "hex_digit n = ''0123456789abcdef'' ! n"

definition hash_hex :: "string \<Rightarrow> string" where
  "hash_hex hash = concat (map (\<lambda>c. [hex_digit (of_char c div 16), hex_digit (of_char c mod 16)]) hash)"

definition hash_password :: "allocator \<Rightarrow> SHA256_CTX \<Rightarrow> string \<Rightarrow> nat \<Rightarrow> vstr res" where
  "hash_password al ctx p len =
     res_bind (sha256_update (sha256_init ctx) (take len p)) (\<lambda>ctx.
       Inr (vstr_from_len al (hash_hex (fst (sha256_final ctx))) HASH_PASSWORD_LEN))"

lemma len8: "LENGTH(8) = 8"
  by simp

lemma of_char_8_eq: "(of_char x :: 8 word) = of_char y \<longleftrightarrow> x = y"
proof
  assume "(of_char x :: 8 word) = of_char y"
  then have "unat (of_nat (of_char x :: nat) :: 8 word) = unat (of_nat (of_char y :: nat) :: 8 word)"
    by (simp only: of_nat_of_char)
  moreover have "(of_char c :: nat) mod 2 ^ 8 = of_char c" for c by simp
  ultimately have "(of_char x :: nat) = of_char y" by (simp only: unat_of_nat len8)
  then show "x = y" by simp
qed simp

lemma char_int_eq: "char_int x = char_int y \<longleftrightarrow> x = y"
proof
  assume "char_int x = char_int y"
  from arg_cong [OF this, of sint]
  have "signed_take_bit 31 (sint (of_char x :: 8 word)) = signed_take_bit 31 (sint (of_char y :: 8 word))"
    by (simp add: char_int_def signed_scast_eq)
  moreover have "signed_take_bit 31 (sint w) = sint w" for w :: "8 word"
    using sint_ge [of w] sint_lt [of w] by (simp add: signed_take_bit_int_eq_self_iff)
  ultimately have "sint (of_char x :: 8 word) = sint (of_char y :: 8 word)" by simp
  then have "(of_char x :: 8 word) = of_char y" by (rule signed_word_eqI)
  then show "x = y" by (simp only: of_char_8_eq)
qed simp

lemma xor_or_eq_0: "(a XOR b) OR c = 0 \<longleftrightarrow> a = b \<and> c = (0 :: 32 word)"
  by (auto simp: bit_eq_iff bit_simps)

text \<open>The comparison looks at every byte and returns 0 exactly on equal texts.\<close>

lemma time_safe_compare_spec:
  assumes "len \<le> length a" "len \<le> length b"
  shows "\<exists>r. time_safe_compare a b len = Inr r \<and> (r = 0 \<longleftrightarrow> take len a = take len b)"
  using assms
proof (induction a b len rule: time_safe_compare.induct)
  case (2 x a y b len)
  then obtain r where "time_safe_compare a b len = Inr r" "r = 0 \<longleftrightarrow> take len a = take len b" by auto
  then show ?case by (simp add: xor_or_eq_0 char_int_eq)
qed auto

lemma length_transform [simp]: "length (sha256_transform st d) = 8"
  by (simp add: sha256_transform_def Let_def split: prod.split)

lemma length_foldl_transform: "length st = 8 \<Longrightarrow> length (foldl sha256_transform st bs) = 8"
  by (induction bs arbitrary: st) simp_all

lemma length_sha256_spec: "length (sha256_spec msg) = 32"
proof -
  have "length (sha256_digest st) = 32" if "length st = 8" for st
    using that by (simp add: sha256_digest_def length_concat comp_def sum_list_triv)
  moreover have "length sha_init_state = 8" by (simp add: sha_init_state_def)
  ultimately show ?thesis by (simp add: sha256_spec_def Let_def length_foldl_transform)
qed

lemma length_hash_hex: "length (hash_hex h) = 2 * length h"
  by (induction h) (simp_all add: hash_hex_def)

lemma hash_password_spec:
  assumes "length (ctx_data ctx) = 64" "len \<le> length p" "len < 2 ^ 32" "alloc_total al"
  obtains s where "hash_password al ctx p len = Inr s" "vstr_clean s"
    "vstr_str s = hash_hex (sha256_spec (take len p))"
proof -
  let ?h = "hash_hex (sha256_spec (take len p))"
  have "sha_inv (foldl sha256_update_byte (sha256_init ctx) (take len p)) (take len p)"
    using sha_inv_update [OF sha_inv_init [OF assms(1)], of "take len p"] by simp
  then have f: "fst (sha256_final (foldl sha256_update_byte (sha256_init ctx) (take len p))) = sha256_spec (take len p)"
    by (rule sha256_final_spec)
  have len: "length ?h = 64" by (simp add: length_hash_hex length_sha256_spec)
  have "64 < VSTR_MAX_LARGE_SIZE" by (simp add: VSTR_MAX_LARGE_SIZE_def)
  with vstr_from_len_clean [OF assms(4) this, of ?h] len show thesis
    using f assms(2,3) by (intro that [of "vstr_from_len al ?h 64"]) (simp_all add: hash_password_def sha256_update_def)
qed

section \<open>Properties\<close>



end
