(* ===== verification/Ev.thy ===== *)
theory Ev
  imports Prelude
begin

unbundle bit_operations_syntax

text \<open>
  The event loop (\<^verbatim>\<open>src/src/ev.h\<close>, \<^verbatim>\<open>src/src/ev.c\<close>) and its two back ends, \<^verbatim>\<open>epoll\<close>
  (\<^verbatim>\<open>src/src/ev_epoll.c\<close>) and \<^verbatim>\<open>select\<close> (\<^verbatim>\<open>src/src/ev_select.c\<close>). The registrations are a table from
  file descriptors to masks and callbacks; the back end keeps its own view of what is waited for.
  The theory holds the operations, the dispatch of fired events, the contract of a back end as a
  locale with both back ends as instances, and the proof that the two views agree.
\<close>

section \<open>Data\<close>

abbreviation EV_NONE :: "32 word" where "EV_NONE \<equiv> 0"
abbreviation EV_READ :: "32 word" where "EV_READ \<equiv> 1"
abbreviation EV_WRITE :: "32 word" where "EV_WRITE \<equiv> 2"
abbreviation EV_BOTH :: "32 word" where "EV_BOTH \<equiv> 4"

text \<open>A registration; the callbacks are pointers, null until they are set.\<close>

record 'f ev_file_event =
  e_mask :: "32 word"
  e_read_fn :: "'f option"
  e_write_fn :: "'f option"
  e_client_data :: addr

text \<open>The loop, with the state of its back end. The array \<^verbatim>\<open>fired\<close> is the argument of the dispatch.\<close>

record ('f, 'a) ev =
  ev_max_fd :: int
  ev_num_fds :: int
  ev_events :: "'f ev_file_event list"
  ev_api :: 'a

text \<open>
  The functions of a back end. They read the mask registered so far from the table, so it is an
  argument of theirs.
\<close>

record 'a ev_api_ops =
  api_new :: "allocator \<Rightarrow> nat \<Rightarrow> 'a option"
  api_add_event :: "'a \<Rightarrow> 32 word \<Rightarrow> nat \<Rightarrow> 32 word \<Rightarrow> int \<times> 'a"
  api_del_event :: "'a \<Rightarrow> 32 word \<Rightarrow> nat \<Rightarrow> 32 word \<Rightarrow> 'a"
  api_resize :: "allocator \<Rightarrow> 'a \<Rightarrow> int \<Rightarrow> int"
  api_name :: string

section \<open>Operations\<close>

definition no_event :: "'f ev_file_event" where
  "no_event = \<lparr>e_mask = EV_NONE, e_read_fn = None, e_write_fn = None, e_client_data = 0\<rparr>"

definition ev_new :: "allocator \<Rightarrow> 'a ev_api_ops \<Rightarrow> nat \<Rightarrow> ('f, 'a) ev option" where
  "ev_new al A num_fds =
     (if al 40 = 0 then None
      else if al (num_fds * 8) = 0 then None
      else if al (num_fds * 32) = 0 then None
      else case api_new A al num_fds of
        None \<Rightarrow> None
      | Some st \<Rightarrow> Some \<lparr>ev_max_fd = - 1, ev_num_fds = int num_fds,
          ev_events = replicate num_fds no_event, ev_api = st\<rparr>)"

definition ev_get_num_fds :: "('f, 'a) ev \<Rightarrow> int" where
  "ev_get_num_fds ev = ev_num_fds ev"

text \<open>\<^verbatim>\<open>ev_resize_num_fds\<close> clears every mask, and it does not store the new number of descriptors.\<close>

definition ev_resize_num_fds :: "allocator \<Rightarrow> 'a ev_api_ops \<Rightarrow> ('f, 'a) ev \<Rightarrow> nat \<Rightarrow> int \<times> ('f, 'a) ev" where
  "ev_resize_num_fds al A ev num_fds =
     (if ev_num_fds ev = int num_fds then (0, ev)
      else if ev_max_fd ev \<ge> int num_fds then (- 1, ev)
      else if api_resize A al (ev_api ev) (int num_fds) = - 1 then (- 1, ev)
      else if al (32 * num_fds) = 0 then (- 1, ev)
      else
        let events = take num_fds (ev_events ev) @ replicate (num_fds - length (ev_events ev)) no_event in
        if al (8 * num_fds) = 0 then (- 1, ev\<lparr>ev_events := events\<rparr>)
        else (0, ev\<lparr>ev_events := map (\<lambda>e. e\<lparr>e_mask := EV_NONE\<rparr>) events\<rparr>))"

text \<open>A descriptor below 0 indexes in front of the table.\<close>

definition ev_add_event :: "'a ev_api_ops \<Rightarrow> ('f, 'a) ev \<Rightarrow> int \<Rightarrow> 32 word \<Rightarrow> 'f \<Rightarrow> addr \<Rightarrow>
    (int \<times> ('f, 'a) ev) res" where
  "ev_add_event A ev fd msk fn client_data =
     (if fd \<ge> ev_num_fds ev then Inr (- 1, ev)
      else if fd < 0 \<or> length (ev_events ev) \<le> nat fd then Inl Out_of_bounds
      else
        let e = ev_events ev ! nat fd;
            (r, st) = api_add_event A (ev_api ev) (e_mask e) (nat fd) msk in
        if r = - 1 then Inr (- 1, ev\<lparr>ev_api := st\<rparr>)
        else
          let e1 = e\<lparr>e_mask := e_mask e OR msk,
                     e_read_fn := (if msk AND EV_READ \<noteq> 0 then Some fn else e_read_fn e),
                     e_write_fn := (if msk AND EV_WRITE \<noteq> 0 then Some fn else e_write_fn e),
                     e_client_data := client_data\<rparr> in
          Inr (0, ev\<lparr>ev_events := (ev_events ev)[nat fd := e1], ev_api := st,
                     ev_max_fd := (if fd > ev_max_fd ev then fd else ev_max_fd ev)\<rparr>))"

text \<open>The loop that looks for the largest descriptor in use below another one.\<close>

fun last_used :: "'f ev_file_event list \<Rightarrow> nat \<Rightarrow> int" where
  "last_used es 0 = - 1"
| "last_used es (Suc i) = (if e_mask (es ! i) \<noteq> EV_NONE then int i else last_used es i)"

definition ev_delete_event :: "'a ev_api_ops \<Rightarrow> ('f, 'a) ev \<Rightarrow> int \<Rightarrow> 32 word \<Rightarrow> ('f, 'a) ev res" where
  "ev_delete_event A ev fd msk =
     (if fd \<ge> ev_num_fds ev then Inr ev
      else if fd < 0 \<or> length (ev_events ev) \<le> nat fd then Inl Out_of_bounds
      else
        let e = ev_events ev ! nat fd in
        if e_mask e = EV_NONE then Inr ev
        else
          let msk = (if msk AND EV_WRITE \<noteq> 0 then msk OR EV_BOTH else msk);
              st = api_del_event A (ev_api ev) (e_mask e) (nat fd) msk;
              e1 = e\<lparr>e_mask := e_mask e AND NOT msk\<rparr>;
              es = (ev_events ev)[nat fd := e1];
              max_fd = (if fd = ev_max_fd ev \<and> e_mask e1 = EV_NONE then last_used es (nat fd)
                        else ev_max_fd ev) in
          Inr (ev\<lparr>ev_events := es, ev_max_fd := max_fd,
                  ev_api := api_del_event A st (e_mask e1) (nat fd) msk\<rparr>))"

section \<open>Dispatch\<close>

text \<open>
  A turn of the loop of \<^verbatim>\<open>ev_process_events\<close> for a fired descriptor. The callbacks work on the
  state of the program, of which the loop is a part: \<^term>\<open>ev_of\<close> finds it, \<^term>\<open>run\<close> runs a callback.
\<close>

definition call_fn :: "('f \<Rightarrow> nat \<Rightarrow> addr \<Rightarrow> 32 word \<Rightarrow> 's \<Rightarrow> 's res) \<Rightarrow> 'f option \<Rightarrow> nat \<Rightarrow> addr \<Rightarrow> 32 word \<Rightarrow>
    's \<Rightarrow> 's res" where
  "call_fn run fn fd client_data msk s =
     (case fn of None \<Rightarrow> Inl Null_deref | Some f \<Rightarrow> run f fd client_data msk s)"

definition ev_dispatch :: "('s \<Rightarrow> ('f, 'a) ev) \<Rightarrow> ('f \<Rightarrow> nat \<Rightarrow> addr \<Rightarrow> 32 word \<Rightarrow> 's \<Rightarrow> 's res) \<Rightarrow>
    nat \<times> 32 word \<Rightarrow> 's \<Rightarrow> 's res" where
  "ev_dispatch ev_of run fired_event s = (case fired_event of (fd, msk) \<Rightarrow>
     if length (ev_events (ev_of s)) \<le> fd then Inl Out_of_bounds
     else
       let e = ev_events (ev_of s) ! fd; invert = (e_mask e AND EV_BOTH \<noteq> 0) in
       res_bind
         (if \<not> invert \<and> e_mask e AND msk AND EV_READ \<noteq> 0
          then res_bind (call_fn run (e_read_fn e) fd (e_client_data e) msk s) (\<lambda>s. Inr (True, s))
          else Inr (False, s)) (\<lambda>(fired, s).
       let e = ev_events (ev_of s) ! fd in
       res_bind
         (if e_mask e AND msk AND EV_WRITE \<noteq> 0 \<and> (\<not> fired \<or> e_write_fn e \<noteq> e_read_fn e)
          then res_bind (call_fn run (e_write_fn e) fd (e_client_data e) msk s) (\<lambda>s. Inr (True, s))
          else Inr (fired, s)) (\<lambda>(fired, s).
       let e = ev_events (ev_of s) ! fd in
       if invert \<and> e_mask e AND msk AND EV_READ \<noteq> 0 \<and> (\<not> fired \<or> e_write_fn e \<noteq> e_read_fn e)
       then call_fn run (e_read_fn e) fd (e_client_data e) msk s
       else Inr s)))"

fun dispatch_all :: "('s \<Rightarrow> ('f, 'a) ev) \<Rightarrow> ('f \<Rightarrow> nat \<Rightarrow> addr \<Rightarrow> 32 word \<Rightarrow> 's \<Rightarrow> 's res) \<Rightarrow>
    (nat \<times> 32 word) list \<Rightarrow> 's \<Rightarrow> 's res" where
  "dispatch_all ev_of run [] s = Inr s"
| "dispatch_all ev_of run (fe # fes) s = res_bind (ev_dispatch ev_of run fe s) (dispatch_all ev_of run fes)"

text \<open>\<^verbatim>\<open>ev_process_events\<close>, given what \<^verbatim>\<open>ev_api_poll\<close> stored in \<^verbatim>\<open>fired\<close>; the number of events handled.\<close>

definition ev_process_events :: "('s \<Rightarrow> ('f, 'a) ev) \<Rightarrow> ('f \<Rightarrow> nat \<Rightarrow> addr \<Rightarrow> 32 word \<Rightarrow> 's \<Rightarrow> 's res) \<Rightarrow>
    (nat \<times> 32 word) list \<Rightarrow> 's \<Rightarrow> (nat \<times> 's) res" where
  "ev_process_events ev_of run polled s =
     (if ev_max_fd (ev_of s) = - 1 then Inr (0, s)
      else res_bind (dispatch_all ev_of run polled s) (\<lambda>s. Inr (length polled, s)))"

text \<open>
  \<^verbatim>\<open>ev_await\<close>, for a sequence of results of polling: it returns at the first turn without an event
  (\<^term>\<open>True\<close>); at the end of the sequence it still waits (\<^term>\<open>False\<close>).
\<close>

fun ev_await :: "('s \<Rightarrow> ('f, 'a) ev) \<Rightarrow> ('f \<Rightarrow> nat \<Rightarrow> addr \<Rightarrow> 32 word \<Rightarrow> 's \<Rightarrow> 's res) \<Rightarrow>
    (nat \<times> 32 word) list list \<Rightarrow> 's \<Rightarrow> (bool \<times> 's) res" where
  "ev_await ev_of run [] s = Inr (False, s)"
| "ev_await ev_of run (polled # ps) s =
     res_bind (ev_process_events ev_of run polled s) (\<lambda>(num_processed, s).
       if num_processed = 0 then Inr (True, s) else ev_await ev_of run ps s)"

section \<open>The back end on select\<close>

record select_api =
  sel_rfds :: "nat set"
  sel_wfds :: "nat set"

definition select_api_new :: "allocator \<Rightarrow> nat \<Rightarrow> select_api option" where
  "select_api_new al num_fds = (if al 512 = 0 then None else Some \<lparr>sel_rfds = {}, sel_wfds = {}\<rparr>)"

definition select_api_add_event :: "select_api \<Rightarrow> 32 word \<Rightarrow> nat \<Rightarrow> 32 word \<Rightarrow> int \<times> select_api" where
  "select_api_add_event st old fd msk =
     (let st = (if msk AND EV_READ \<noteq> 0 then st\<lparr>sel_rfds := insert fd (sel_rfds st)\<rparr> else st);
          st = (if msk AND EV_WRITE \<noteq> 0 then st\<lparr>sel_wfds := insert fd (sel_wfds st)\<rparr> else st)
      in (0, st))"

definition select_api_del_event :: "select_api \<Rightarrow> 32 word \<Rightarrow> nat \<Rightarrow> 32 word \<Rightarrow> select_api" where
  "select_api_del_event st old fd msk =
     (let st = (if msk AND EV_READ \<noteq> 0 then st\<lparr>sel_rfds := sel_rfds st - {fd}\<rparr> else st)
      in (if msk AND EV_WRITE \<noteq> 0 then st\<lparr>sel_wfds := sel_wfds st - {fd}\<rparr> else st))"

definition select_api_resize :: "allocator \<Rightarrow> select_api \<Rightarrow> int \<Rightarrow> int" where
  "select_api_resize al st setsize = (if setsize \<ge> 1024 then - 1 else 0)"

definition select_ops :: "select_api ev_api_ops" where
  "select_ops = \<lparr>api_new = select_api_new, api_add_event = select_api_add_event,
     api_del_event = select_api_del_event, api_resize = select_api_resize, api_name = ''select''\<rparr>"

text \<open>\<^verbatim>\<open>ev_api_poll\<close>, given the descriptors that \<^verbatim>\<open>select\<close> left in the two sets.\<close>

definition select_poll :: "('f, 'a) ev \<Rightarrow> nat set \<Rightarrow> nat set \<Rightarrow> (nat \<times> 32 word) list" where
  "select_poll ev rready wready =
     map (\<lambda>j. let m = e_mask (ev_events ev ! j) in
            (j, (if m AND EV_READ \<noteq> 0 \<and> j \<in> rready then EV_READ else 0) OR
                (if m AND EV_WRITE \<noteq> 0 \<and> j \<in> wready then EV_WRITE else 0)))
       (filter (\<lambda>j. e_mask (ev_events ev ! j) \<noteq> EV_NONE) [0..<nat (ev_max_fd ev + 1)])"

section \<open>The back end on epoll\<close>

abbreviation EPOLLIN :: "32 word" where "EPOLLIN \<equiv> 1"
abbreviation EPOLLOUT :: "32 word" where "EPOLLOUT \<equiv> 4"
abbreviation EPOLLERR :: "32 word" where "EPOLLERR \<equiv> 8"
abbreviation EPOLLHUP :: "32 word" where "EPOLLHUP \<equiv> 16"

datatype epoll_op = EPOLL_CTL_ADD | EPOLL_CTL_MOD | EPOLL_CTL_DEL

text \<open>
  The interest list lives in the kernel: its state is \<^typ>\<open>'k\<close>, and \<^verbatim>\<open>epoll_ctl\<close> and \<^verbatim>\<open>epoll_create\<close>
  are arguments.
\<close>

definition epoll_api_new :: "'k option \<Rightarrow> allocator \<Rightarrow> nat \<Rightarrow> 'k option" where
  "epoll_api_new created al num_fds =
     (if al 16 = 0 then None else if al (num_fds * 16) = 0 then None else created)"

text \<open>The events of a mask, and the mask of the events that fired.\<close>

definition epoll_events :: "32 word \<Rightarrow> 32 word" where
  "epoll_events msk =
     (if msk AND EV_READ \<noteq> 0 then EPOLLIN else 0) OR (if msk AND EV_WRITE \<noteq> 0 then EPOLLOUT else 0)"

definition epoll_mask :: "32 word \<Rightarrow> 32 word" where
  "epoll_mask events =
     (if events AND EPOLLIN \<noteq> 0 then EV_READ else 0) OR
     (if events AND EPOLLOUT \<noteq> 0 then EV_WRITE else 0) OR
     (if events AND EPOLLERR \<noteq> 0 then EV_WRITE OR EV_READ else 0) OR
     (if events AND EPOLLHUP \<noteq> 0 then EV_WRITE OR EV_READ else 0)"

definition epoll_api_add_event :: "('k \<Rightarrow> epoll_op \<Rightarrow> nat \<Rightarrow> 32 word \<Rightarrow> int \<times> 'k) \<Rightarrow>
    'k \<Rightarrow> 32 word \<Rightarrow> nat \<Rightarrow> 32 word \<Rightarrow> int \<times> 'k" where
  "epoll_api_add_event ctl st old fd msk =
     (let oper = (if old = EV_NONE then EPOLL_CTL_ADD else EPOLL_CTL_MOD);
          (r, st) = ctl st oper fd (epoll_events (msk OR old))
      in if r = - 1 then (- 1, st) else (0, st))"

definition epoll_api_del_event :: "('k \<Rightarrow> epoll_op \<Rightarrow> nat \<Rightarrow> 32 word \<Rightarrow> int \<times> 'k) \<Rightarrow>
    'k \<Rightarrow> 32 word \<Rightarrow> nat \<Rightarrow> 32 word \<Rightarrow> 'k" where
  "epoll_api_del_event ctl st old fd delmask =
     (let msk = old AND NOT delmask in
      if msk \<noteq> EV_NONE then snd (ctl st EPOLL_CTL_MOD fd (epoll_events msk))
      else snd (ctl st EPOLL_CTL_DEL fd (epoll_events msk)))"

definition epoll_api_resize :: "allocator \<Rightarrow> 'k \<Rightarrow> int \<Rightarrow> int" where
  "epoll_api_resize al st setsize = (if al (12 * nat setsize) = 0 then - 1 else 0)"

definition epoll_ops :: "('k \<Rightarrow> epoll_op \<Rightarrow> nat \<Rightarrow> 32 word \<Rightarrow> int \<times> 'k) \<Rightarrow> 'k option \<Rightarrow> 'k ev_api_ops" where
  "epoll_ops ctl created = \<lparr>api_new = epoll_api_new created, api_add_event = epoll_api_add_event ctl,
     api_del_event = epoll_api_del_event ctl, api_resize = epoll_api_resize, api_name = ''epoll''\<rparr>"

text \<open>\<^verbatim>\<open>ev_api_poll\<close>, given the events \<^verbatim>\<open>epoll_wait\<close> stored (none when it failed).\<close>

definition epoll_poll :: "(nat \<times> 32 word) list \<Rightarrow> (nat \<times> 32 word) list" where
  "epoll_poll waited = map (\<lambda>(fd, events). (fd, epoll_mask events)) waited"

section \<open>The contract of a back end\<close>

text \<open>
  What the loop relies on: told the mask registered so far, the back end waits for the added bits
  as well, or reports -1 and changes nothing; after a deletion it waits for the bits that are left.
\<close>

locale event_api =
  fixes A :: "'a ev_api_ops" and watched :: "'a \<Rightarrow> nat \<Rightarrow> 32 word"
  assumes add_law: "watched st fd = old \<Longrightarrow> old \<le> 3 \<Longrightarrow> m \<le> 3 \<Longrightarrow> api_add_event A st old fd m = (r, st') \<Longrightarrow>
      r = 0 \<and> watched st' = (watched st)(fd := old OR m) \<or> r = - 1 \<and> watched st' = watched st"
    and del_law: "watched st fd = old \<Longrightarrow> old \<le> 3 \<Longrightarrow>
      watched (api_del_event A st old fd m) = (watched st)(fd := old AND NOT m)"
    and new_law: "api_new A al n = Some st \<Longrightarrow> watched st fd = 0"

text \<open>The states of the loop: a new one, and what registering and removing events makes of it.\<close>

inductive ev_reach :: "'a ev_api_ops \<Rightarrow> ('f, 'a) ev \<Rightarrow> bool" for A where
  reach_new: "ev_new al A n = Some ev \<Longrightarrow> ev_reach A ev"
| reach_add: "ev_reach A ev \<Longrightarrow> 0 \<le> fd \<Longrightarrow> m \<in> {EV_READ, EV_WRITE} \<Longrightarrow>
    ev_add_event A ev fd m fn d = Inr (r, ev') \<Longrightarrow> ev_reach A ev'"
| reach_del: "ev_reach A ev \<Longrightarrow> 0 \<le> fd \<Longrightarrow> ev_delete_event A ev fd m = Inr ev' \<Longrightarrow> ev_reach A ev'"

text \<open>
  The table in order: one entry per descriptor, masks of the two event bits, and \<^verbatim>\<open>max_fd\<close> the largest
  descriptor in use.
\<close>

definition ev_wf :: "('f, 'a) ev \<Rightarrow> bool" where
  "ev_wf ev \<longleftrightarrow> ev_num_fds ev = int (length (ev_events ev)) \<and>
     (\<forall>e \<in> set (ev_events ev). e_mask e \<le> 3) \<and> ev_max_fd ev = last_used (ev_events ev) (length (ev_events ev))"

definition ev_synced :: "('a \<Rightarrow> nat \<Rightarrow> 32 word) \<Rightarrow> ('f, 'a) ev \<Rightarrow> bool" where
  "ev_synced watched ev \<longleftrightarrow>
     (\<forall>fd < length (ev_events ev). watched (ev_api ev) fd = e_mask (ev_events ev ! fd))"

lemma two_bits:
  assumes "m \<le> (3 :: 32 word)"
  shows "m = 0 \<or> m = 1 \<or> m = 2 \<or> m = 3"
proof -
  obtain k where k: "m = of_nat k" "k < 2 ^ 32" 
    using unsigned_less [of m, where ?'a = nat] by (intro that [of "unat m"]) simp_all
  with assms have "k \<le> 3" by (simp add: word_le_nat_alt unat_of_nat)
  then have "k = 0 \<or> k = 1 \<or> k = 2 \<or> k = 3" by auto
  with k(1) show ?thesis by auto
qed

lemma two_bits_or:
  assumes "a \<le> 3" "b \<le> 3"
  shows "a OR b \<le> (3 :: 32 word)"
  using two_bits [OF assms(1)] two_bits [OF assms(2)] by (elim disjE) simp_all

lemma and_not_twice: "(a AND NOT m) AND NOT m = a AND NOT (m :: 32 word)"
  by (auto simp: bit_eq_iff bit_simps)

lemma two_bits_or_0: "a OR b = 0 \<longleftrightarrow> a = 0 \<and> b = (0 :: 32 word)"
  by (auto simp: bit_eq_iff bit_simps)

lemma two_bits_and: "a \<le> (3 :: 32 word) \<Longrightarrow> a AND b \<le> 3"
  using word_and_le2 [of a b] by (rule order_trans)

lemma and_not_bits:
  fixes m :: "32 word"
  shows "1 AND NOT m = (if m AND 1 \<noteq> 0 then 0 else 1)" "2 AND NOT m = (if m AND 2 \<noteq> 0 then 0 else 2)"
proof -
  have m: "m AND 1 \<noteq> 0 \<longleftrightarrow> bit m 0" "m AND 2 \<noteq> 0 \<longleftrightarrow> bit m 1"
    using and_exp_eq_0_iff_not_bit [of m 0] and_exp_eq_0_iff_not_bit [of m 1] by simp_all
  show "1 AND NOT m = (if m AND 1 \<noteq> 0 then 0 else 1)" unfolding m
    by (rule bit_word_eqI) (auto simp: bit_and_iff bit_not_iff bit_1_iff intro: gr0I)
  show "2 AND NOT m = (if m AND 2 \<noteq> 0 then 0 else 2)" unfolding m
    by (rule bit_word_eqI) (auto simp: bit_and_iff bit_not_iff bit_2_iff)
qed

lemma and_not_or: "(a OR b) AND NOT m = (a AND NOT m) OR (b AND NOT (m :: 32 word))"
  by (rule bit_word_eqI) (auto simp: bit_and_iff bit_or_iff)

lemma last_used_bounds: "- 1 \<le> last_used es n" "last_used es n < int n"
  by (induction n) auto

lemma last_used_max: "i < n \<Longrightarrow> e_mask (es ! i) \<noteq> 0 \<Longrightarrow> int i \<le> last_used es n"
  by (induction n) (auto simp: less_Suc_eq)

lemma last_used_mask: "0 \<le> last_used es n \<Longrightarrow> e_mask (es ! nat (last_used es n)) \<noteq> 0"
  by (induction n) auto

lemma last_used_unique:
  assumes "- 1 \<le> m" "m < int n" "\<And>i. i < n \<Longrightarrow> e_mask (es ! i) \<noteq> 0 \<Longrightarrow> int i \<le> m"
    "0 \<le> m \<Longrightarrow> e_mask (es ! nat m) \<noteq> 0"
  shows "last_used es n = m"
proof (rule antisym)
  show "last_used es n \<le> m"
    using assms(3) [of "nat (last_used es n)"] last_used_mask [of es n] last_used_bounds [of es n] assms(1)
    by (cases "0 \<le> last_used es n") auto
  show "m \<le> last_used es n"
    using last_used_max [of "nat m" n es] assms last_used_bounds(1) [of es n] by (cases "0 \<le> m") auto
qed

lemma last_used_add:
  assumes "fd < length es" "e_mask e \<noteq> 0"
  shows "last_used (es[fd := e]) (length es) = max (int fd) (last_used es (length es))"
proof (rule last_used_unique)
  fix i assume "i < length es" "e_mask (es[fd := e] ! i) \<noteq> 0"
  with last_used_max [of i "length es" es] show "int i \<le> max (int fd) (last_used es (length es))"
    by (cases "i = fd") (auto simp: max_def)
next
  show "e_mask (es[fd := e] ! nat (max (int fd) (last_used es (length es)))) \<noteq> 0"
    using last_used_mask [of es "length es"] assms by (auto simp: max_def nth_list_update)
qed (use assms last_used_bounds [of es "length es"] in \<open>auto simp: max_def\<close>)

lemma last_used_del:
  assumes "fd < length es" "e_mask e \<noteq> 0 \<longrightarrow> e_mask (es ! fd) \<noteq> 0" "e_mask (es ! fd) \<noteq> 0"
  shows "last_used (es[fd := e]) (length es) =
    (if int fd = last_used es (length es) \<and> e_mask e = 0 then last_used (es[fd := e]) fd
     else last_used es (length es))"
proof (rule last_used_unique)
  let ?L = "last_used es (length es)" and ?r = "if int fd = last_used es (length es) \<and> e_mask e = 0
    then last_used (es[fd := e]) fd else last_used es (length es)"
  show "- 1 \<le> ?r" "?r < int (length es)"
    using last_used_bounds [of es "length es"] last_used_bounds [of "es[fd := e]" fd] assms(1) by auto
  show "int i \<le> ?r" if "i < length es" "e_mask (es[fd := e] ! i) \<noteq> 0" for i
  proof (cases "i = fd")
    case True
    with that assms last_used_max [of fd "length es" es] show ?thesis by auto
  next
    case False
    with that have "int i \<le> ?L" using last_used_max [of i "length es" es] by simp
    with that False last_used_max [of i fd "es[fd := e]"] show ?thesis by auto
  qed
  show "0 \<le> ?r \<Longrightarrow> e_mask (es[fd := e] ! nat ?r) \<noteq> 0"
    using last_used_mask [of es "length es"] last_used_mask [of "es[fd := e]" fd] assms(1)
    by (auto simp: nth_list_update split: if_splits)
qed

lemma ev_new_spec:
  fixes ev :: "('f, 'a) ev"
  assumes "ev_new al A n = Some ev"
  shows "ev_wf ev" "ev_num_fds ev = int n"
proof -
  have "last_used (replicate n (no_event :: 'f ev_file_event)) k = - 1" if "k \<le> n" for k
    using that by (induction k) (simp_all add: no_event_def)
  from this [of n] have "last_used (replicate n (no_event :: 'f ev_file_event)) n = - 1" by simp
  then show "ev_wf ev" "ev_num_fds ev = int n"
    using assms by (auto simp: ev_new_def ev_wf_def split: if_splits option.splits) (simp add: no_event_def)
qed

context event_api
begin

lemma add_spec:
  assumes "ev_wf ev" "ev_synced watched ev" "0 \<le> fd" "m \<le> 3" "m \<noteq> 0"
    "ev_add_event A ev fd m fn d = Inr (r, ev')"
  shows "ev_wf ev' \<and> ev_synced watched ev' \<and> ev_num_fds ev' = ev_num_fds ev \<and>
    (r = 0 \<longrightarrow> fd < ev_num_fds ev \<and> e_mask (ev_events ev' ! nat fd) = e_mask (ev_events ev ! nat fd) OR m)"
proof (cases "fd \<ge> ev_num_fds ev")
  case True
  with assms show ?thesis by (simp add: ev_add_event_def)
next
  case False
  let ?e = "ev_events ev ! nat fd"
  have fd: "nat fd < length (ev_events ev)" using False assms(1,3) by (auto simp: ev_wf_def)
  have e: "e_mask ?e \<le> 3" "watched (ev_api ev) (nat fd) = e_mask ?e"
    using assms(1,2) fd by (simp_all add: ev_wf_def ev_synced_def)
  obtain r1 st where st: "api_add_event A (ev_api ev) (e_mask ?e) (nat fd) m = (r1, st)"
    by (cases "api_add_event A (ev_api ev) (e_mask ?e) (nat fd) m")
  from add_law [OF e(2,1) assms(4) st]
  consider "r1 = 0" "watched st = (watched (ev_api ev))(nat fd := e_mask ?e OR m)"
    | "r1 = - 1" "watched st = watched (ev_api ev)" by blast
  then show ?thesis
  proof cases
    case 1
    have "e_mask ?e OR m \<noteq> 0" "e_mask ?e OR m \<le> 3"
      using two_bits_or [OF e(1) assms(4)] assms(5) by (simp_all add: two_bits_or_0)
    with 1 False fd st assms show ?thesis
      by (auto simp: ev_add_event_def Let_def ev_wf_def ev_synced_def last_used_add nth_list_update
          max_def dest!: set_update_subset_insert [THEN subsetD])
  next
    case 2
    with False fd st assms show ?thesis by (auto simp: ev_add_event_def Let_def ev_wf_def ev_synced_def)
  qed
qed

lemma del_spec:
  assumes "ev_wf ev" "ev_synced watched ev" "0 \<le> fd" "ev_delete_event A ev fd m = Inr ev'"
  shows "ev_wf ev' \<and> ev_synced watched ev' \<and> ev_num_fds ev' = ev_num_fds ev"
proof (cases "fd \<ge> ev_num_fds ev \<or> e_mask (ev_events ev ! nat fd) = EV_NONE")
  case True
  with assms show ?thesis by (auto simp: ev_delete_event_def ev_wf_def Let_def split: if_splits)
next
  case False
  let ?e = "ev_events ev ! nat fd"
  define M where "M = (if m AND EV_WRITE \<noteq> 0 then m OR EV_BOTH else m)"
  let ?new = "e_mask ?e AND NOT M"
  let ?st = "api_del_event A (ev_api ev) (e_mask ?e) (nat fd) M"
  define e1 where "e1 = ?e\<lparr>e_mask := ?new\<rparr>"
  have e1: "e_mask e1 = ?new" by (simp add: e1_def)
  have fd: "nat fd < length (ev_events ev)" using False assms(1,3) by (auto simp: ev_wf_def)
  have e: "e_mask ?e \<le> 3" "watched (ev_api ev) (nat fd) = e_mask ?e"
    using assms(1,2) fd by (simp_all add: ev_wf_def ev_synced_def)
  have n: "?new \<le> 3" using e(1) by (rule two_bits_and)
  have w1: "watched ?st = (watched (ev_api ev))(nat fd := ?new)" by (rule del_law [OF e(2,1)])
  then have "watched ?st (nat fd) = ?new" by simp
  from del_law [OF this n, of M] w1
  have w2: "watched (api_del_event A ?st ?new (nat fd) M) = (watched (ev_api ev))(nat fd := ?new)"
    by (simp only: and_not_twice fun_upd_upd)
  have ev': "ev' = ev\<lparr>ev_events := (ev_events ev)[nat fd := e1],
      ev_max_fd := (if fd = ev_max_fd ev \<and> e_mask e1 = EV_NONE then last_used ((ev_events ev)[nat fd := e1]) (nat fd)
                    else ev_max_fd ev),
      ev_api := api_del_event A ?st ?new (nat fd) M\<rparr>"
    using assms(3,4) False fd unfolding ev_delete_event_def Let_def M_def [symmetric] e1_def [symmetric] e1 by simp
  have "last_used ((ev_events ev)[nat fd := e1]) (length (ev_events ev)) = ev_max_fd ev'"
    using last_used_del [OF fd, of e1] False assms(1,3) by (auto simp: ev' ev_wf_def)
  moreover have "\<forall>e \<in> set ((ev_events ev)[nat fd := e1]). e_mask e \<le> 3"
    using assms(1) n e1 by (auto simp: ev_wf_def dest!: set_update_subset_insert [THEN subsetD])
  ultimately show ?thesis
    using assms(1,2) w2 fd e1 by (auto simp: ev' ev_wf_def ev_synced_def nth_list_update)
qed

lemma new_synced:
  fixes ev :: "('f, 'a) ev"
  assumes "ev_new al A n = Some ev"
  shows "ev_synced watched ev"
  using assms new_law [of al n] by (auto simp: ev_new_def ev_synced_def no_event_def split: if_splits option.splits)

lemma reach_in_step: "ev_reach A ev \<Longrightarrow> ev_wf ev \<and> ev_synced watched ev"
proof (induction rule: ev_reach.induct)
  case (reach_new al n ev)
  then show ?case using ev_new_spec(1) [OF reach_new] new_synced [OF reach_new] by simp
next
  case (reach_add ev fd m fn d r ev')
  then show ?case using add_spec [of ev fd m fn d r ev'] by auto
next
  case (reach_del ev fd m ev')
  then show ?case using del_spec [of ev fd m ev'] by auto
qed

end

lemma ev_wf_no_abort:
  assumes "ev_wf ev" "0 \<le> fd"
  shows "\<exists>r. ev_add_event A ev fd m fn d = Inr r" "\<exists>r. ev_delete_event A ev fd m = Inr r"
  using assms by (auto simp: ev_add_event_def ev_delete_event_def ev_wf_def Let_def split: prod.splits)

definition select_watched :: "select_api \<Rightarrow> nat \<Rightarrow> 32 word" where
  "select_watched st fd =
     (if fd \<in> sel_rfds st then EV_READ else 0) OR (if fd \<in> sel_wfds st then EV_WRITE else 0)"

interpretation sel: event_api select_ops select_watched
proof unfold_locales
  fix st fd m r st' and old :: "32 word"
  assume w: "select_watched st fd = old" "old \<le> 3" and m: "m \<le> 3"
    and a: "api_add_event select_ops st old fd m = (r, st')"
  from two_bits [OF m] have "select_watched st' = (select_watched st)(fd := select_watched st fd OR m)"
    using a by (elim disjE)
      (auto simp: select_ops_def select_api_add_event_def select_watched_def Let_def fun_eq_iff)
  then show "r = 0 \<and> select_watched st' = (select_watched st)(fd := old OR m) \<or>
      r = - 1 \<and> select_watched st' = select_watched st"
    using a w by (auto simp: select_ops_def select_api_add_event_def Let_def)
next
  fix st fd and m old :: "32 word"
  assume w: "select_watched st fd = old"
  show "select_watched (api_del_event select_ops st old fd m) = (select_watched st)(fd := old AND NOT m)"
    unfolding w [symmetric]
    by (auto simp: select_ops_def select_api_del_event_def select_watched_def Let_def fun_eq_iff
        and_not_or and_not_bits)
next
  fix al n st fd
  assume "api_new select_ops al n = Some st"
  then show "select_watched st fd = 0"
    by (auto simp: select_ops_def select_api_new_def select_watched_def split: if_splits)
qed

text \<open>
  What the manual page of \<^verbatim>\<open>epoll_ctl\<close> says about the interest list: a descriptor is added at most
  once (the addition can also fail for lack of memory), changed and removed only when it is there.
\<close>

locale epoll_kernel =
  fixes ctl :: "'k \<Rightarrow> epoll_op \<Rightarrow> nat \<Rightarrow> 32 word \<Rightarrow> int \<times> 'k" and interest :: "'k \<Rightarrow> nat \<rightharpoonup> 32 word"
    and created :: "'k option"
  assumes ctl_add: "ctl k EPOLL_CTL_ADD fd e = (r, k') \<Longrightarrow>
      r = 0 \<and> interest k fd = None \<and> interest k' = (interest k)(fd \<mapsto> e) \<or> r = - 1 \<and> interest k' = interest k"
    and ctl_mod: "ctl k EPOLL_CTL_MOD fd e = (r, k') \<Longrightarrow>
      (if interest k fd = None then r = - 1 \<and> interest k' = interest k
       else r = 0 \<and> interest k' = (interest k)(fd \<mapsto> e))"
    and ctl_del: "ctl k EPOLL_CTL_DEL fd e = (r, k') \<Longrightarrow> interest k' = (interest k)(fd := None)"
    and ctl_created: "created = Some k \<Longrightarrow> interest k = Map.empty"

definition epoll_watched :: "('k \<Rightarrow> nat \<rightharpoonup> 32 word) \<Rightarrow> 'k \<Rightarrow> nat \<Rightarrow> 32 word" where
  "epoll_watched interest k fd = (case interest k fd of None \<Rightarrow> 0 | Some e \<Rightarrow> epoll_mask e)"

lemma epoll_mask_events: "m \<le> 3 \<Longrightarrow> epoll_mask (epoll_events m) = m"
  using two_bits [of m] by (auto simp: epoll_mask_def epoll_events_def)

sublocale epoll_kernel \<subseteq> event_api "epoll_ops ctl created" "epoll_watched interest"
proof unfold_locales
  fix st fd m r st' and old :: "32 word"
  assume w: "epoll_watched interest st fd = old" "old \<le> 3" and m: "m \<le> 3"
    and a: "api_add_event (epoll_ops ctl created) st old fd m = (r, st')"
  have em: "epoll_mask (epoll_events (m OR old)) = old OR m"
    using two_bits_or [OF m w(2)] by (simp add: epoll_mask_events or.commute)
  show "r = 0 \<and> epoll_watched interest st' = (epoll_watched interest st)(fd := old OR m) \<or>
      r = - 1 \<and> epoll_watched interest st' = epoll_watched interest st"
  proof (cases "old = EV_NONE")
    case True
    then obtain r1 where "ctl st EPOLL_CTL_ADD fd (epoll_events (m OR old)) = (r1, st')" "r = (if r1 = - 1 then - 1 else 0)"
      using a by (auto simp: epoll_ops_def epoll_api_add_event_def split: prod.splits if_splits)
    with ctl_add [OF this(1)] em show ?thesis by (auto simp: epoll_watched_def fun_eq_iff)
  next
    case False
    then obtain r1 where "ctl st EPOLL_CTL_MOD fd (epoll_events (m OR old)) = (r1, st')" "r = (if r1 = - 1 then - 1 else 0)"
      using a by (auto simp: epoll_ops_def epoll_api_add_event_def split: prod.splits if_splits)
    with ctl_mod [OF this(1)] em show ?thesis by (auto simp: epoll_watched_def fun_eq_iff split: if_splits)
  qed
next
  fix st fd m and old :: "32 word"
  assume w: "epoll_watched interest st fd = old" "old \<le> 3"
  have em: "epoll_mask (epoll_events (old AND NOT m)) = old AND NOT m"
    using w(2) by (intro epoll_mask_events two_bits_and)
  show "epoll_watched interest (api_del_event (epoll_ops ctl created) st old fd m) =
      (epoll_watched interest st)(fd := old AND NOT m)"
  proof (cases "old AND NOT m = EV_NONE")
    case True
    obtain r st' where "ctl st EPOLL_CTL_DEL fd (epoll_events (old AND NOT m)) = (r, st')"
      by (cases "ctl st EPOLL_CTL_DEL fd (epoll_events (old AND NOT m))")
    with ctl_del [OF this] True show ?thesis
      by (auto simp: epoll_ops_def epoll_api_del_event_def epoll_watched_def fun_eq_iff)
  next
    case False
    obtain r st' where c: "ctl st EPOLL_CTL_MOD fd (epoll_events (old AND NOT m)) = (r, st')"
      by (cases "ctl st EPOLL_CTL_MOD fd (epoll_events (old AND NOT m))")
    from False w(1) have "interest st fd \<noteq> None" by (cases "interest st fd") (auto simp: epoll_watched_def)
    with ctl_mod [OF c] c False em show ?thesis
      by (auto simp: epoll_ops_def epoll_api_del_event_def epoll_watched_def fun_eq_iff Let_def)
  qed
next
  fix al n st fd
  assume "api_new (epoll_ops ctl created) al n = Some st"
  then show "epoll_watched interest st fd = 0"
    using ctl_created by (auto simp: epoll_ops_def epoll_api_new_def epoll_watched_def split: if_splits)
qed

context epoll_kernel
begin

lemma epoll_reach: "ev_reach (epoll_ops ctl created) ev \<Longrightarrow> ev_wf ev \<and> ev_synced (epoll_watched interest) ev"
  by (rule reach_in_step)

end

text \<open>A kernel whose state is the interest list and that never runs out of memory.\<close>

fun list_ctl :: "(nat \<rightharpoonup> 32 word) \<Rightarrow> epoll_op \<Rightarrow> nat \<Rightarrow> 32 word \<Rightarrow> int \<times> (nat \<rightharpoonup> 32 word)" where
  "list_ctl k EPOLL_CTL_ADD fd e = (if k fd = None then (0, k(fd \<mapsto> e)) else (- 1, k))"
| "list_ctl k EPOLL_CTL_MOD fd e = (if k fd = None then (- 1, k) else (0, k(fd \<mapsto> e)))"
| "list_ctl k EPOLL_CTL_DEL fd e = (if k fd = None then - 1 else 0, k(fd := None))"

interpretation lk: epoll_kernel list_ctl "\<lambda>k. k" "Some Map.empty"
  by unfold_locales (auto split: if_splits)

text \<open>The same with the back end on \<^verbatim>\<open>select\<close>.\<close>

lemma ev_select_in_step: "ev_reach select_ops ev \<Longrightarrow> ev_wf ev \<and> ev_synced select_watched ev"
  by (rule sel.reach_in_step)

section \<open>What the loop keeps\<close>

text \<open>An invariant of the callbacks is an invariant of the loop.\<close>

definition callbacks_keep :: "('f \<Rightarrow> nat \<Rightarrow> addr \<Rightarrow> 32 word \<Rightarrow> 's \<Rightarrow> 's res) \<Rightarrow> ('s \<Rightarrow> bool) \<Rightarrow> bool" where
  "callbacks_keep run P \<longleftrightarrow> (\<forall>f fd d m s s'. P s \<longrightarrow> run f fd d m s = Inr s' \<longrightarrow> P s')"

lemma call_fn_keeps:
  assumes "callbacks_keep run P" "P s" "call_fn run fn fd d m s = Inr s'"
  shows "P s'"
  using assms by (cases fn) (auto simp: call_fn_def callbacks_keep_def)

lemma fired_keeps:
  assumes "callbacks_keep run P" "P s"
    and "(if b then res_bind (call_fn run fn fd d m s) (\<lambda>s. Inr (True, s)) else Inr (fired, s)) = Inr (r, s')"
  shows "P s'"
  using assms call_fn_keeps [OF assms(1,2)] by (auto simp: res_bind_Inr split: if_splits)

lemma bind_keeps:
  assumes "res_bind x f = Inr s'" "\<And>b s1. x = Inr (b, s1) \<Longrightarrow> P s1" "\<And>b s1. P s1 \<Longrightarrow> f (b, s1) = Inr s' \<Longrightarrow> P s'"
  shows "P s'"
  using assms by (auto simp: res_bind_Inr)

lemma ev_dispatch_keeps:
  assumes "callbacks_keep run P" "P s" "ev_dispatch ev_of run fe s = Inr s'"
  shows "P s'"
proof -
  obtain fd msk where fe: "fe = (fd, msk)" by (cases fe)
  have "\<not> length (ev_events (ev_of s)) \<le> fd" using assms(3) by (auto simp: ev_dispatch_def fe)
  from assms(3) [unfolded ev_dispatch_def fe prod.case Let_def if_not_P [OF this]] show ?thesis
    apply (rule bind_keeps)
     apply (erule fired_keeps [OF assms(1,2)])
    apply (unfold prod.case)
    apply (erule bind_keeps)
     apply (erule fired_keeps [OF assms(1)], assumption)
    apply (unfold prod.case)
    apply (auto split: if_splits intro: call_fn_keeps [OF assms(1)])
    done
qed

lemma dispatch_all_keeps:
  assumes "callbacks_keep run P" "P s" "dispatch_all ev_of run fes s = Inr s'"
  shows "P s'"
  using assms(2,3)
proof (induction fes arbitrary: s)
  case (Cons fe fes)
  from Cons.prems(2) obtain s1 where "ev_dispatch ev_of run fe s = Inr s1" "dispatch_all ev_of run fes s1 = Inr s'"
    by (auto simp: res_bind_Inr)
  with ev_dispatch_keeps [OF assms(1) Cons.prems(1)] Cons.IH show ?case by blast
qed simp

lemma ev_await_keeps:
  assumes "callbacks_keep run P" "P s" "ev_await ev_of run polls s = Inr (b, s')"
  shows "P s'"
  using assms(2,3)
proof (induction polls arbitrary: s)
  case (Cons fes polls)
  from Cons.prems(2) obtain n s1 where s1: "ev_process_events ev_of run fes s = Inr (n, s1)"
    "(if n = 0 then Inr (True, s1) else ev_await ev_of run polls s1) = Inr (b, s')" by (auto simp: res_bind_Inr)
  from s1(1) have "P s1"
    using dispatch_all_keeps [OF assms(1) Cons.prems(1)] Cons.prems(1)
    by (auto simp: ev_process_events_def res_bind_Inr split: if_splits)
  with s1(2) Cons.IH show ?case by (auto split: if_splits)
qed simp

section \<open>Properties\<close>

text \<open>
  C26. What the event loop waits for is what is registered: in every state that creating the loop,
  adding and deleting events lead to, the table has one entry per descriptor, \<^verbatim>\<open>max_fd\<close> is the largest
  descriptor in use, and the interest list of \<^verbatim>\<open>epoll\<close> (a kernel that keeps the laws of \<^verbatim>\<open>epoll_ctl\<close>)
  has exactly the registered events of every descriptor; no operation leaves the table.
\<close>

theorem ev_epoll_in_step:
  assumes "epoll_kernel ctl interest created" "ev_reach (epoll_ops ctl created) ev" "0 \<le> fd"
  shows "ev_wf ev \<and> ev_synced (epoll_watched interest) ev \<and>
    (\<exists>r. ev_add_event (epoll_ops ctl created) ev fd m fn d = Inr r) \<and>
    (\<exists>r. ev_delete_event (epoll_ops ctl created) ev fd m = Inr r)"
  using epoll_kernel.epoll_reach [OF assms(1,2)] ev_wf_no_abort [OF _ assms(3), of ev] by blast

theorem ev_epoll_in_step_witness:
  "\<exists>ev. ev_new (\<lambda>_. 4096) (epoll_ops list_ctl (Some Map.empty)) 10 = Some ev \<and> ev_wf ev \<and>
     ev_synced (epoll_watched (\<lambda>k. k)) ev \<and>
     (\<exists>r. ev_add_event (epoll_ops list_ctl (Some Map.empty)) ev 5 EV_READ (0 :: nat) 0 = Inr r) \<and>
     (\<exists>r. ev_delete_event (epoll_ops list_ctl (Some Map.empty)) ev 5 EV_READ = Inr r)"
proof -
  obtain ev :: "(nat, nat \<rightharpoonup> 32 word) ev" where
    ev: "ev_new (\<lambda>_. 4096) (epoll_ops list_ctl (Some Map.empty)) 10 = Some ev"
    by (auto simp: ev_new_def epoll_ops_def epoll_api_new_def)
  then have "ev_reach (epoll_ops list_ctl (Some Map.empty)) ev" by (rule reach_new)
  with ev_epoll_in_step [OF lk.epoll_kernel_axioms this, of 5] ev show ?thesis by auto
qed

end
