(* ===== verification/Queue.thy ===== *)
theory Queue
  imports Prelude
begin

text \<open>
  The queue of the program (\<^verbatim>\<open>src/src/queue.h\<close>, \<^verbatim>\<open>src/src/queue.c\<close>): a singly linked list with a
  head and a tail pointer. The nodes are modelled in an explicit store, since \<^verbatim>\<open>queue_enque\<close>
  writes through the tail pointer into a node that is also reached from the head. The theory
  holds one definition per function, the representation invariant, and the proof that the pointer
  structure is a first-in first-out queue.
\<close>

section \<open>Data\<close>

record 'a qnode =
  qn_next :: addr
  qn_data :: 'a

text \<open>The struct, with the nodes on the heap that belong to it.\<close>

record 'a queue =
  num_el :: nat
  q_data_size :: nat
  q_head :: addr
  q_tail :: addr
  q_nodes :: "addr \<rightharpoonup> 'a qnode"

text \<open>\<^verbatim>\<open>sizeof(qnode)\<close>: the link; the data follows it.\<close>

abbreviation sizeof_qnode :: nat where "sizeof_qnode \<equiv> 8"

section \<open>Operations\<close>

definition queue_new :: "nat \<Rightarrow> 'a queue" where
  "queue_new data_size =
     \<lparr>num_el = 0, q_data_size = data_size, q_head = 0, q_tail = 0, q_nodes = Map.empty\<rparr>"

text \<open>\<^verbatim>\<open>qnode_new\<close>: a fresh node with the data and no successor; 0 when there is no memory.\<close>

definition qnode_new :: "allocator \<Rightarrow> 'a queue \<Rightarrow> 'a \<Rightarrow> addr \<times> 'a queue" where
  "qnode_new al q x =
     (let p = al (sizeof_qnode + q_data_size q) in
      if p = 0 then (0, q)
      else (p, q\<lparr>q_nodes := (q_nodes q)(p \<mapsto> \<lparr>qn_next = 0, qn_data = x\<rparr>)\<rparr>))"

definition qnode_free :: "'a queue \<Rightarrow> addr \<Rightarrow> 'a queue" where
  "qnode_free q p = q\<lparr>q_nodes := (q_nodes q)(p := None)\<rparr>"

definition queue_enque :: "allocator \<Rightarrow> 'a queue \<Rightarrow> 'a \<Rightarrow> (int \<times> 'a queue) res" where
  "queue_enque al q x =
     (let (node, q1) = qnode_new al q x in
      if node = 0 then Inr (- 1, q1)
      else
        let q2 = q1\<lparr>num_el := num_el q1 + 1\<rparr> in
        if num_el q2 = 1 then Inr (0, q2\<lparr>q_head := node, q_tail := node\<rparr>)
        else case q_nodes q2 (q_tail q2) of
          None \<Rightarrow> Inl Null_deref
        | Some t \<Rightarrow>
            Inr (0, q2\<lparr>q_nodes := (q_nodes q2)(q_tail q2 \<mapsto> t\<lparr>qn_next := node\<rparr>), q_tail := node\<rparr>))"

definition queue_deque :: "'a queue \<Rightarrow> ((int \<times> 'a option) \<times> 'a queue) res" where
  "queue_deque q =
     (if num_el q = 0 then Inr ((- 1, None), q)
      else
        let q1 = q\<lparr>num_el := num_el q - 1\<rparr> in
        case q_nodes q1 (q_head q1) of
          None \<Rightarrow> Inl Null_deref
        | Some h \<Rightarrow>
            if num_el q1 = 0 then
              Inr ((0, Some (qn_data h)), (qnode_free q1 (q_head q1))\<lparr>q_head := 0, q_tail := 0\<rparr>)
            else
              Inr ((0, Some (qn_data h)), (qnode_free q1 (q_head q1))\<lparr>q_head := qn_next h\<rparr>))"

definition queue_peek :: "'a queue \<Rightarrow> 'a option res" where
  "queue_peek q =
     (if num_el q = 0 then Inr None
      else case q_nodes q (q_head q) of None \<Rightarrow> Inl Null_deref | Some h \<Rightarrow> Inr (Some (qn_data h)))"

text \<open>
  \<^verbatim>\<open>queue_free\<close>: frees \<^verbatim>\<open>num_el\<close> nodes from the head on; the first result is what it hands to the
  callback, in order. The head and the tail keep their values.
\<close>

fun queue_free_loop :: "nat \<Rightarrow> addr \<Rightarrow> 'a queue \<Rightarrow> ('a list \<times> 'a queue) res" where
  "queue_free_loop 0 node q = Inr ([], q)"
| "queue_free_loop (Suc n) node q = (case q_nodes q node of
     None \<Rightarrow> Inl Null_deref
   | Some h \<Rightarrow> res_bind (queue_free_loop n (qn_next h) (qnode_free q node))
       (\<lambda>(freed, q'). Inr (qn_data h # freed, q')))"

definition queue_free :: "bool \<Rightarrow> 'a queue \<Rightarrow> ('a list \<times> 'a queue) res" where
  "queue_free fn q =
     res_bind (queue_free_loop (num_el q) (q_head q) q)
       (\<lambda>(freed, q'). Inr (if fn then freed else [], q'\<lparr>num_el := 0\<rparr>))"

section \<open>Contents and invariant\<close>

fun queue_walk :: "nat \<Rightarrow> (addr \<rightharpoonup> 'a qnode) \<Rightarrow> addr \<Rightarrow> 'a list" where
  "queue_walk 0 h p = []"
| "queue_walk (Suc n) h p =
     (case h p of None \<Rightarrow> [] | Some nd \<Rightarrow> qn_data nd # queue_walk n h (qn_next nd))"

definition queue_list :: "'a queue \<Rightarrow> 'a list" where
  "queue_list q = queue_walk (num_el q) (q_nodes q) (q_head q)"

text \<open>
  The nodes \<^term>\<open>ps\<close> form a chain from \<^term>\<open>p\<close> to the null pointer.
\<close>

fun chain :: "(addr \<rightharpoonup> 'a qnode) \<Rightarrow> addr \<Rightarrow> addr list \<Rightarrow> bool" where
  "chain h p [] \<longleftrightarrow> p = 0"
| "chain h p (a # as) \<longleftrightarrow>
     p = a \<and> a \<noteq> 0 \<and> (case h a of None \<Rightarrow> False | Some nd \<Rightarrow> chain h (qn_next nd) as)"

definition queue_rep :: "'a queue \<Rightarrow> addr list \<Rightarrow> bool" where
  "queue_rep q ps \<longleftrightarrow>
     chain (q_nodes q) (q_head q) ps \<and> distinct ps \<and> num_el q = length ps \<and>
     dom (q_nodes q) = set ps \<and> (ps \<noteq> [] \<longrightarrow> q_tail q = last ps)"

definition queue_wf :: "'a queue \<Rightarrow> bool" where
  "queue_wf q \<longleftrightarrow> (\<exists>ps. queue_rep q ps)"

text \<open>
  The allocator gives memory that is not in use: what \<^verbatim>\<open>malloc\<close> promises about the nodes of the
  queue.
\<close>

definition alloc_fresh :: "allocator \<Rightarrow> 'a queue \<Rightarrow> bool" where
  "alloc_fresh al q \<longleftrightarrow> (\<forall>n. al n \<noteq> 0 \<longrightarrow> q_nodes q (al n) = None)"

lemma chain_upd: "a \<notin> set ps \<Longrightarrow> chain (h(a := v)) p ps = chain h p ps"
  by (induction ps arbitrary: p) (auto split: option.splits)

lemma chain_dom: "chain h p ps \<Longrightarrow> set ps \<subseteq> dom h"
  by (induction ps arbitrary: p) (auto split: option.splits)

lemma chain_walk: "chain h p ps \<Longrightarrow> queue_walk (length ps) h p = map (\<lambda>a. qn_data (the (h a))) ps"
  by (induction ps arbitrary: p) (auto split: option.splits)

lemma queue_rep_list: "queue_rep q ps \<Longrightarrow> queue_list q = map (\<lambda>a. qn_data (the (q_nodes q a))) ps"
  by (auto simp: queue_rep_def queue_list_def chain_walk)

text \<open>Appending a node: the link of the last node is redirected to the new one.\<close>

lemma chain_append:
  assumes "chain h p ps" "distinct ps" "ps \<noteq> []" "a \<notin> set ps" "a \<noteq> 0"
    and "h (last ps) = Some t" "h a = Some nd" "qn_next nd = 0"
  shows "chain (h(last ps \<mapsto> t\<lparr>qn_next := a\<rparr>)) p (ps @ [a])"
  using assms(1-4,6)
proof (induction ps arbitrary: p)
  case Nil
  then show ?case by simp
next
  case (Cons b ps)
  show ?case
  proof (cases "ps = []")
    case True
    with Cons.prems assms(5,7,8) show ?thesis by auto
  next
    case False
    then have "b \<noteq> last ps" using Cons.prems(2) by auto
    with False Cons show ?thesis by (auto split: option.splits)
  qed
qed

lemma queue_new_rep: "queue_rep (queue_new ds) []"
  by (simp add: queue_new_def queue_rep_def)

lemma queue_enque_rep:
  assumes "queue_rep q ps" "p = al (sizeof_qnode + q_data_size q)" "p \<noteq> 0" "q_nodes q p = None"
  shows "\<exists>q'. queue_enque al q x = Inr (0, q') \<and> queue_rep q' (ps @ [p]) \<and>
    queue_list q' = queue_list q @ [x]"
proof -
  let ?nd = "\<lparr>qn_next = 0, qn_data = x\<rparr>"
  let ?h = "(q_nodes q)(p \<mapsto> ?nd)"
  have p: "p \<notin> set ps" using assms(1,4) by (auto simp: queue_rep_def)
  then have ch: "chain ?h (q_head q) ps" using assms(1) by (simp add: queue_rep_def chain_upd)
  show ?thesis
  proof (cases "ps = []")
    case True
    with assms show ?thesis
      by (auto simp: queue_enque_def qnode_new_def queue_rep_def queue_list_def Let_def)
  next
    case False
    then obtain t where t: "q_nodes q (last ps) = Some t"
      using assms(1) chain_dom by (fastforce simp: queue_rep_def)
    have ne: "last ps \<noteq> p" using False p last_in_set by metis
    let ?h' = "?h(last ps \<mapsto> t\<lparr>qn_next := p\<rparr>)"
    let ?q' = "q\<lparr>num_el := num_el q + 1, q_nodes := ?h', q_tail := p\<rparr>"
    have "queue_enque al q x = Inr (0, ?q')"
      using False assms t ne
      by (simp add: queue_enque_def qnode_new_def queue_rep_def Let_def)
    moreover have "chain ?h' (q_head q) (ps @ [p])"
      using False assms p t ne ch by (intro chain_append [where nd = ?nd]) (auto simp: queue_rep_def)
    then have rep: "queue_rep ?q' (ps @ [p])"
      using assms(1) p False by (auto simp: queue_rep_def)
    moreover have "queue_list ?q' = queue_list q @ [x]"
      using p t ne unfolding queue_rep_list [OF rep] queue_rep_list [OF assms(1)] by auto
    ultimately show ?thesis by blast
  qed
qed

lemma queue_deque_rep:
  assumes "queue_rep q (a # ps)"
  shows "\<exists>q'. queue_deque q = Inr ((0, Some (hd (queue_list q))), q') \<and> queue_rep q' ps \<and>
    queue_list q' = tl (queue_list q)"
proof -
  obtain h where h: "q_nodes q a = Some h" "chain (q_nodes q) (qn_next h) ps"
    using assms by (auto simp: queue_rep_def split: option.splits)
  let ?q' = "if ps = [] then (qnode_free (q\<lparr>num_el := num_el q - 1\<rparr>) a)\<lparr>q_head := 0, q_tail := 0\<rparr>
    else (qnode_free (q\<lparr>num_el := num_el q - 1\<rparr>) a)\<lparr>q_head := qn_next h\<rparr>"
  have "queue_deque q = Inr ((0, Some (hd (queue_list q))), ?q')"
    using assms h unfolding queue_rep_list [OF assms]
    by (simp add: queue_deque_def queue_rep_def Let_def)
  moreover have rep: "queue_rep ?q' ps"
    using assms h by (auto simp: queue_rep_def qnode_free_def chain_upd)
  moreover have "queue_list ?q' = tl (queue_list q)"
    using assms unfolding queue_rep_list [OF rep] queue_rep_list [OF assms]
    by (auto simp: qnode_free_def queue_rep_def)
  ultimately show ?thesis by blast
qed

lemma queue_rep_empty: "queue_rep q ps \<Longrightarrow> queue_list q = [] \<longleftrightarrow> ps = []"
  by (simp add: queue_rep_list)

lemma queue_deque_empty: "queue_rep q [] \<Longrightarrow> queue_deque q = Inr ((- 1, None), q)"
  by (simp add: queue_rep_def queue_deque_def)

lemma queue_enque_no_memory: "al (sizeof_qnode + q_data_size q) = 0 \<Longrightarrow> queue_enque al q x = Inr (- 1, q)"
  by (simp add: queue_enque_def qnode_new_def)

lemma queue_peek_rep: "queue_rep q ps \<Longrightarrow>
  queue_peek q = Inr (if queue_list q = [] then None else Some (hd (queue_list q)))"
  by (cases ps) (auto simp: queue_list_def queue_peek_def queue_rep_def split: option.splits)

lemma queue_free_loop_rep:
  assumes "chain (q_nodes q) p ps" "distinct ps"
  shows "\<exists>q'. queue_free_loop (length ps) p q = Inr (queue_walk (length ps) (q_nodes q) p, q') \<and>
    dom (q_nodes q') = dom (q_nodes q) - set ps"
  using assms
proof (induction ps arbitrary: p q)
  case Nil
  then show ?case by simp
next
  case (Cons a ps)
  then obtain h where h: "q_nodes q a = Some h" "chain (q_nodes q) (qn_next h) ps"
    by (auto split: option.splits)
  have c: "chain (q_nodes (qnode_free q a)) (qn_next h) ps"
    using h Cons.prems(2) by (simp add: qnode_free_def chain_upd)
  have w: "queue_walk (length ps) (q_nodes (qnode_free q a)) (qn_next h) =
      queue_walk (length ps) (q_nodes q) (qn_next h)"
    unfolding chain_walk [OF c] chain_walk [OF h(2)] using Cons.prems(2) by (auto simp: qnode_free_def)
  from Cons.IH [OF c] Cons.prems(2) w obtain q' where
    q': "queue_free_loop (length ps) (qn_next h) (qnode_free q a) =
        Inr (queue_walk (length ps) (q_nodes q) (qn_next h), q')"
      "dom (q_nodes q') = dom (q_nodes (qnode_free q a)) - set ps" by auto
  have "dom (q_nodes (qnode_free q a)) = dom (q_nodes q) - {a}" by (simp add: qnode_free_def)
  with q' h Cons.prems(1) show ?case by auto
qed

section \<open>First in, first out\<close>

text \<open>
  What the server relies on when it runs ENQUE and DEQUE.
\<close>

locale fifo =
  fixes enque :: "allocator \<Rightarrow> 'q \<Rightarrow> 'a \<Rightarrow> (int \<times> 'q) res"
    and deque :: "'q \<Rightarrow> ((int \<times> 'a option) \<times> 'q) res"
    and contents :: "'q \<Rightarrow> 'a list"
    and inv :: "'q \<Rightarrow> bool"
    and fresh :: "allocator \<Rightarrow> 'q \<Rightarrow> bool"
  assumes enque_law: "inv q \<Longrightarrow> alloc_total al \<Longrightarrow> fresh al q \<Longrightarrow>
      \<exists>q'. enque al q x = Inr (0, q') \<and> inv q' \<and> contents q' = contents q @ [x]"
    and deque_law: "inv q \<Longrightarrow> contents q = y # ys \<Longrightarrow>
      \<exists>q'. deque q = Inr ((0, Some y), q') \<and> inv q' \<and> contents q' = ys"
    and deque_none: "inv q \<Longrightarrow> contents q = [] \<Longrightarrow> deque q = Inr ((- 1, None), q)"
begin

text \<open>Taking everything out of a queue returns its elements in the order they came in.\<close>

lemma deque_never_stuck: "inv q \<Longrightarrow> \<exists>r q'. deque q = Inr (r, q') \<and> inv q' \<and> contents q' = tl (contents q)"
  using deque_law [of q] deque_none [of q] by (cases "contents q") auto

lemma enque_deque:
  assumes "inv q" "alloc_total al" "fresh al q"
  shows "\<exists>q' q'' y. enque al q x = Inr (0, q') \<and> deque q' = Inr ((0, Some y), q'') \<and> inv q'' \<and>
    y # contents q'' = contents q @ [x]"
proof -
  from enque_law [OF assms] obtain q' where
    q': "enque al q x = Inr (0, q')" "inv q'" "contents q' = contents q @ [x]" by blast
  then obtain y ys where ys: "contents q' = y # ys" by (metis append_is_Nil_conv list.exhaust list.distinct(1))
  from deque_law [OF q'(2) ys] obtain q'' where
    "deque q' = Inr ((0, Some y), q'')" "inv q''" "contents q'' = ys" by blast
  with q' ys show ?thesis by auto
qed

end

interpretation qf: fifo queue_enque queue_deque queue_list queue_wf alloc_fresh
proof unfold_locales
  fix q :: "'a queue" and al x
  assume *: "queue_wf q" "alloc_total al" "alloc_fresh al q"
  then obtain ps where "queue_rep q ps" by (auto simp: queue_wf_def)
  from queue_enque_rep [OF this refl, of al x] * show
    "\<exists>q'. queue_enque al q x = Inr (0, q') \<and> queue_wf q' \<and> queue_list q' = queue_list q @ [x]"
    by (auto simp: queue_wf_def alloc_fresh_def)
next
  fix q :: "'a queue" and y ys
  assume *: "queue_wf q" "queue_list q = y # ys"
  then obtain ps where ps: "queue_rep q ps" by (auto simp: queue_wf_def)
  with * queue_rep_empty obtain a ps' where "ps = a # ps'" by (cases ps) fastforce+
  with ps queue_deque_rep [of q a ps'] * show
    "\<exists>q'. queue_deque q = Inr ((0, Some y), q') \<and> queue_wf q' \<and> queue_list q' = ys"
    by (auto simp: queue_wf_def)
next
  fix q :: "'a queue"
  assume "queue_wf q" "queue_list q = []"
  then show "queue_deque q = Inr ((- 1, None), q)"
    using queue_deque_empty queue_rep_empty by (auto simp: queue_wf_def)
qed

section \<open>Properties\<close>

text \<open>
  The linked list is a first-in first-out queue: with fresh memory available \<^verbatim>\<open>queue_enque\<close>
  succeeds, keeps the pointer structure well formed and appends the element, no pointer it follows
  is dangling.
\<close>

theorem queue_enque_appends:
  assumes "queue_wf q" "alloc_total al" "alloc_fresh al q"
  shows "\<exists>q'. queue_enque al q x = Inr (0, q') \<and> queue_wf q' \<and> queue_list q' = queue_list q @ [x]"
  using assms by (rule qf.enque_law)

theorem queue_enque_appends_witness:
  "\<exists>q'. queue_enque (\<lambda>_. 4096) (queue_new 8 :: nat queue) 5 = Inr (0, q') \<and> queue_wf q' \<and>
    queue_list q' = queue_list (queue_new 8 :: nat queue) @ [5]"
proof (rule queue_enque_appends)
  show "queue_wf (queue_new 8 :: nat queue)" using queue_new_rep by (auto simp: queue_wf_def)
  show "alloc_total (\<lambda>_. 4096)" by simp
  show "alloc_fresh (\<lambda>_. 4096) (queue_new 8 :: nat queue)" by (simp add: alloc_fresh_def queue_new_def)
qed

text \<open>
  C28. \<^verbatim>\<open>queue_deque\<close> on a well-formed queue returns the oldest element and removes it, or -1 when
  the queue is empty; in both cases the queue stays well formed.
\<close>

theorem queue_deque_oldest:
  assumes "queue_wf q"
  shows "\<exists>q'. queue_deque q =
      Inr (if queue_list q = [] then (- 1, None) else (0, Some (hd (queue_list q))), q') \<and>
    queue_wf q' \<and> queue_list q' = tl (queue_list q)"
  using qf.deque_law [OF assms] qf.deque_none [OF assms] assms by (cases "queue_list q") auto

theorem queue_deque_oldest_witness:
  "\<exists>q q'. queue_enque (\<lambda>_. 4096) (queue_new 8 :: nat queue) 5 = Inr (0, q) \<and>
     queue_deque q = Inr ((0, Some 5), q') \<and> queue_wf q' \<and> queue_list q' = []"
proof -
  obtain q where q: "queue_enque (\<lambda>_. 4096) (queue_new 8 :: nat queue) 5 = Inr (0, q)" "queue_wf q"
    "queue_list q = [5]"
    using qf.enque_law [of "queue_new 8 :: nat queue" "\<lambda>_. 4096" 5] queue_new_rep
    by (auto simp: queue_wf_def alloc_fresh_def queue_new_def queue_list_def)
  with queue_deque_oldest [OF q(2)] show ?thesis by auto
qed

text \<open>
  \<^verbatim>\<open>queue_free\<close> hands every element of a well-formed queue to the callback, in order, and leaves
  no node allocated.
\<close>

lemma queue_free_spec:
  assumes "queue_wf q"
  shows "\<exists>q'. queue_free True q = Inr (queue_list q, q') \<and> q_nodes q' = Map.empty \<and> num_el q' = 0"
proof -
  obtain ps where ps: "queue_rep q ps" using assms by (auto simp: queue_wf_def)
  then obtain q' where "queue_free_loop (length ps) (q_head q) q = Inr (queue_list q, q')"
    "dom (q_nodes q') = {}"
    using queue_free_loop_rep [of q "q_head q" ps] by (auto simp: queue_rep_def queue_list_def)
  with ps show ?thesis by (auto simp: queue_free_def queue_rep_def)
qed

end
