(* ===== verification/Server.thy ===== *)
theory Server
  imports Parser Sha256 Ev Queue
begin

unbundle bit_operations_syntax

text \<open>
  The server (\<^verbatim>\<open>src/src/server.h\<close>, \<^verbatim>\<open>src/src/server.c\<close>): databases, users, clients and the callbacks of
  the event loop. The theory holds the data and one definition per function.
\<close>

section \<open>Data\<close>

record lexidb =
  db_dict :: "(object, object) ht"
  db_set :: "object hset"
  db_queue :: "object queue"
  db_vec :: "object vec"

datatype log_level = LL_None | Info | Debug | Verbose

record user =
  user_name :: vstr
  user_password :: vstr
  user_flags :: "32 word"

text \<open>A connection. The buffers are byte lists, \<^verbatim>\<open>read_buf\<close> with all its \<^verbatim>\<open>read_cap\<close> bytes.\<close>

record client =
  cl_fd :: int
  cl_addr :: "32 word"
  cl_port :: "16 word"
  cl_flags :: "16 word"
  read_buf :: string
  read_pos :: nat
  read_cap :: nat
  write_buf :: string
  write_size :: nat
  database_num :: nat
  cl_builder :: builder
  cl_user :: user
  time_connected :: "64 word"

abbreviation AUTHENTICATED :: "16 word" where "AUTHENTICATED \<equiv> 1"
abbreviation CLIENT_READ_BUF_CAP :: nat where "CLIENT_READ_BUF_CAP \<equiv> 4096"
abbreviation sizeof_client :: nat where "sizeof_client \<equiv> 160"
abbreviation sizeof_user :: nat where "sizeof_user \<equiv> 56"

text \<open>The callbacks that the server registers.\<close>

datatype handler = Server_accept | Read_from_client | Write_to_client

text \<open>
  The server, without the table of help texts, which the build generates. The vector of clients holds
  pointers; the structs they point to are \<^term>\<open>sv_mem\<close>.
\<close>

record 'a server =
  sv_pid :: "64 word"
  sv_sfd :: int
  sv_log_level :: log_level
  sv_flags :: "16 word"
  sv_port :: "16 word"
  sv_executable_path :: string
  sv_os_name :: vstr
  sv_addr :: vstr
  sv_conf_file_path :: vstr
  num_databases :: nat
  sv_db :: "lexidb list"
  sv_ev :: "(handler, 'a) ev"
  sv_clients :: "addr vec"
  sv_mem :: "addr \<rightharpoonup> client"
  sv_users :: "user vec"
  cmd_executed :: "64 word"
  sv_start_time :: "64 word"

text \<open>
  What the server takes from its surroundings: that of the parser, the address of
  \<^verbatim>\<open>server_compare_objects\<close>, the \<^verbatim>\<open>%g\<close> conversion, the clock, the bytes of an uninitialised
  \<^verbatim>\<open>SHA256_CTX\<close>, the back end of the event loop, and the address that is the data of the callbacks.
\<close>

record 'a senv =
  se_env :: env
  se_cmp :: addr
  se_fmt_g :: fmt_double
  se_now :: "64 word"
  se_ctx :: SHA256_CTX
  se_api :: "'a ev_api_ops"
  se_self :: addr

abbreviation se_al :: "'a senv \<Rightarrow> allocator" where "se_al S \<equiv> e_al (se_env S)"
abbreviation se_keys :: "'a senv \<Rightarrow> object key_ops" where "se_keys S \<equiv> object_keys (se_cmp S)"

text \<open>The same surroundings with another state of the memory allocator.\<close>

definition with_al :: "allocator \<Rightarrow> 'a senv \<Rightarrow> 'a senv" where
  "with_al al S = S\<lparr>se_env := (se_env S)\<lparr>e_al := al\<rparr>\<rparr>"

section \<open>Creation\<close>

text \<open>A database: \<^verbatim>\<open>ht_new\<close>, \<^verbatim>\<open>vec_new\<close> with its assertion, \<^verbatim>\<open>queue_new\<close>, \<^verbatim>\<open>set_new\<close>, in this order.\<close>

definition lexidb_one :: "allocator \<Rightarrow> string \<Rightarrow> lexidb res" where
  "lexidb_one al random =
     res_bind (ht_new al random sizeof_object True) (\<lambda>dict.
       case vec_new al Null sizeof_object of
         None \<Rightarrow> Inl Assert_failed
       | Some v \<Rightarrow> res_bind (set_new al random sizeof_object True) (\<lambda>st.
           Inr \<lparr>db_dict = dict, db_set = st, db_queue = queue_new sizeof_object, db_vec = v\<rparr>))"

definition lexidb_new :: "allocator \<Rightarrow> string \<Rightarrow> nat \<Rightarrow> lexidb list res" where
  "lexidb_new al random n =
     (if al (n * 152) = 0 then Inl Assert_failed
      else repeat_n n (\<lambda>dbs. res_bind (lexidb_one al random) (\<lambda>d. Inr (dbs @ [d]))) [])"

definition user_zero :: user where
  "user_zero = \<lparr>user_name = Small (replicate 23 NUL) 0, user_password = Small (replicate 23 NUL) 0, user_flags = 0\<rparr>"

definition user_compare :: "user \<Rightarrow> user \<Rightarrow> int" where
  "user_compare ua ub = vstr_cmp (user_name ua) (user_name ub)"

definition user_compare_by_username :: "vstr \<Rightarrow> user \<Rightarrow> int" where
  "user_compare_by_username username user = vstr_cmp username (user_name user)"

text \<open>
  \<^verbatim>\<open>add_users\<close>: the body of its loop, and the loop over the users of the configuration. The vector of
  users is the state; the loop stops (with -1) at a duplicate and when there is no memory.
\<close>

definition add_users_body :: "allocator \<Rightarrow> SHA256_CTX \<Rightarrow> user \<Rightarrow> user vec \<Rightarrow> (bool \<times> user vec) res" where
  "add_users_body al ctx user users =
     (if fst (vec_find users (user_compare user)) \<noteq> - 1 then Inr (False, users)
      else res_bind (hash_password al ctx (vstr_data (user_password user)) (vstr_len (user_password user)))
        (\<lambda>hashed_password.
          let (push_res, users') = vec_push al user_zero users (user\<lparr>user_password := hashed_password\<rparr>) in
          if push_res = - 1 then Inr (False, users') else Inr (True, users')))"

definition add_users :: "allocator \<Rightarrow> SHA256_CTX \<Rightarrow> user vec \<Rightarrow> user vec \<Rightarrow> (int \<times> user vec) res" where
  "add_users al ctx users_vec users_from_config =
     res_bind (vec_iter_loop (vec_cap users_from_config + 1) (add_users_body al ctx)
         (vec_iter_new users_from_config) users_vec)
       (\<lambda>(finished, users). Inr (if finished then 0 else - 1, users))"

text \<open>The table of log levels, and its search.\<close>

definition log_level_lookups :: "(string \<times> log_level) list" where
  "log_level_lookups = [(''none'', LL_None), (''info'', Info), (''debug'', Debug), (''verbose'', Verbose)]"

fun log_level_from :: "(string \<times> log_level) list \<Rightarrow> string \<Rightarrow> nat \<Rightarrow> log_level option" where
  "log_level_from [] s s_len = None"
| "log_level_from ((str, ll) # lls) s s_len =
     (if length str \<noteq> s_len then log_level_from lls s s_len
      else if strncmp s str s_len = 0 then Some ll
      else log_level_from lls s s_len)"

definition determine_loglevel :: "vstr \<Rightarrow> log_level option" where
  "determine_loglevel loglevel_s = log_level_from log_level_lookups (vstr_data loglevel_s) (vstr_len loglevel_s)"

text \<open>\<^verbatim>\<open>calloc\<close>, so that everything that is not set is zero; the struct and its address.\<close>

definition create_client :: "'a senv \<Rightarrow> int \<Rightarrow> 32 word \<Rightarrow> 16 word \<Rightarrow> (addr \<times> client) option" where
  "create_client S fd address port =
     (if se_al S sizeof_client = 0 then None
      else if se_al S CLIENT_READ_BUF_CAP = 0 then None
      else Some (se_al S sizeof_client,
        \<lparr>cl_fd = fd, cl_addr = address, cl_port = port, cl_flags = 0,
         read_buf = replicate CLIENT_READ_BUF_CAP NUL, read_pos = 0, read_cap = CLIENT_READ_BUF_CAP,
         write_buf = [], write_size = 0, database_num = 0, cl_builder = builder_new,
         cl_user = user_zero, time_connected = se_now S\<rparr>))"

section \<open>The commands on a database\<close>

text \<open>\<^verbatim>\<open>s->db[database_num]\<close>: reading a database and storing it back.\<close>

definition db_at :: "'a server \<Rightarrow> nat \<Rightarrow> lexidb res" where
  "db_at s n = (if n < length (sv_db s) then Inr (sv_db s ! n) else Inl Out_of_bounds)"

definition db_put :: "'a server \<Rightarrow> nat \<Rightarrow> lexidb \<Rightarrow> 'a server" where
  "db_put s n d = s\<lparr>sv_db := (sv_db s)[n := d]\<rparr>"

text \<open>
  The first and the second object of the union of a command; in a command without arguments the
  union is zero, which is the null object.
\<close>

definition cmd_arg :: "cmd \<Rightarrow> object" where
  "cmd_arg c = (case cmd_data c of Auth_data u p \<Rightarrow> u | KV_data k v \<Rightarrow> k | K_data k \<Rightarrow> k | V_data v \<Rightarrow> v | _ \<Rightarrow> Null)"

definition cmd_arg2 :: "cmd \<Rightarrow> object" where
  "cmd_arg2 c = (case cmd_data c of Auth_data u p \<Rightarrow> p | KV_data k v \<Rightarrow> v | _ \<Rightarrow> Null)"

text \<open>
  \<^verbatim>\<open>execute_auth_command\<close>. The password of a user is a digest in hexadecimal; the comparison reads as
  many bytes of it as the digest of the given password has.
\<close>

definition execute_auth_command :: "'a senv \<Rightarrow> 'a server \<Rightarrow> client \<Rightarrow> object \<Rightarrow> object \<Rightarrow> (int \<times> client) res" where
  "execute_auth_command S s c username_obj password_obj =
     (case username_obj of
        String username \<Rightarrow>
          (case password_obj of
             String password \<Rightarrow>
               (case vec_find (sv_users s) (user_compare_by_username username) of
                  (found, Some user) \<Rightarrow>
                    res_bind (hash_password (se_al S) (se_ctx S) (vstr_data password) (vstr_len password)) (\<lambda>hashed.
                    res_bind (time_safe_compare (vstr_data hashed) (vstr_data (user_password user)) (vstr_len hashed)) (\<lambda>cmp.
                      Inr (sint cmp, if cmp = 0 then c\<lparr>cl_user := user, cl_flags := cl_flags c OR AUTHENTICATED\<rparr> else c)))
                | (found, None) \<Rightarrow> Inr (- 1, c))
           | _ \<Rightarrow> Inr (- 1, c))
      | _ \<Rightarrow> Inr (- 1, c))"

definition execute_set_command :: "'a senv \<Rightarrow> 'a server \<Rightarrow> object \<Rightarrow> object \<Rightarrow> nat \<Rightarrow> (ht_result \<times> 'a server) res" where
  "execute_set_command S s key val n =
     res_bind (db_at s n) (\<lambda>d.
     res_bind (ht_insert (se_keys S) (se_al S) True True (db_dict d) key val) (\<lambda>(r, freed, h).
       Inr (r, db_put s n (d\<lparr>db_dict := h\<rparr>))))"

definition execute_get_command :: "'a senv \<Rightarrow> 'a server \<Rightarrow> object \<Rightarrow> nat \<Rightarrow> object option res" where
  "execute_get_command S s key n = res_bind (db_at s n) (\<lambda>d. Inr (ht_get (se_keys S) (db_dict d) key))"

definition execute_del_command :: "'a senv \<Rightarrow> 'a server \<Rightarrow> object \<Rightarrow> nat \<Rightarrow> (ht_result \<times> 'a server) res" where
  "execute_del_command S s key n =
     res_bind (db_at s n) (\<lambda>d.
       case ht_delete (se_keys S) True True (db_dict d) key of (r, freed, h) \<Rightarrow>
         Inr (r, db_put s n (d\<lparr>db_dict := h\<rparr>)))"

definition execute_push_command :: "'a senv \<Rightarrow> 'a server \<Rightarrow> object \<Rightarrow> nat \<Rightarrow> (int \<times> 'a server) res" where
  "execute_push_command S s val n =
     res_bind (db_at s n) (\<lambda>d.
       case vec_push (se_al S) Null (db_vec d) val of (r, v) \<Rightarrow> Inr (r, db_put s n (d\<lparr>db_vec := v\<rparr>)))"

definition execute_pop_command :: "'a server \<Rightarrow> nat \<Rightarrow> (object option \<times> 'a server) res" where
  "execute_pop_command s n =
     res_bind (db_at s n) (\<lambda>d.
       case vec_pop (db_vec d) of ((r, out), v) \<Rightarrow>
         Inr (if r = - 1 then None else out, db_put s n (d\<lparr>db_vec := v\<rparr>)))"

definition execute_enque_command :: "'a senv \<Rightarrow> 'a server \<Rightarrow> object \<Rightarrow> nat \<Rightarrow> (int \<times> 'a server) res" where
  "execute_enque_command S s val n =
     res_bind (db_at s n) (\<lambda>d.
     res_bind (queue_enque (se_al S) (db_queue d) val) (\<lambda>(r, q). Inr (r, db_put s n (d\<lparr>db_queue := q\<rparr>))))"

definition execute_deque_command :: "'a server \<Rightarrow> nat \<Rightarrow> (object option \<times> 'a server) res" where
  "execute_deque_command s n =
     res_bind (db_at s n) (\<lambda>d.
     res_bind (queue_deque (db_queue d)) (\<lambda>((r, out), q).
       Inr (if r = - 1 then None else out, db_put s n (d\<lparr>db_queue := q\<rparr>))))"

definition execute_zset_command :: "'a senv \<Rightarrow> 'a server \<Rightarrow> object \<Rightarrow> nat \<Rightarrow> (set_result \<times> 'a server) res" where
  "execute_zset_command S s val n =
     res_bind (db_at s n) (\<lambda>d.
       case set_insert (se_keys S) (se_al S) True (db_set d) val of (r, freed, st) \<Rightarrow>
         Inr (r, db_put s n (d\<lparr>db_set := st\<rparr>)))"

definition execute_zhas_command :: "'a senv \<Rightarrow> 'a server \<Rightarrow> object \<Rightarrow> nat \<Rightarrow> bool res" where
  "execute_zhas_command S s val n = res_bind (db_at s n) (\<lambda>d. Inr (set_has (se_keys S) (db_set d) val))"

definition execute_zdel_command :: "'a senv \<Rightarrow> 'a server \<Rightarrow> object \<Rightarrow> nat \<Rightarrow> (set_result \<times> 'a server) res" where
  "execute_zdel_command S s val n =
     res_bind (db_at s n) (\<lambda>d.
       case set_delete (se_keys S) True (db_set d) val of (r, freed, st) \<Rightarrow>
         Inr (r, db_put s n (d\<lparr>db_set := st\<rparr>)))"

section \<open>The dispatch of commands\<close>

text \<open>
  A call of the builder of a connection whose return code is not looked at, several of them, and one
  as the last act of a command.
\<close>

definition reply :: "(builder \<Rightarrow> (int \<times> builder) res) \<Rightarrow> client \<Rightarrow> client res" where
  "reply f c = res_bind (f (cl_builder c)) (\<lambda>(_, b). Inr (c\<lparr>cl_builder := b\<rparr>))"

fun replies :: "(builder \<Rightarrow> (int \<times> builder) res) list \<Rightarrow> client \<Rightarrow> client res" where
  "replies [] c = Inr c"
| "replies (f # fs) c = res_bind (reply f c) (replies fs)"

definition answer :: "(builder \<Rightarrow> (int \<times> builder) res) \<Rightarrow> 'a server \<Rightarrow> client \<Rightarrow> ('a server \<times> client) res" where
  "answer f s c = res_bind (reply f c) (\<lambda>c. Inr (s, c))"

definition add_err :: "'a senv \<Rightarrow> err_reply \<Rightarrow> builder \<Rightarrow> (int \<times> builder) res" where
  "add_err S e = builder_add_err (se_al S) (err_str e) (err_len e)"

definition add_obj :: "'a senv \<Rightarrow> object \<Rightarrow> builder \<Rightarrow> (int \<times> builder) res" where
  "add_obj S obj = builder_add_object (se_fmt_g S) (se_al S) (size obj + 1) obj"

text \<open>\<^verbatim>\<open>s->cmd_executed++\<close>\<close>

definition counted :: "'a server \<Rightarrow> 'a server" where
  "counted s = s\<lparr>cmd_executed := cmd_executed s + 1\<rparr>"

text \<open>The branch of \<^verbatim>\<open>Infoc\<close>: a table of eleven entries.\<close>

definition info_replies :: "'a senv \<Rightarrow> 'a server \<Rightarrow> vstr \<Rightarrow> (builder \<Rightarrow> (int \<times> builder) res) list" where
  "info_replies S s time_secs =
     (let al = se_al S; str = (\<lambda>t. builder_add_string al t (length t));
          vstring = (\<lambda>v. builder_add_string al (vstr_data v) (vstr_len v)) in
      [builder_add_ht al 11,
       str ''process id'', builder_add_int al (sv_pid s),
       str ''executable'', builder_add_string al (sv_executable_path s) (strlen (sv_executable_path s)),
       str ''config file'', vstring (sv_conf_file_path s),
       str ''OS'', vstring (sv_os_name s),
       str ''multiplexing api'', str (api_name (se_api S)),
       str ''host'', vstring (sv_addr s),
       str ''port'', builder_add_int al (ucast (sv_port s)),
       str ''commands processes'', builder_add_int al (cmd_executed s),
       str ''num connections'', builder_add_int al (of_nat (vec_len (sv_clients s))),
       str ''num databases'', builder_add_int al (of_nat (num_databases s)),
       str ''uptime'', vstring time_secs])"

definition execute_info :: "'a senv \<Rightarrow> 'a server \<Rightarrow> client \<Rightarrow> ('a server \<times> client) res" where
  "execute_info S s c =
     res_bind (vstr_format (se_al S) (fmt_lu (unat (se_now S - sv_start_time s)) @ '' secs'')) (\<lambda>time_secs.
     res_bind (replies (info_replies S s time_secs) c) (\<lambda>c. Inr (counted s, c)))"

text \<open>
  The branch of \<^verbatim>\<open>Keys\<close>: the length is that of the table of the selected database, the iterator is
  one over the table of the first database.
\<close>

definition execute_keys :: "'a senv \<Rightarrow> 'a server \<Rightarrow> client \<Rightarrow> ('a server \<times> client) res" where
  "execute_keys S s c =
     res_bind (db_at s (database_num c)) (\<lambda>d.
       let len = ht_num_entries (db_dict d) in
       if len = 0 then answer (builder_add_none (se_al S)) (counted s) c
       else
         res_bind (db_at s 0) (\<lambda>d0.
         res_bind (ht_iter_new (db_dict d0)) (\<lambda>iter.
         res_bind (reply (builder_add_array (se_al S) len) c) (\<lambda>c.
         res_bind (ht_iter_loop (length (concat (ht_entries (db_dict d0))) + 1)
             (\<lambda>cur c. res_bind (reply (add_obj S (fst cur)) c) (\<lambda>c. Inr (True, c))) iter c)
           (\<lambda>(_, c). Inr (counted s, c))))))"

text \<open>The \<^verbatim>\<open>switch\<close> of \<^verbatim>\<open>execute_cmd\<close>.\<close>

definition run_cmd :: "'a senv \<Rightarrow> 'a server \<Rightarrow> client \<Rightarrow> cmd \<Rightarrow> ('a server \<times> client) res" where
  "run_cmd S s c cmd =
     (let al = se_al S; n = database_num c in
      case cmd_type cmd of
        Okc \<Rightarrow> Inr (s, c)
      | Ping \<Rightarrow> answer (builder_add_pong al) (counted s) c
      | Auth \<Rightarrow>
          res_bind (execute_auth_command S s c (cmd_arg cmd) (cmd_arg2 cmd)) (\<lambda>(auth_res, c).
            if auth_res \<noteq> 0 then answer (builder_add_err al ''failed to authenticate'' 22) s c
            else answer (builder_add_ok al) s c)
      | Infoc \<Rightarrow> execute_info S s c
      | Select \<Rightarrow>
          (let db_num = (case cmd_arg cmd of Int_o num \<Rightarrow> num | _ \<Rightarrow> 0) in
           if unat db_num \<ge> num_databases s then answer (add_err S err_dbrange) s c
           else answer (builder_add_ok al) s (c\<lparr>database_num := unat db_num\<rparr>))
      | Keys \<Rightarrow> execute_keys S s c
      | Set \<Rightarrow>
          res_bind (execute_set_command S s (cmd_arg cmd) (cmd_arg2 cmd) n) (\<lambda>(set_res, s).
            if set_res \<noteq> HT_OK then answer (add_err S err_oom) s c
            else answer (builder_add_ok al) (counted s) c)
      | Get \<Rightarrow>
          res_bind (execute_get_command S s (cmd_arg cmd) n) (\<lambda>r.
            case r of
              None \<Rightarrow> answer (builder_add_none al) s c
            | Some obj \<Rightarrow> answer (add_obj S obj) (counted s) c)
      | Del \<Rightarrow>
          res_bind (execute_del_command S s (cmd_arg cmd) n) (\<lambda>(del_res, s).
            if del_res \<noteq> HT_OK then answer (add_err S err_invalid_key) s c
            else answer (builder_add_ok al) (counted s) c)
      | Push \<Rightarrow>
          res_bind (execute_push_command S s (cmd_arg cmd) n) (\<lambda>(push_res, s).
            if push_res = - 1 then answer (builder_add_err al ''unable to push'' 14) s c
            else answer (builder_add_ok al) (counted s) c)
      | Pop \<Rightarrow>
          res_bind (execute_pop_command s n) (\<lambda>(ro, s).
            case ro of
              None \<Rightarrow> answer (builder_add_none al) s c
            | Some obj \<Rightarrow> answer (add_obj S obj) (counted s) c)
      | Enque \<Rightarrow>
          res_bind (execute_enque_command S s (cmd_arg cmd) n) (\<lambda>(r, s).
            if r = - 1 then answer (builder_add_err al ''failed to enque data'' 20) s c
            else answer (builder_add_ok al) (counted s) c)
      | Deque \<Rightarrow>
          res_bind (execute_deque_command s n) (\<lambda>(ro, s).
            case ro of
              None \<Rightarrow> answer (builder_add_none al) s c
            | Some obj \<Rightarrow> answer (add_obj S obj) (counted s) c)
      | ZSet \<Rightarrow>
          res_bind (execute_zset_command S s (cmd_arg cmd) n) (\<lambda>(r, s).
            if r \<noteq> SET_OK \<and> r = SET_OOM then answer (add_err S err_oom) s c
            else answer (builder_add_ok al) (counted s) c)
      | ZHas \<Rightarrow>
          res_bind (execute_zhas_command S s (cmd_arg cmd) n) (\<lambda>has.
            if \<not> has then answer (builder_add_none al) s c
            else answer (builder_add_int al 1) (counted s) c)
      | ZDel \<Rightarrow>
          res_bind (execute_zdel_command S s (cmd_arg cmd) n) (\<lambda>(r, s).
            if r \<noteq> SET_OK then answer (add_err S err_invalid_key) s c
            else answer (builder_add_ok al) (counted s) c)
      | _ \<Rightarrow> answer (add_err S err_invalid_command) s c)"

definition execute_cmd :: "'a senv \<Rightarrow> 'a server \<Rightarrow> client \<Rightarrow> ('a server \<times> client) res" where
  "execute_cmd S s c =
     res_bind (parse (se_env S) (read_buf c) (read_pos c)) (\<lambda>cmd.
       if cmd_type cmd = Illegal then answer (add_err S err_invalid_command) s c
       else if cl_flags c AND AUTHENTICATED = 0 \<and> cmd_type cmd \<noteq> Auth then answer (add_err S err_unauthed) s c
       else run_cmd S s c cmd)"

text \<open>\<^verbatim>\<open>cmd_free\<close>, which runs when a command is refused: the blocks it frees.\<close>

definition cmd_free :: "cmd \<Rightarrow> addr list" where
  "cmd_free cmd =
     (if cmd_type cmd \<in> {Auth, Set} then object_free (cmd_arg cmd) @ object_free (cmd_arg2 cmd)
      else if cmd_type cmd \<in> {Get, Del, Push, Enque, ZSet, ZHas, ZDel, Select} then object_free (cmd_arg cmd)
      else [])"

section \<open>The callbacks of the event loop\<close>

definition realloc_client_read_buf :: "allocator \<Rightarrow> client \<Rightarrow> int \<times> client" where
  "realloc_client_read_buf al c =
     (let new_cap = read_cap c * 2 in
      if al new_cap = 0 then (- 1, c)
      else (0, c\<lparr>read_buf := take (read_pos c) (read_buf c) @ replicate (new_cap - read_pos c) NUL,
                 read_cap := new_cap\<rparr>))"

definition client_compare :: "int \<Rightarrow> client \<Rightarrow> int" where
  "client_compare fd c = fd - cl_fd c"

text \<open>
  \<^verbatim>\<open>vec_find(s->clients, &fd, &c, client_compare)\<close>: the comparison follows the pointers of the vector.
\<close>

fun find_client_from :: "(addr \<rightharpoonup> client) \<Rightarrow> int \<Rightarrow> addr list \<Rightarrow> nat \<Rightarrow> (nat \<times> addr \<times> client) option res" where
  "find_client_from mem fd [] i = Inr None"
| "find_client_from mem fd (p # ps) i = (case mem p of
     None \<Rightarrow> Inl Dangling
   | Some c \<Rightarrow> if client_compare fd c = 0 then Inr (Some (i, p, c)) else find_client_from mem fd ps (Suc i))"

definition find_client :: "'a server \<Rightarrow> int \<Rightarrow> (nat \<times> addr \<times> client) option res" where
  "find_client s fd = find_client_from (sv_mem s) fd (vec_list (sv_clients s)) 0"

definition client_free :: "addr \<Rightarrow> 'a server \<Rightarrow> 'a server" where
  "client_free p s = s\<lparr>sv_mem := (sv_mem s)(p := None)\<rparr>"

text \<open>What a call of \<^verbatim>\<open>read\<close> returns: bytes (none at the end of the stream), or an error.\<close>

datatype read_result = Read_bytes string | Read_again | Read_fail

datatype read_end = Read_done client | Read_closed client | Read_error client | Read_oom client

text \<open>The reading loop of \<^verbatim>\<open>read_from_client\<close>, for the results of the calls in order.\<close>

fun read_loop :: "allocator \<Rightarrow> read_result list \<Rightarrow> client \<Rightarrow> read_end" where
  "read_loop al rs c =
     (let (r, c) = (if read_pos c \<ge> read_cap c then realloc_client_read_buf al c else (0, c)) in
      if r = - 1 then Read_oom c
      else case rs of
        [] \<Rightarrow> Read_done c
      | Read_again # rs \<Rightarrow> Read_done c
      | Read_fail # rs \<Rightarrow> Read_error c
      | Read_bytes d # rs \<Rightarrow>
          if d = [] then Read_closed c
          else
            let d = take (read_cap c - read_pos c) d in
            read_loop al rs (c\<lparr>read_buf := memcpy_at (read_buf c) (read_pos c) d (length d),
                               read_pos := read_pos c + length d\<rparr>))"

declare read_loop.simps [simp del]

text \<open>The three calls that drop a connection.\<close>

definition drop_client :: "'a senv \<Rightarrow> nat \<Rightarrow> addr \<Rightarrow> int \<Rightarrow> 32 word \<Rightarrow> 'a server \<Rightarrow> 'a server res" where
  "drop_client S found p fd msk s =
     (let s = s\<lparr>sv_clients := snd (vec_remove_at 0 (sv_clients s) found)\<rparr> in
      res_bind (ev_delete_event (se_api S) (sv_ev s) fd msk) (\<lambda>ev. Inr (client_free p (s\<lparr>sv_ev := ev\<rparr>))))"

definition read_from_client :: "'a senv \<Rightarrow> read_result list \<Rightarrow> int \<Rightarrow> 32 word \<Rightarrow> 'a server \<Rightarrow> 'a server res" where
  "read_from_client S rs fd msk s =
     res_bind (find_client s fd) (\<lambda>found.
       case found of
         None \<Rightarrow> res_bind (ev_delete_event (se_api S) (sv_ev s) fd EV_READ) (\<lambda>ev. Inr (s\<lparr>sv_ev := ev\<rparr>))
       | Some (i, p, c) \<Rightarrow>
           (case read_loop (se_al S) rs c of
              Read_oom c \<Rightarrow> drop_client S i p fd msk s
            | Read_closed c \<Rightarrow> drop_client S i p fd msk s
            | Read_error c \<Rightarrow> Inr (s\<lparr>sv_mem := (sv_mem s)(p \<mapsto> c)\<rparr>)
            | Read_done c \<Rightarrow>
                res_bind (execute_cmd S s c) (\<lambda>(s, c).
                  let c = c\<lparr>write_buf := builder_out (cl_builder c), write_size := builder_len (cl_builder c)\<rparr> in
                  res_bind (ev_add_event (se_api S) (sv_ev s) fd EV_WRITE Write_to_client (se_self S)) (\<lambda>(add, ev).
                    let s = s\<lparr>sv_ev := ev\<rparr> in
                    if add = - 1 then Inr (s\<lparr>sv_mem := (sv_mem s)(p \<mapsto> c)\<rparr>)
                    else
                      let c = c\<lparr>read_buf := replicate (read_pos c) NUL @ drop (read_pos c) (read_buf c),
                                read_pos := 0\<rparr> in
                      Inr (s\<lparr>sv_mem := (sv_mem s)(p \<mapsto> c)\<rparr>)))))"

text \<open>What a call of \<^verbatim>\<open>write\<close> returns: how many bytes it took, or an error.\<close>

datatype write_result = Write_ok nat | Write_again | Write_fail

text \<open>
  The writing loop: every turn passes the whole reply again. The result says whether the loop came
  to its end, and which bytes were sent.
\<close>

fun write_loop :: "write_result list \<Rightarrow> string \<Rightarrow> nat \<Rightarrow> nat \<Rightarrow> bool \<times> string" where
  "write_loop [] buf to_send bytes_sent = (\<not> bytes_sent < to_send, [])"
| "write_loop (w # ws) buf to_send bytes_sent =
     (if \<not> bytes_sent < to_send then (True, [])
      else case w of
        Write_ok n \<Rightarrow>
          let amt_sent = min n to_send; (fin, out) = write_loop ws buf to_send (bytes_sent + amt_sent) in
          (fin, take amt_sent buf @ out)
      | _ \<Rightarrow> (False, []))"

definition write_to_client :: "'a senv \<Rightarrow> write_result list \<Rightarrow> int \<Rightarrow> 32 word \<Rightarrow> 'a server \<Rightarrow> (string \<times> 'a server) res" where
  "write_to_client S ws fd msk s =
     res_bind (find_client s fd) (\<lambda>found.
       case found of
         None \<Rightarrow> res_bind (ev_delete_event (se_api S) (sv_ev s) fd msk) (\<lambda>ev. Inr ([], s\<lparr>sv_ev := ev\<rparr>))
       | Some (i, p, c) \<Rightarrow>
           let (fin, out) = write_loop ws (write_buf c) (write_size c) 0 in
           if \<not> fin then Inr (out, s)
           else res_bind (ev_delete_event (se_api S) (sv_ev s) fd EV_WRITE) (\<lambda>ev.
             Inr (out, s\<lparr>sv_ev := ev, sv_mem := (sv_mem s)(p \<mapsto> c\<lparr>cl_builder := builder_reset (cl_builder c)\<rparr>)\<rparr>)))"

text \<open>The results of \<^verbatim>\<open>tcp_accept\<close> and \<^verbatim>\<open>make_socket_nonblocking\<close>.\<close>

datatype accept_result = Accept_fail | Accepted int "32 word" "16 word" bool

definition server_accept :: "'a senv \<Rightarrow> accept_result \<Rightarrow> 'a server \<Rightarrow> 'a server res" where
  "server_accept S acc s = (case acc of
     Accept_fail \<Rightarrow> Inr s
   | Accepted cfd address port nonblocking \<Rightarrow>
       if \<not> nonblocking then Inr s
       else case create_client S cfd address port of
         None \<Rightarrow> Inr s
       | Some (p, client) \<Rightarrow>
           let s = s\<lparr>sv_mem := (sv_mem s)(p \<mapsto> client)\<rparr>;
               (add, clients) = vec_push (se_al S) 0 (sv_clients s) p;
               s = s\<lparr>sv_clients := clients\<rparr> in
           if add = - 1 then Inr s
           else res_bind (ev_add_event (se_api S) (sv_ev s) cfd EV_READ Read_from_client (se_self S)) (\<lambda>(add, ev).
             let s = s\<lparr>sv_ev := ev\<rparr> in
             if add = - 1 then Inr (client_free p s) else Inr s))"

text \<open>
  The callbacks as the event loop runs them. What memory, clock and sockets give is given for every
  call in turn; the state is the server, the number of calls so far, and what was sent to which descriptor.
\<close>

record io =
  io_al :: allocator
  io_now :: "64 word"
  io_accept :: accept_result
  io_read :: "read_result list"
  io_write :: "write_result list"

type_synonym 'a running = "'a server \<times> nat \<times> (int \<times> string) list"

definition run_handler :: "'a senv \<Rightarrow> (nat \<Rightarrow> io) \<Rightarrow> handler \<Rightarrow> nat \<Rightarrow> addr \<Rightarrow> 32 word \<Rightarrow> 'a running \<Rightarrow> 'a running res" where
  "run_handler S ios f fd client_data msk st = (case st of (s, i, out) \<Rightarrow>
     let S = (with_al (io_al (ios i)) S)\<lparr>se_now := io_now (ios i)\<rparr> in
     (case f of
        Server_accept \<Rightarrow> res_bind (server_accept S (io_accept (ios i)) s) (\<lambda>s. Inr (s, Suc i, out))
      | Read_from_client \<Rightarrow>
          res_bind (read_from_client S (io_read (ios i)) (int fd) msk s) (\<lambda>s. Inr (s, Suc i, out))
      | Write_to_client \<Rightarrow>
          res_bind (write_to_client S (io_write (ios i)) (int fd) msk s) (\<lambda>(sent, s).
            Inr (s, Suc i, out @ [(int fd, sent)]))))"

text \<open>\<^verbatim>\<open>ev_await(s.ev)\<close> in \<^verbatim>\<open>server_run\<close>, for the descriptors that polling reports in turn.\<close>

definition server_loop :: "'a senv \<Rightarrow> (nat \<Rightarrow> io) \<Rightarrow> (nat \<times> 32 word) list list \<Rightarrow> 'a server \<Rightarrow> (bool \<times> 'a running) res" where
  "server_loop S ios polls s = ev_await (\<lambda>st. sv_ev (fst st)) (run_handler S ios) polls (s, 0, [])"

section \<open>The end\<close>

text \<open>\<^verbatim>\<open>lexidb_free\<close>: all objects that are handed to \<^verbatim>\<open>server_free_object\<close>, in order.\<close>

definition freed_objects :: "(object, object) freed list \<Rightarrow> object list" where
  "freed_objects fs = map (\<lambda>f. case f of Freed_key k \<Rightarrow> k | Freed_data d \<Rightarrow> d) fs"

fun lexidb_free :: "lexidb list \<Rightarrow> object list res" where
  "lexidb_free [] = Inr []"
| "lexidb_free (d # ds) =
     res_bind (queue_free True (db_queue d)) (\<lambda>(qs, _).
     res_bind (lexidb_free ds) (\<lambda>rest.
       Inr (freed_objects (ht_free True True (db_dict d)) @ fst (vec_free True (db_vec d)) @ qs @
            fst (set_free True (db_set d)) @ rest)))"

end
