(* ===== verification/Config_Parser.thy ===== *)
theory Config_Parser
  imports Server
begin

text \<open>
  The configuration file (\<^verbatim>\<open>src/src/config_parser.h\<close>, \<^verbatim>\<open>src/src/config_parser.c\<close>): the parser, one definition per
  function. Its struct has the fields of the parser of requests, and it moves in the same way.
\<close>

section \<open>Data\<close>

datatype line_data_type = Address | Port | User | LogLevel | Databases

datatype line_data = L_address vstr | L_loglevel vstr | L_port "16 word" | L_databases "64 word" | L_user user

record config =
  cf_port :: "16 word"
  cf_databases :: "64 word"
  cf_address :: vstr
  cf_users :: "user vec"
  cf_loglevel :: vstr

type_synonym config_parser = parser

definition lookups :: "(string \<times> nat \<times> line_data_type) list" where
  "lookups = [(''port'', 4, Port), (''user'', 4, User), (''address'', 7, Address), (''loglevel'', 8, LogLevel),
     (''databases'', 9, Databases)]"

section \<open>Moving over the input\<close>

definition config_parser_read_char :: "config_parser \<Rightarrow> config_parser" where
  "config_parser_read_char p =
     (if p_pos p \<ge> p_input_len p then p\<lparr>p_ch := NUL\<rparr>
      else p\<lparr>p_ch := p_input p ! p_pos p, p_pos := p_pos p + 1\<rparr>)"

definition config_parser_new :: "string \<Rightarrow> nat \<Rightarrow> config_parser" where
  "config_parser_new input input_len =
     config_parser_read_char \<lparr>p_input = input, p_input_len = input_len, p_pos = 0, p_ch = NUL\<rparr>"

lemma config_parser_moves: "config_parser_read_char = parser_read_char" "config_parser_new = parser_new"
  by (auto simp: fun_eq_iff config_parser_read_char_def parser_read_char_def config_parser_new_def parser_new_def)

abbreviation TAB :: byte where "TAB \<equiv> CHR 0x09"

function config_parser_skip_spaces :: "config_parser \<Rightarrow> config_parser" where
  "config_parser_skip_spaces p =
     (if p_ch p = CHR '' '' \<or> p_ch p = TAB then config_parser_skip_spaces (config_parser_read_char p) else p)"
  by pat_completeness auto

termination
  by (relation "measure p_left") (auto simp: config_parser_moves intro: p_left_read)

function config_parser_skip_whitespace :: "config_parser \<Rightarrow> config_parser" where
  "config_parser_skip_whitespace p =
     (if p_ch p = CHR '' '' \<or> p_ch p = TAB \<or> p_ch p = CR \<or> p_ch p = LF
      then config_parser_skip_whitespace (config_parser_read_char p) else p)"
  by pat_completeness auto

termination
  by (relation "measure p_left") (auto simp: config_parser_moves intro: p_left_read)

function config_parser_skip_comment :: "config_parser \<Rightarrow> config_parser" where
  "config_parser_skip_comment p =
     (if p_ch p \<noteq> LF \<and> p_ch p \<noteq> NUL then config_parser_skip_comment (config_parser_read_char p) else p)"
  by pat_completeness auto

termination
  by (relation "measure p_left") (auto simp: config_parser_moves intro: p_left_read)

declare config_parser_skip_spaces.simps [simp del] config_parser_skip_whitespace.simps [simp del]
  config_parser_skip_comment.simps [simp del]

lemma p_left_read_le: "p_left (config_parser_read_char p) \<le> p_left p"
  by (auto simp: p_left_def config_parser_read_char_def)

lemma p_left_skips:
  "p_left (config_parser_skip_spaces p) \<le> p_left p"
  "p_left (config_parser_skip_whitespace p) \<le> p_left p"
  "p_left (config_parser_skip_comment p) \<le> p_left p"
proof -
  note le = order_trans [OF _ p_left_read_le]
  show "p_left (config_parser_skip_spaces p) \<le> p_left p"
    by (induction p rule: config_parser_skip_spaces.induct)
      (subst config_parser_skip_spaces.simps, auto intro: le)
  show "p_left (config_parser_skip_whitespace p) \<le> p_left p"
    by (induction p rule: config_parser_skip_whitespace.induct)
      (subst config_parser_skip_whitespace.simps, auto intro: le)
  show "p_left (config_parser_skip_comment p) \<le> p_left p"
    by (induction p rule: config_parser_skip_comment.induct)
      (subst config_parser_skip_comment.simps, auto intro: le)
qed

lemma p_left_skip_line:
  "p_ch p = CHR ''#'' \<Longrightarrow> p_left (config_parser_skip_comment p) < p_left p"
  "p_ch p = LF \<Longrightarrow> p_left (config_parser_skip_whitespace p) < p_left p"
  using p_left_skips(3) [of "parser_read_char p"] p_left_skips(2) [of "parser_read_char p"] p_left_read [of p]
    config_parser_skip_comment.simps [of p] config_parser_skip_whitespace.simps [of p]
  by (simp_all add: config_parser_moves)

function config_parser_skip_empty_lines_and_comments :: "config_parser \<Rightarrow> config_parser" where
  "config_parser_skip_empty_lines_and_comments p =
     (if p_ch p = CHR ''#'' then config_parser_skip_empty_lines_and_comments (config_parser_skip_comment p)
      else if p_ch p = LF then config_parser_skip_empty_lines_and_comments (config_parser_skip_whitespace p)
      else p)"
  by pat_completeness auto

termination
  by (relation "measure p_left") (simp_all add: p_left_skip_line)

declare config_parser_skip_empty_lines_and_comments.simps [simp del]

section \<open>Words and numbers\<close>

text \<open>The loops that push the characters of a word; the result of a push is not looked at.\<close>

function config_parser_read_string_loop :: "allocator \<Rightarrow> config_parser \<Rightarrow> vstr \<Rightarrow> vstr \<times> config_parser" where
  "config_parser_read_string_loop al p s =
     (if p_ch p \<noteq> CHR '' '' \<and> p_ch p \<noteq> LF \<and> p_ch p \<noteq> NUL
      then config_parser_read_string_loop al (config_parser_read_char p) (snd (vstr_push_char al s (p_ch p)))
      else (s, p))"
  by pat_completeness auto

termination
  by (relation "measure (\<lambda>(al, p, s). p_left p)") (auto simp: config_parser_moves intro: p_left_read)

function config_parser_address_loop :: "allocator \<Rightarrow> config_parser \<Rightarrow> vstr \<Rightarrow> vstr \<times> config_parser" where
  "config_parser_address_loop al p s =
     (if isdigit (p_ch p) \<or> p_ch p = CHR ''.''
      then config_parser_address_loop al (config_parser_read_char p) (snd (vstr_push_char al s (p_ch p)))
      else (s, p))"
  by pat_completeness auto

termination
  by (relation "measure (\<lambda>(al, p, s). p_left p)") (auto simp: config_parser_moves intro: p_left_read)

function config_parser_number_loop :: "config_parser \<Rightarrow> 64 word \<Rightarrow> 64 word \<times> config_parser" where
  "config_parser_number_loop p num =
     (if isdigit (p_ch p)
      then config_parser_number_loop (config_parser_read_char p) (num * 10 + of_nat (digit_val (p_ch p)))
      else (num, p))"
  by pat_completeness auto

termination
  by (relation "measure (\<lambda>(p, num). p_left p)") (auto simp: config_parser_moves intro: p_left_read)

declare config_parser_read_string_loop.simps [simp del] config_parser_address_loop.simps [simp del]
  config_parser_number_loop.simps [simp del]

definition config_parser_read_string :: "allocator \<Rightarrow> config_parser \<Rightarrow> vstr \<times> config_parser" where
  "config_parser_read_string al p = config_parser_read_string_loop al p vstr_new"

text \<open>\<^verbatim>\<open>p->ch != '\n' && p->ch != 0\<close>: the test for characters that do not belong on the line.\<close>

definition more_on_line :: "config_parser \<Rightarrow> bool" where
  "more_on_line p \<longleftrightarrow> p_ch p \<noteq> LF \<and> p_ch p \<noteq> NUL"

definition config_parser_parse_log_level :: "allocator \<Rightarrow> config_parser \<Rightarrow> vstr \<times> config_parser" where
  "config_parser_parse_log_level al p =
     (let (s, p) = config_parser_read_string al p; p = config_parser_skip_spaces p in
      if more_on_line p then (vstr_free s, p) else (s, p))"

definition config_parser_parse_address :: "allocator \<Rightarrow> config_parser \<Rightarrow> vstr \<times> config_parser" where
  "config_parser_parse_address al p =
     (let (s, p) = config_parser_address_loop al p vstr_new; p = config_parser_skip_spaces p in
      if more_on_line p then (vstr_free s, p) else (s, p))"

definition config_parser_parse_num_databases :: "allocator \<Rightarrow> config_parser \<Rightarrow> 64 word result \<times> config_parser" where
  "config_parser_parse_num_databases al p =
     (let (num, p) = config_parser_number_loop p 0; p = config_parser_skip_spaces p in
      if more_on_line p then (Err (vstr_from al ''expected only the number of databases''), p) else (Ok num, p))"

definition config_parser_parse_port :: "allocator \<Rightarrow> config_parser \<Rightarrow> (16 word result \<times> config_parser) res" where
  "config_parser_parse_port al p =
     (let (num, p) = config_parser_number_loop p 0; p = config_parser_skip_spaces p in
      if more_on_line p then Inr (Err (vstr_from al ''expected only the number of databases''), p)
      else if unat num > 65535 then
        res_bind (vstr_format al (fmt_lu (unat num) @ '' is too big to be a port'')) (\<lambda>m. Inr (Err m, p))
      else Inr (Ok (ucast num), p))"

section \<open>Lines\<close>

fun lookups_from :: "(string \<times> nat \<times> line_data_type) list \<Rightarrow> string \<Rightarrow> nat \<Rightarrow> line_data_type option" where
  "lookups_from [] s slen = None"
| "lookups_from ((str, str_len, type) # ls) s slen =
     (if str_len \<noteq> slen then lookups_from ls s slen
      else if memcmp str s slen \<noteq> 0 then lookups_from ls s slen
      else Some type)"

definition config_parser_parse_line_data_type :: "allocator \<Rightarrow> config_parser \<Rightarrow> (line_data_type result \<times> config_parser) res" where
  "config_parser_parse_line_data_type al p =
     (let (s, p) = config_parser_read_string al p in
      case lookups_from lookups (vstr_data s) (vstr_len s) of
        Some type \<Rightarrow> Inr (Ok type, p)
      | None \<Rightarrow> res_bind (vstr_format al (''unknown data type: '' @ c_str (vstr_data s))) (\<lambda>m. Inr (Err m, p)))"

text \<open>The loop of \<^verbatim>\<open>config_parser_parse_user\<close>: the passwords, of which the last one stays.\<close>

lemma p_left_string: "p_left (snd (config_parser_read_string_loop al p s)) \<le> p_left p"
  by (induction al p s rule: config_parser_read_string_loop.induct)
    (subst config_parser_read_string_loop.simps, auto intro: order_trans [OF _ p_left_read_le])

function config_parser_user_loop :: "allocator \<Rightarrow> config_parser \<Rightarrow> user \<Rightarrow> (user result \<times> config_parser) res" where
  "config_parser_user_loop al p u =
     (if \<not> more_on_line p then Inr (Ok u, p)
      else if p_ch p = CHR ''>'' then
        config_parser_user_loop al
          (config_parser_skip_spaces (snd (config_parser_read_string al (config_parser_read_char p))))
          (u\<lparr>user_password := fst (config_parser_read_string al (config_parser_read_char p))\<rparr>)
      else
        res_bind (vstr_format al (''unexpected character when parsing user '' @ [CHR 0x27, p_ch p, CHR 0x27]))
          (\<lambda>m. Inr (Err m, p)))"
  by pat_completeness auto

termination
proof (relation "measure (\<lambda>(al, p, u). p_left p)", simp, clarsimp)
  fix al p
  assume "more_on_line p" "p_ch p = CHR ''>''"
  then have "p_left (config_parser_read_char p) < p_left p" by (simp add: config_parser_moves p_left_read)
  with p_left_string [of al "config_parser_read_char p" vstr_new]
    p_left_skips(1) [of "snd (config_parser_read_string al (config_parser_read_char p))"]
  show "p_left (config_parser_skip_spaces (snd (config_parser_read_string al (config_parser_read_char p)))) < p_left p"
    by (simp add: config_parser_read_string_def)
qed

declare config_parser_user_loop.simps [simp del]

definition config_parser_parse_user :: "allocator \<Rightarrow> config_parser \<Rightarrow> (user result \<times> config_parser) res" where
  "config_parser_parse_user al p =
     (let (name, p) = config_parser_read_string al p in
      config_parser_user_loop al (config_parser_skip_spaces p)
        \<lparr>user_name = name, user_password = vstr_new, user_flags = 0\<rparr>)"

definition config_parser_parse_line :: "allocator \<Rightarrow> config_parser \<Rightarrow> (line_data result \<times> config_parser) res" where
  "config_parser_parse_line al p =
     res_bind (config_parser_parse_line_data_type al p) (\<lambda>(type_res, p).
       case type_res of
         Err e \<Rightarrow> Inr (Err e, p)
       | Ok type \<Rightarrow>
           let p = config_parser_skip_spaces p in
           (case type of
              Address \<Rightarrow> (let (addr, p) = config_parser_parse_address al p in Inr (Ok (L_address addr), p))
            | LogLevel \<Rightarrow> (let (addr, p) = config_parser_parse_log_level al p in Inr (Ok (L_loglevel addr), p))
            | Port \<Rightarrow> res_bind (config_parser_parse_port al p) (\<lambda>(p_res, p).
                Inr (case p_res of Err e \<Rightarrow> Err e | Ok n \<Rightarrow> Ok (L_port n), p))
            | User \<Rightarrow> res_bind (config_parser_parse_user al p) (\<lambda>(u_res, p).
                Inr (case u_res of Err e \<Rightarrow> Err e | Ok u \<Rightarrow> Ok (L_user u), p))
            | Databases \<Rightarrow> (let (d_res, p) = config_parser_parse_num_databases al p in
                Inr (case d_res of Err e \<Rightarrow> Err e | Ok n \<Rightarrow> Ok (L_databases n), p))))"

section \<open>The file\<close>

definition config_new :: "allocator \<Rightarrow> config res" where
  "config_new al = (case vec_new al user_zero sizeof_user of
     None \<Rightarrow> Inl Assert_failed
   | Some users \<Rightarrow> Inr \<lparr>cf_port = 0, cf_databases = 0, cf_address = vstr_new, cf_users = users, cf_loglevel = vstr_new\<rparr>)"

text \<open>The \<^verbatim>\<open>switch\<close> of \<^verbatim>\<open>config_parser_parse\<close>: what a line does to the configuration.\<close>

definition config_add :: "allocator \<Rightarrow> line_data \<Rightarrow> config \<Rightarrow> config result" where
  "config_add al d c = (case d of
     L_address a \<Rightarrow> if vstr_len (cf_address c) \<noteq> 0 then Err (vstr_from al ''address set twice in config'')
       else Ok (c\<lparr>cf_address := a\<rparr>)
   | L_loglevel l \<Rightarrow> if vstr_len (cf_loglevel c) \<noteq> 0 then Err (vstr_from al ''loglevel set twice in config'')
       else Ok (c\<lparr>cf_loglevel := l\<rparr>)
   | L_port n \<Rightarrow> if cf_port c \<noteq> 0 then Err (vstr_from al ''port set twice in config'')
       else Ok (c\<lparr>cf_port := n\<rparr>)
   | L_user u \<Rightarrow> Ok (c\<lparr>cf_users := snd (vec_push al user_zero (cf_users c) u)\<rparr>)
   | L_databases n \<Rightarrow> if cf_databases c \<noteq> 0 then Err (vstr_from al ''number of databases set twice in config'')
       else Ok (c\<lparr>cf_databases := n\<rparr>))"

text \<open>A line that is read makes the rest of the input shorter, so the loop over the lines ends.\<close>

lemma p_left_address: "p_left (snd (config_parser_address_loop al p s)) \<le> p_left p"
  by (induction al p s rule: config_parser_address_loop.induct)
    (subst config_parser_address_loop.simps, auto intro: order_trans [OF _ p_left_read_le])

lemma p_left_number: "p_left (snd (config_parser_number_loop p n)) \<le> p_left p"
  by (induction p n rule: config_parser_number_loop.induct)
    (subst config_parser_number_loop.simps, auto intro: order_trans [OF _ p_left_read_le])

lemma p_left_user_loop: "config_parser_user_loop al p u = Inr (r, p') \<Longrightarrow> p_left p' \<le> p_left p"
proof (induction al p u rule: config_parser_user_loop.induct)
  case (1 al p u)
  let ?q = "config_parser_read_char p"
  have le: "p_left (config_parser_skip_spaces (snd (config_parser_read_string al ?q))) \<le> p_left p"
    using p_left_skips(1) [of "snd (config_parser_read_string al ?q)"] p_left_string [of al ?q vstr_new] p_left_read_le [of p]
    by (simp add: config_parser_read_string_def)
  from "1.IH" "1.prems" [unfolded config_parser_user_loop.simps [of al p u]] le show ?case
    by (auto simp: res_bind_Inr split: if_splits)
qed

lemma p_left_type:
  assumes "config_parser_parse_line_data_type al p = Inr (Ok ty, p')"
  shows "p_left p' < p_left p"
proof -
  obtain s q where s: "config_parser_read_string al p = (s, q)" by (cases "config_parser_read_string al p")
  then have l: "lookups_from lookups (vstr_data s) (vstr_len s) = Some ty" "p' = q"
    using assms by (auto simp: config_parser_parse_line_data_type_def res_bind_Inr split: option.splits)
  have more: "p_ch p \<noteq> CHR '' '' \<and> p_ch p \<noteq> LF \<and> p_ch p \<noteq> NUL"
  proof (rule ccontr)
    assume "\<not> ?thesis"
    then have "s = vstr_new" using s by (auto simp: config_parser_read_string_def config_parser_read_string_loop.simps)
    with l(1) show False by (simp add: lookups_def vstr_new_def vstr_len_def)
  qed
  then have "q = snd (config_parser_read_string_loop al (config_parser_read_char p) (snd (vstr_push_char al vstr_new (p_ch p))))"
    using s by (simp add: config_parser_read_string_def config_parser_read_string_loop.simps [of al p])
  then have "p_left q \<le> p_left (config_parser_read_char p)" by (simp add: p_left_string)
  with p_left_read [of p] more l(2) show ?thesis by (simp add: config_parser_moves)
qed

lemma p_left_line:
  assumes "config_parser_parse_line al p = Inr (Ok d, p')"
  shows "p_left p' < p_left p"
proof -
  from assms obtain tr q where t: "config_parser_parse_line_data_type al p = Inr (tr, q)"
    by (auto simp: config_parser_parse_line_def res_bind_Inr)
  with assms obtain ty where ty: "tr = Ok ty" by (cases tr) (auto simp: config_parser_parse_line_def)
  have q: "p_left (config_parser_skip_spaces q) < p_left p"
    using p_left_type [of al p ty q] t ty p_left_skips(1) [of q] by simp
  note body = assms [unfolded config_parser_parse_line_def t res_bind_simps prod.case ty result.case Let_def]
  have "p_left p' \<le> p_left (config_parser_skip_spaces q)"
  proof (cases ty)
    case Address
    with body p_left_address [of al "config_parser_skip_spaces q" vstr_new] show ?thesis
      by (auto simp: config_parser_parse_address_def Let_def split: prod.splits if_splits
          intro: order_trans [OF p_left_skips(1)])
  next
    case LogLevel
    with body p_left_string [of al "config_parser_skip_spaces q" vstr_new] show ?thesis
      by (auto simp: config_parser_parse_log_level_def config_parser_read_string_def Let_def split: prod.splits if_splits
          intro: order_trans [OF p_left_skips(1)])
  next
    case Port
    with body obtain pr where "config_parser_parse_port al (config_parser_skip_spaces q) = Inr (pr, p')"
      by (auto simp: res_bind_Inr)
    with p_left_number [of "config_parser_skip_spaces q" 0] show ?thesis
      by (auto simp: config_parser_parse_port_def Let_def res_bind_Inr split: prod.splits if_splits
          intro: order_trans [OF p_left_skips(1)])
  next
    case Databases
    with body p_left_number [of "config_parser_skip_spaces q" 0] show ?thesis
      by (auto simp: config_parser_parse_num_databases_def Let_def split: prod.splits if_splits result.splits
          intro: order_trans [OF p_left_skips(1)])
  next
    case User
    let ?r = "config_parser_read_string al (config_parser_skip_spaces q)"
    from User body obtain r where "config_parser_user_loop al (config_parser_skip_spaces (snd ?r))
        \<lparr>user_name = fst ?r, user_password = vstr_new, user_flags = 0\<rparr> = Inr (r, p')"
      by (auto simp: config_parser_parse_user_def res_bind_Inr split: prod.splits)
    from p_left_user_loop [OF this] p_left_skips(1) [of "snd ?r"] p_left_string [of al "config_parser_skip_spaces q" vstr_new]
    show ?thesis by (simp add: config_parser_read_string_def)
  qed
  with q show ?thesis by simp
qed

lemma p_left_skip_empty: "p_left (config_parser_skip_empty_lines_and_comments p) \<le> p_left p"
proof (induction p rule: config_parser_skip_empty_lines_and_comments.induct)
  case (1 p)
  then show ?case
    using p_left_skip_line [of p] by (subst config_parser_skip_empty_lines_and_comments.simps) force
qed

function config_parser_parse_loop :: "allocator \<Rightarrow> config_parser \<Rightarrow> config \<Rightarrow> config result res" where
  "config_parser_parse_loop al p c =
     (if p_ch p = NUL then Inr (Ok c)
      else
        let p = config_parser_skip_empty_lines_and_comments p in
        if p_ch p = NUL then Inr (Ok c)
        else case config_parser_parse_line al p of
          Inl e \<Rightarrow> Inl e
        | Inr (Err e, p) \<Rightarrow> Inr (Err e)
        | Inr (Ok d, p) \<Rightarrow>
            (case config_add al d c of Err e \<Rightarrow> Inr (Err e) | Ok c \<Rightarrow> config_parser_parse_loop al p c))"
  by pat_completeness auto

termination
proof (relation "measure (\<lambda>(al, p, c). p_left p)", simp, clarsimp)
  fix al p d p'
  assume "config_parser_parse_line al (config_parser_skip_empty_lines_and_comments p) = Inr (Ok d, p')"
  from p_left_line [OF this] p_left_skip_empty [of p] show "p_left p' < p_left p" by simp
qed

declare config_parser_parse_loop.simps [simp del]

definition config_parser_parse :: "allocator \<Rightarrow> config_parser \<Rightarrow> config result res" where
  "config_parser_parse al p = res_bind (config_new al) (config_parser_parse_loop al p)"

definition parse_config :: "allocator \<Rightarrow> string \<Rightarrow> nat \<Rightarrow> config result res" where
  "parse_config al input input_len = config_parser_parse al (config_parser_new input input_len)"

text \<open>
  The destructors: \<^verbatim>\<open>config_free\<close> frees the users that the vector holds, \<^verbatim>\<open>config_free_light\<close> only the
  vector, since the server has taken the users over. The results are the users that are freed and the strings
  that are left.
\<close>

definition config_free_user :: "user \<Rightarrow> user" where
  "config_free_user u = u\<lparr>user_name := vstr_free (user_name u), user_password := vstr_free (user_password u)\<rparr>"

definition config_free_strings :: "config \<Rightarrow> config" where
  "config_free_strings c =
     c\<lparr>cf_address := (if vstr_len (cf_address c) > 0 then vstr_free (cf_address c) else cf_address c),
       cf_loglevel := (if vstr_len (cf_loglevel c) > 0 then vstr_free (cf_loglevel c) else cf_loglevel c)\<rparr>"

definition config_free :: "config \<Rightarrow> user list \<times> config" where
  "config_free c = (map config_free_user (fst (vec_free True (cf_users c))), config_free_strings c)"

definition config_free_light :: "config \<Rightarrow> user list \<times> config" where
  "config_free_light c = (map config_free_user (fst (vec_free False (cf_users c))), config_free_strings c)"

section \<open>The specification\<close>

text \<open>The lines of a configuration file, and what they mean.\<close>

datatype cline = CL_blank | CL_comment string | CL_port nat | CL_databases nat | CL_address string
  | CL_loglevel string | CL_user string string

fun line_text :: "cline \<Rightarrow> string" where
  "line_text CL_blank = [LF]"
| "line_text (CL_comment t) = ''#'' @ t @ [LF]"
| "line_text (CL_port n) = ''port '' @ fmt_lu n @ [LF]"
| "line_text (CL_databases n) = ''databases '' @ fmt_lu n @ [LF]"
| "line_text (CL_address t) = ''address '' @ t @ [LF]"
| "line_text (CL_loglevel t) = ''loglevel '' @ t @ [LF]"
| "line_text (CL_user nm pw) = ''user '' @ nm @ '' >'' @ pw @ [LF]"

definition word_ok :: "string \<Rightarrow> bool" where
  "word_ok t \<longleftrightarrow> CHR '' '' \<notin> set t \<and> TAB \<notin> set t \<and> LF \<notin> set t \<and> NUL \<notin> set t \<and> length t < VSTR_MAX_LARGE_SIZE"

fun line_ok :: "cline \<Rightarrow> bool" where
  "line_ok CL_blank \<longleftrightarrow> True"
| "line_ok (CL_comment t) \<longleftrightarrow> LF \<notin> set t \<and> NUL \<notin> set t"
| "line_ok (CL_port n) \<longleftrightarrow> n \<le> 65535"
| "line_ok (CL_databases n) \<longleftrightarrow> n < 2 ^ 64"
| "line_ok (CL_address t) \<longleftrightarrow> (\<forall>c \<in> set t. isdigit c \<or> c = CHR ''.'') \<and> length t < VSTR_MAX_LARGE_SIZE"
| "line_ok (CL_loglevel t) \<longleftrightarrow> word_ok t"
| "line_ok (CL_user nm pw) \<longleftrightarrow> word_ok nm \<and> nm \<noteq> [] \<and> word_ok pw"

record aconf =
  ac_port :: nat
  ac_databases :: nat
  ac_address :: string
  ac_loglevel :: string
  ac_users :: "(string \<times> string) list"

fun conf_line :: "cline \<Rightarrow> aconf \<Rightarrow> string + aconf" where
  "conf_line (CL_port n) c = (if ac_port c \<noteq> 0 then Inl ''port set twice in config'' else Inr (c\<lparr>ac_port := n\<rparr>))"
| "conf_line (CL_databases n) c =
     (if ac_databases c \<noteq> 0 then Inl ''number of databases set twice in config'' else Inr (c\<lparr>ac_databases := n\<rparr>))"
| "conf_line (CL_address t) c =
     (if ac_address c \<noteq> [] then Inl ''address set twice in config'' else Inr (c\<lparr>ac_address := t\<rparr>))"
| "conf_line (CL_loglevel t) c =
     (if ac_loglevel c \<noteq> [] then Inl ''loglevel set twice in config'' else Inr (c\<lparr>ac_loglevel := t\<rparr>))"
| "conf_line (CL_user nm pw) c = Inr (c\<lparr>ac_users := ac_users c @ [(nm, pw)]\<rparr>)"
| "conf_line _ c = Inr c"

fun conf_lines :: "cline list \<Rightarrow> aconf \<Rightarrow> string + aconf" where
  "conf_lines [] c = Inr c"
| "conf_lines (l # ls) c = (case conf_line l c of Inl m \<Rightarrow> Inl m | Inr c \<Rightarrow> conf_lines ls c)"

definition empty_conf :: aconf where
  "empty_conf = \<lparr>ac_port = 0, ac_databases = 0, ac_address = [], ac_loglevel = [], ac_users = []\<rparr>"

text \<open>
  The strings of a user and of a configuration, and the invariant. A string that was built by single bytes is
  on the heap only when it does not fit into the struct.
\<close>

definition vstr_tight :: "vstr \<Rightarrow> bool" where
  "vstr_tight s \<longleftrightarrow> (is_large s \<longrightarrow> VSTR_MAX_SMALL_SIZE < length (vstr_str s))"

lemma vstr_tight_new [simp]: "vstr_tight vstr_new"
  by (simp add: vstr_tight_def vstr_new_def)

lemma push_char_tight:
  assumes "vstr_clean s" "vstr_tight s" "vstr_push_char al s x = (0, s1)" "vstr_str s1 = vstr_str s @ [x]"
  shows "vstr_tight s1"
proof (cases s)
  case (Small d a)
  have "a = 0" if "is_large s1"
    using assms(3) that Small by (auto simp: vstr_push_char_def vstr_sm_push_char_def Let_def split: if_splits)
  with assms(1,4) Small show ?thesis
    by (auto simp: vstr_tight_def vstr_clean_def vstr_str_def vstr_len_def vstr_data_def)
qed (use assms(2,4) in \<open>simp add: vstr_tight_def\<close>)

definition conf_user_ok :: "user \<Rightarrow> bool" where
  "conf_user_ok u \<longleftrightarrow> vstr_clean (user_name u) \<and> vstr_clean (user_password u) \<and> user_flags u = 0"

definition config_ok :: "config \<Rightarrow> bool" where
  "config_ok c \<longleftrightarrow> vstr_clean (cf_address c) \<and> vstr_tight (cf_address c) \<and> vstr_clean (cf_loglevel c) \<and> vec_wf (cf_users c) \<and>
     (\<forall>u \<in> set (vec_list (cf_users c)). conf_user_ok u)"

definition abs_config :: "config \<Rightarrow> aconf" where
  "abs_config c = \<lparr>ac_port = unat (cf_port c), ac_databases = unat (cf_databases c), ac_address = vstr_str (cf_address c),
     ac_loglevel = vstr_str (cf_loglevel c),
     ac_users = map (\<lambda>u. (vstr_str (user_name u), vstr_str (user_password u))) (vec_list (cf_users c))\<rparr>"

fun abs_data :: "line_data \<Rightarrow> cline" where
  "abs_data (L_address s) = CL_address (vstr_str s)"
| "abs_data (L_loglevel s) = CL_loglevel (vstr_str s)"
| "abs_data (L_port n) = CL_port (unat n)"
| "abs_data (L_databases n) = CL_databases (unat n)"
| "abs_data (L_user u) = CL_user (vstr_str (user_name u)) (vstr_str (user_password u))"

fun data_ok :: "line_data \<Rightarrow> bool" where
  "data_ok (L_address s) \<longleftrightarrow> vstr_clean s \<and> vstr_tight s"
| "data_ok (L_loglevel s) \<longleftrightarrow> vstr_clean s"
| "data_ok (L_user u) \<longleftrightarrow> conf_user_ok u"
| "data_ok _ \<longleftrightarrow> True"

lemma vstr_len_0: "vstr_clean s \<Longrightarrow> vstr_len s = 0 \<longleftrightarrow> vstr_str s = []"
  using vstr_len_le_data [of s] by (auto simp: vstr_str_def vstr_clean_live vstr_live_wf)

lemma config_add_spec:
  assumes "config_ok c" "data_ok d" "alloc_total al"
  shows "case conf_line (abs_data d) (abs_config c) of
      Inl m \<Rightarrow> config_add al d c = Err (vstr_from al m)
    | Inr a \<Rightarrow> \<exists>c'. config_add al d c = Ok c' \<and> config_ok c' \<and> abs_config c' = a"
proof (cases d)
  case (L_user u)
  have "vec_wf (cf_users c)" using assms(1) by (simp add: config_ok_def)
  from vst.push_law [OF this assms(3), of user_zero u] obtain v where
    "vec_push al user_zero (cf_users c) u = (0, v)" "vec_wf v" "vec_list v = vec_list (cf_users c) @ [u]" by blast
  with assms L_user show ?thesis by (auto simp: config_add_def config_ok_def abs_config_def)
qed (use assms vstr_len_0 [of "cf_address c"] vstr_len_0 [of "cf_loglevel c"] in
    \<open>auto simp: config_add_def config_ok_def abs_config_def unat_eq_0\<close>)

section \<open>What the parser reads\<close>

lemma at_read: "at_text p (c # t) \<Longrightarrow> at_text (config_parser_read_char p) t"
  by (simp add: config_parser_moves at_text_read)

lemma skip_spaces_none: "p_ch p \<noteq> CHR '' '' \<Longrightarrow> p_ch p \<noteq> TAB \<Longrightarrow> config_parser_skip_spaces p = p"
  by (simp add: config_parser_skip_spaces.simps [of p])

lemma skip_one_space:
  assumes "at_text p (CHR '' '' # c # t)" "c \<noteq> CHR '' ''" "c \<noteq> TAB"
  shows "config_parser_skip_spaces p = config_parser_read_char p" "at_text (config_parser_skip_spaces p) (c # t)"
proof -
  have r: "at_text (config_parser_read_char p) (c # t)" using assms(1) by (rule at_read)
  then have "config_parser_skip_spaces (config_parser_read_char p) = config_parser_read_char p"
    using assms(2,3) by (intro skip_spaces_none) (simp_all add: at_text_ch)
  then show "config_parser_skip_spaces p = config_parser_read_char p"
    using at_text_ch [OF assms(1)] by (simp add: config_parser_skip_spaces.simps [of p])
  with r show "at_text (config_parser_skip_spaces p) (c # t)" by simp
qed

lemma read_string_loop_reads:
  assumes "at_text p (w @ c # t)" "word_ok w" "c = CHR '' '' \<or> c = LF" "vstr_clean s" "alloc_total al"
    "length (vstr_str s) + length w \<le> VSTR_MAX_LARGE_SIZE"
  shows "\<exists>s' p'. config_parser_read_string_loop al p s = (s', p') \<and> at_text p' (c # t) \<and> vstr_clean s' \<and>
    vstr_str s' = vstr_str s @ w"
  using assms
proof (induction w arbitrary: p s)
  case Nil
  then have "p_ch p = c" by (simp add: at_text_ch)
  with Nil show ?case by (auto simp: config_parser_read_string_loop.simps [of al p s])
next
  case (Cons x w)
  have x: "p_ch p = x" "x \<noteq> CHR '' ''" "x \<noteq> LF" "x \<noteq> NUL" using Cons.prems(1,2) by (auto simp: at_text_ch word_ok_def)
  from vc.push_charE [of s al x] Cons.prems(4-6) obtain s1 where
    s1: "vstr_push_char al s x = (0, s1)" "vstr_clean s1" "vstr_str s1 = vstr_str s @ [x]" by auto
  have "at_text (config_parser_read_char p) (w @ c # t)" using Cons.prems(1) at_read by simp
  from Cons.IH [OF this _ Cons.prems(3) s1(2) Cons.prems(5)] Cons.prems(2,6) s1(3) x s1(1) show ?case
    by (auto simp: config_parser_read_string_loop.simps [of al p s] word_ok_def)
qed

lemma read_string_reads:
  assumes "at_text p (w @ c # t)" "word_ok w" "c = CHR '' '' \<or> c = LF" "alloc_total al"
  obtains s p' where "config_parser_read_string al p = (s, p')" "at_text p' (c # t)" "vstr_clean s" "vstr_str s = w"
  using read_string_loop_reads [OF assms(1-3) vstr_new_clean(1) assms(4)] assms(2)
  by (auto simp: config_parser_read_string_def word_ok_def)

lemma address_loop_reads:
  assumes "at_text p (w @ LF # t)" "\<forall>c \<in> set w. isdigit c \<or> c = CHR ''.''" "vstr_clean s" "vstr_tight s" "alloc_total al"
    "length (vstr_str s) + length w \<le> VSTR_MAX_LARGE_SIZE"
  shows "\<exists>s' p'. config_parser_address_loop al p s = (s', p') \<and> at_text p' (LF # t) \<and> vstr_clean s' \<and>
    vstr_tight s' \<and> vstr_str s' = vstr_str s @ w"
  using assms
proof (induction w arbitrary: p s)
  case Nil
  then have "p_ch p = LF" by (simp add: at_text_ch)
  with Nil show ?case by (auto simp: config_parser_address_loop.simps [of al p s])
next
  case (Cons x w)
  have x: "p_ch p = x" "isdigit x \<or> x = CHR ''.''" using Cons.prems(1,2) by (auto simp: at_text_ch)
  from vc.push_charE [of s al x] Cons.prems(3,5,6) obtain s1 where
    s1: "vstr_push_char al s x = (0, s1)" "vstr_clean s1" "vstr_str s1 = vstr_str s @ [x]" by auto
  have "vstr_tight s1" using push_char_tight [OF Cons.prems(3,4) s1(1,3)] .
  moreover have "at_text (config_parser_read_char p) (w @ LF # t)" using Cons.prems(1) at_read by simp
  ultimately show ?case using Cons.IH [of "config_parser_read_char p" s1] s1(2) Cons.prems(2,5,6) s1(3) x s1(1)
    by (auto simp: config_parser_address_loop.simps [of al p s])
qed

lemma number_loop_eq: "config_parser_number_loop p n = parse_len_loop p n"
  by (induction p n rule: parse_len_loop.induct)
    (subst parse_len_loop.simps, subst config_parser_number_loop.simps, auto simp: config_parser_moves)

lemma number_reads:
  assumes "at_text p (fmt_lu n @ LF # t)"
  obtains p' where "config_parser_number_loop p 0 = (of_nat n, p')" "at_text p' (LF # t)"
proof -
  have "\<not> isdigit LF" by (simp add: isdigit_def)
  from parse_len_loop_reads [OF assms fmt_lu_digits this, of 0] that show thesis
    by (auto simp: number_loop_eq dec_value_def [symmetric])
qed

lemma line_end:
  assumes "at_text p (LF # t)"
  shows "config_parser_skip_spaces p = p" "\<not> more_on_line p"
  using at_text_ch [OF assms] by (auto simp: more_on_line_def intro: skip_spaces_none)

lemma lookups_from_map:
  assumes "\<forall>(c, l, t) \<in> set ls. l = length c" "n \<le> length d"
  shows "lookups_from ls d n = map_of (map (\<lambda>(c, l, t). (c, t)) ls) (take n d)"
  using assms by (induction ls d n rule: lookups_from.induct) (auto simp: memcmp_eq_0)

lemma type_reads:
  assumes "at_text p (w @ CHR '' '' # t)" "map_of (map (\<lambda>(c, l, t). (c, t)) lookups) w = Some ty" "alloc_total al"
  obtains p' where "config_parser_parse_line_data_type al p = Inr (Ok ty, p')" "at_text p' (CHR '' '' # t)"
proof -
  have "w \<in> set (map fst (map (\<lambda>(c, l, t). (c, t)) lookups))" using assms(2) by (metis map_of_eq_None_iff option.simps(3) set_map)
  then have "word_ok w" by (auto simp: lookups_def word_ok_def VSTR_MAX_LARGE_SIZE_def)
  from read_string_reads [OF assms(1) this _ assms(3)] obtain s p' where
    s: "config_parser_read_string al p = (s, p')" "at_text p' (CHR '' '' # t)" "vstr_clean s" "vstr_str s = w" by auto
  have "vstr_len s \<le> length (vstr_data s)" using vstr_len_le_data [of s] s(3) by (simp add: vstr_clean_live vstr_live_wf)
  moreover have "\<forall>(c, l, t) \<in> set lookups. l = length c" by (simp add: lookups_def)
  ultimately have "lookups_from lookups (vstr_data s) (vstr_len s) = Some ty"
    using lookups_from_map [of lookups "vstr_len s" "vstr_data s"] assms(2) s(4) by (simp add: vstr_str_def)
  with s that show thesis by (simp add: config_parser_parse_line_data_type_def)
qed

lemma fmt_lu_first: "\<exists>c cs. fmt_lu n = c # cs \<and> isdigit c"
  using fmt_lu_digits [of n] by (cases "fmt_lu n") auto

lemma skip_space_word:
  assumes "at_text p (CHR '' '' # w @ LF # t)" "CHR '' '' \<notin> set w" "TAB \<notin> set w"
  shows "at_text (config_parser_skip_spaces p) (w @ LF # t)"
  using assms skip_one_space(2) [of p "hd (w @ [LF])" "tl (w @ [LF]) @ t"] by (cases w) auto

lemma skip_digits_space:
  assumes "at_text p (CHR '' '' # fmt_lu n @ LF # t)"
  shows "at_text (config_parser_skip_spaces p) (fmt_lu n @ LF # t)"
  using fmt_lu_digits [of n] by (intro skip_space_word [OF assms]) (auto simp: isdigit_def)

text \<open>One lemma per kind of line; all of them say that the line is read up to its end.\<close>

definition reads_line :: "allocator \<Rightarrow> cline \<Rightarrow> bool" where
  "reads_line al l \<longleftrightarrow> (\<forall>p t. at_text p (line_text l @ t) \<longrightarrow>
     (\<exists>d p'. config_parser_parse_line al p = Inr (Ok d, p') \<and> at_text p' (LF # t) \<and> abs_data d = l \<and> data_ok d))"

lemma reads_port:
  assumes "n \<le> 65535" "alloc_total al"
  shows "reads_line al (CL_port n)"
  unfolding reads_line_def
proof (intro allI impI)
  fix p t
  assume "at_text p (line_text (CL_port n) @ t)"
  then have "at_text p (''port'' @ CHR '' '' # fmt_lu n @ LF # t)" by simp
  from type_reads [OF this, of Port al] assms(2) obtain p1 where
    p1: "config_parser_parse_line_data_type al p = Inr (Ok Port, p1)" "at_text p1 (CHR '' '' # fmt_lu n @ LF # t)"
    by (auto simp: lookups_def)
  from number_reads [OF skip_digits_space [OF p1(2)]] obtain p3 where
    p3: "config_parser_number_loop (config_parser_skip_spaces p1) 0 = (of_nat n, p3)" "at_text p3 (LF # t)" .
  have u: "unat (of_nat n :: 64 word) = n" using assms(1) by (intro unat_of_nat_64) simp
  have "unat (ucast (of_nat n :: 64 word) :: 16 word) = n"
    using assms(1) by (simp add: unsigned_of_nat take_bit_nat_eq_self)
  with p1 p3 u line_end [OF p3(2)] assms(1)
  show "\<exists>d p'. config_parser_parse_line al p = Inr (Ok d, p') \<and> at_text p' (LF # t) \<and> abs_data d = CL_port n \<and> data_ok d"
    by (simp add: config_parser_parse_line_def config_parser_parse_port_def)
qed

lemma reads_databases:
  assumes "n < 2 ^ 64" "alloc_total al"
  shows "reads_line al (CL_databases n)"
  unfolding reads_line_def
proof (intro allI impI)
  fix p t
  assume "at_text p (line_text (CL_databases n) @ t)"
  then have "at_text p (''databases'' @ CHR '' '' # fmt_lu n @ LF # t)" by simp
  from type_reads [OF this, of Databases al] assms(2) obtain p1 where
    p1: "config_parser_parse_line_data_type al p = Inr (Ok Databases, p1)" "at_text p1 (CHR '' '' # fmt_lu n @ LF # t)"
    by (auto simp: lookups_def)
  from number_reads [OF skip_digits_space [OF p1(2)]] obtain p3 where
    p3: "config_parser_number_loop (config_parser_skip_spaces p1) 0 = (of_nat n, p3)" "at_text p3 (LF # t)" .
  with p1 line_end [OF p3(2)] unat_of_nat_64 [OF assms(1)]
  show "\<exists>d p'. config_parser_parse_line al p = Inr (Ok d, p') \<and> at_text p' (LF # t) \<and> abs_data d = CL_databases n \<and> data_ok d"
    by (simp add: config_parser_parse_line_def config_parser_parse_num_databases_def)
qed

lemma reads_address:
  assumes "line_ok (CL_address a)" "alloc_total al"
  shows "reads_line al (CL_address a)"
  unfolding reads_line_def
proof (intro allI impI)
  fix p t
  assume "at_text p (line_text (CL_address a) @ t)"
  then have "at_text p (''address'' @ CHR '' '' # a @ LF # t)" by simp
  from type_reads [OF this, of Address al] assms(2) obtain p1 where
    p1: "config_parser_parse_line_data_type al p = Inr (Ok Address, p1)" "at_text p1 (CHR '' '' # a @ LF # t)"
    by (auto simp: lookups_def)
  have ws: "CHR '' '' \<notin> set a" "TAB \<notin> set a" using assms(1) by (auto simp: isdigit_def)
  from address_loop_reads [OF skip_space_word [OF p1(2) ws] _ vstr_new_clean(1) vstr_tight_new assms(2)] assms(1) obtain s p3 where
    p3: "config_parser_address_loop al (config_parser_skip_spaces p1) vstr_new = (s, p3)" "at_text p3 (LF # t)"
      "vstr_clean s" "vstr_tight s" "vstr_str s = a" by auto
  with p1 line_end [OF p3(2)]
  show "\<exists>d p'. config_parser_parse_line al p = Inr (Ok d, p') \<and> at_text p' (LF # t) \<and> abs_data d = CL_address a \<and> data_ok d"
    by (simp add: config_parser_parse_line_def config_parser_parse_address_def)
qed

lemma reads_loglevel:
  assumes "word_ok a" "alloc_total al"
  shows "reads_line al (CL_loglevel a)"
  unfolding reads_line_def
proof (intro allI impI)
  fix p t
  assume "at_text p (line_text (CL_loglevel a) @ t)"
  then have "at_text p (''loglevel'' @ CHR '' '' # a @ LF # t)" by simp
  from type_reads [OF this, of LogLevel al] assms(2) obtain p1 where
    p1: "config_parser_parse_line_data_type al p = Inr (Ok LogLevel, p1)" "at_text p1 (CHR '' '' # a @ LF # t)"
    by (auto simp: lookups_def)
  have ws: "CHR '' '' \<notin> set a" "TAB \<notin> set a" using assms(1) by (auto simp: word_ok_def)
  from read_string_reads [OF skip_space_word [OF p1(2) ws] assms(1) _ assms(2)] obtain s p3 where
    p3: "config_parser_read_string al (config_parser_skip_spaces p1) = (s, p3)" "at_text p3 (LF # t)"
      "vstr_clean s" "vstr_str s = a" by auto
  with p1 line_end [OF p3(2)]
  show "\<exists>d p'. config_parser_parse_line al p = Inr (Ok d, p') \<and> at_text p' (LF # t) \<and> abs_data d = CL_loglevel a \<and> data_ok d"
    by (simp add: config_parser_parse_line_def config_parser_parse_log_level_def)
qed

lemma reads_user:
  assumes "word_ok nm" "nm \<noteq> []" "word_ok pw" "alloc_total al"
  shows "reads_line al (CL_user nm pw)"
  unfolding reads_line_def
proof (intro allI impI)
  fix p t
  assume "at_text p (line_text (CL_user nm pw) @ t)"
  then have "at_text p (''user'' @ CHR '' '' # nm @ CHR '' '' # CHR ''>'' # pw @ LF # t)" by simp
  from type_reads [OF this, of User al] assms(4) obtain p1 where
    p1: "config_parser_parse_line_data_type al p = Inr (Ok User, p1)"
      "at_text p1 (CHR '' '' # nm @ CHR '' '' # CHR ''>'' # pw @ LF # t)"
    by (auto simp: lookups_def)
  have "at_text (config_parser_skip_spaces p1) (nm @ CHR '' '' # CHR ''>'' # pw @ LF # t)"
    using p1(2) assms(1,2) skip_one_space(2) [of p1 "hd nm" "tl nm @ CHR '' '' # CHR ''>'' # pw @ LF # t"]
    by (cases nm) (auto simp: word_ok_def)
  from read_string_reads [OF this assms(1) _ assms(4)] obtain s p3 where
    p3: "config_parser_read_string al (config_parser_skip_spaces p1) = (s, p3)"
      "at_text p3 (CHR '' '' # CHR ''>'' # pw @ LF # t)" "vstr_clean s" "vstr_str s = nm" by auto
  have p4: "at_text (config_parser_skip_spaces p3) (CHR ''>'' # pw @ LF # t)" using skip_one_space(2) [OF p3(2)] by simp
  from read_string_reads [OF at_read [OF p4] assms(3) _ assms(4)] obtain s2 p5 where
    p5: "config_parser_read_string al (config_parser_read_char (config_parser_skip_spaces p3)) = (s2, p5)"
      "at_text p5 (LF # t)" "vstr_clean s2" "vstr_str s2 = pw" by auto
  let ?u = "\<lparr>user_name = s, user_password = vstr_new, user_flags = 0\<rparr>"
  have "config_parser_user_loop al p5 (?u\<lparr>user_password := s2\<rparr>) = Inr (Ok (?u\<lparr>user_password := s2\<rparr>), p5)"
    using line_end(2) [OF p5(2)] by (simp add: config_parser_user_loop.simps [of al p5])
  then have "config_parser_user_loop al (config_parser_skip_spaces p3) ?u = Inr (Ok (?u\<lparr>user_password := s2\<rparr>), p5)"
    using p4 p5(1) line_end(1) [OF p5(2)]
    by (simp add: config_parser_user_loop.simps [of al "config_parser_skip_spaces p3"] more_on_line_def at_text_ch)
  with p1 p3 p5
  show "\<exists>d p'. config_parser_parse_line al p = Inr (Ok d, p') \<and> at_text p' (LF # t) \<and> abs_data d = CL_user nm pw \<and> data_ok d"
    by (simp add: config_parser_parse_line_def config_parser_parse_user_def conf_user_ok_def)
qed

lemma parse_line_reads:
  assumes "line_ok l" "l \<noteq> CL_blank" "\<forall>t. l \<noteq> CL_comment t" "alloc_total al"
  shows "reads_line al l"
  using assms by (cases l) (auto intro: reads_port reads_databases reads_address reads_loglevel reads_user)

section \<open>The loop over the lines\<close>

text \<open>Lines start with a newline, a hash or a letter.\<close>

definition line_start :: "string \<Rightarrow> bool" where
  "line_start t \<longleftrightarrow> t = [] \<or> hd t \<notin> {CHR '' '', TAB, CR, NUL}"

lemma line_start_lines: "line_start (concat (map line_text ls))"
proof (cases ls)
  case (Cons l ls)
  then show ?thesis by (cases l) (simp_all add: line_start_def)
qed (simp add: line_start_def)

lemma skip_blank:
  assumes "at_text p (LF # t)" "line_start t"
  shows "config_parser_skip_empty_lines_and_comments p = config_parser_skip_empty_lines_and_comments (config_parser_read_char p)"
proof -
  let ?q = "config_parser_read_char p"
  have q: "at_text ?q t" using assms(1) by (rule at_read)
  then have ch: "p_ch ?q \<noteq> CHR '' ''" "p_ch ?q \<noteq> TAB" "p_ch ?q \<noteq> CR"
    using assms(2) by (auto simp: at_text_def line_start_def split: list.splits)
  have p: "p_ch p = LF" using at_text_ch [OF assms(1)] .
  have "config_parser_skip_empty_lines_and_comments p =
      config_parser_skip_empty_lines_and_comments (config_parser_skip_whitespace ?q)"
    using p by (simp add: config_parser_skip_empty_lines_and_comments.simps [of p] config_parser_skip_whitespace.simps [of p])
  also have "\<dots> = config_parser_skip_empty_lines_and_comments ?q"
    using ch by (cases "p_ch ?q = LF")
      (simp_all add: config_parser_skip_empty_lines_and_comments.simps [of ?q] config_parser_skip_whitespace.simps [of ?q])
  finally show ?thesis .
qed

lemma skip_comment_reads:
  assumes "at_text p (w @ LF # t)" "LF \<notin> set w" "NUL \<notin> set w"
  shows "at_text (config_parser_skip_comment p) (LF # t)"
  using assms
proof (induction w arbitrary: p)
  case Nil
  then show ?case using at_text_ch [of p LF t] by (simp add: config_parser_skip_comment.simps [of p])
next
  case (Cons x w)
  then have "p_ch p = x" "at_text (config_parser_read_char p) (w @ LF # t)" by (auto simp: at_text_ch intro: at_read)
  with Cons show ?case by (auto simp: config_parser_skip_comment.simps [of p])
qed

lemma loop_skips:
  assumes "config_parser_skip_empty_lines_and_comments p = config_parser_skip_empty_lines_and_comments q" "p_ch p \<noteq> NUL"
    and "p_ch q = NUL \<longrightarrow> config_parser_skip_empty_lines_and_comments q = q"
  shows "config_parser_parse_loop al p c = config_parser_parse_loop al q c"
  using assms by (cases "p_ch q = NUL")
    (simp_all add: config_parser_parse_loop.simps [of al p] config_parser_parse_loop.simps [of al q])

lemma skip_at_end: "p_ch q = NUL \<Longrightarrow> config_parser_skip_empty_lines_and_comments q = q"
  by (simp add: config_parser_skip_empty_lines_and_comments.simps [of q])

lemma loop_blank:
  assumes "at_text p (LF # t)" "line_start t"
  shows "config_parser_parse_loop al p c = config_parser_parse_loop al (config_parser_read_char p) c"
  using skip_blank [OF assms] at_text_ch [OF assms(1)] skip_at_end by (intro loop_skips) auto

lemma loop_comment:
  assumes "at_text p (CHR ''#'' # w @ LF # t)" "LF \<notin> set w" "NUL \<notin> set w"
  shows "config_parser_parse_loop al p c = config_parser_parse_loop al (config_parser_skip_comment p) c"
    "at_text (config_parser_skip_comment p) (LF # t)"
proof -
  show "at_text (config_parser_skip_comment p) (LF # t)"
    using assms skip_comment_reads [of p "CHR ''#'' # w" t] by simp
  show "config_parser_parse_loop al p c = config_parser_parse_loop al (config_parser_skip_comment p) c"
    using at_text_ch [OF assms(1)] skip_at_end
    by (intro loop_skips) (auto simp: config_parser_skip_empty_lines_and_comments.simps [of p])
qed

lemma loop_data:
  assumes "reads_line al l" "at_text p (line_text l @ t)" "l \<noteq> CL_blank" "\<forall>t. l \<noteq> CL_comment t"
    and "config_ok c" "alloc_total al" "line_start t"
  shows "case conf_line l (abs_config c) of
      Inl m \<Rightarrow> config_parser_parse_loop al p c = Inr (Err (vstr_from al m))
    | Inr a \<Rightarrow> \<exists>c' p'. config_parser_parse_loop al p c = config_parser_parse_loop al p' c' \<and> config_ok c' \<and>
        abs_config c' = a \<and> at_text p' t"
proof -
  from assms(1,2) obtain d p1 where
    d: "config_parser_parse_line al p = Inr (Ok d, p1)" "at_text p1 (LF # t)" "abs_data d = l" "data_ok d"
    unfolding reads_line_def by blast
  have "p_ch p \<noteq> NUL" "p_ch p \<noteq> CHR ''#''" "p_ch p \<noteq> LF" using assms(2-4) by (cases l; simp add: at_text_def)+
  then have "config_parser_skip_empty_lines_and_comments p = p" "p_ch p \<noteq> NUL"
    by (simp_all add: config_parser_skip_empty_lines_and_comments.simps [of p])
  then have loop: "config_parser_parse_loop al p c =
      (case config_add al d c of Err e \<Rightarrow> Inr (Err e) | Ok c \<Rightarrow> config_parser_parse_loop al p1 c)"
    using d(1) by (simp add: config_parser_parse_loop.simps [of al p])
  from config_add_spec [OF assms(5) d(4) assms(6)] show ?thesis
  proof (cases "conf_line l (abs_config c)")
    case (Inl m)
    with config_add_spec [OF assms(5) d(4) assms(6)] d(3) loop show ?thesis by simp
  next
    case (Inr a)
    with config_add_spec [OF assms(5) d(4) assms(6)] d(3) obtain c' where
      "config_add al d c = Ok c'" "config_ok c'" "abs_config c' = a" by auto
    with loop loop_blank [OF d(2) assms(7)] at_read [OF d(2)] Inr show ?thesis by auto
  qed
qed

lemma parse_loop_reads:
  assumes "\<forall>l \<in> set ls. line_ok l" "at_text p (concat (map line_text ls))" "config_ok c" "alloc_total al"
  shows "case conf_lines ls (abs_config c) of
      Inl m \<Rightarrow> config_parser_parse_loop al p c = Inr (Err (vstr_from al m))
    | Inr a \<Rightarrow> \<exists>c'. config_parser_parse_loop al p c = Inr (Ok c') \<and> config_ok c' \<and> abs_config c' = a"
  using assms(1-3)
proof (induction ls arbitrary: p c)
  case Nil
  then show ?case by (simp add: config_parser_parse_loop.simps [of al p] at_text_def)
next
  case (Cons l ls)
  let ?t = "concat (map line_text ls)"
  have start: "line_start ?t" by (rule line_start_lines)
  consider (blank) "l = CL_blank" | (comment) w where "l = CL_comment w" | (data) "l \<noteq> CL_blank" "\<forall>t. l \<noteq> CL_comment t" by blast
  then show ?case
  proof cases
    case blank
    with Cons.prems(2) have at: "at_text p (LF # ?t)" by simp
    from Cons.IH [OF _ at_read [OF at] Cons.prems(3)] Cons.prems(1) blank show ?thesis
      unfolding loop_blank [OF at start] by simp
  next
    case (comment w)
    with Cons.prems(1,2) have at: "at_text p (CHR ''#'' # w @ LF # ?t)" "LF \<notin> set w" "NUL \<notin> set w" by simp_all
    note c = loop_comment [OF at]
    from Cons.IH [OF _ at_read [OF c(2)] Cons.prems(3)] Cons.prems(1) comment show ?thesis
      unfolding c(1) loop_blank [OF c(2) start] by simp
  next
    case data
    with Cons.prems(1) have "reads_line al l" by (intro parse_line_reads) (simp_all add: assms(4))
    moreover have "at_text p (line_text l @ ?t)" using Cons.prems(2) by simp
    ultimately have step: "case conf_line l (abs_config c) of
      Inl m \<Rightarrow> config_parser_parse_loop al p c = Inr (Err (vstr_from al m))
    | Inr a \<Rightarrow> \<exists>c' p'. config_parser_parse_loop al p c = config_parser_parse_loop al p' c' \<and> config_ok c' \<and>
        abs_config c' = a \<and> at_text p' ?t"
      using data Cons.prems(3) assms(4) start by (rule loop_data)
    show ?thesis
    proof (cases "conf_line l (abs_config c)")
      case (Inl m)
      with step show ?thesis by simp
    next
      case (Inr a)
      with step obtain c' p' where n: "config_parser_parse_loop al p c = config_parser_parse_loop al p' c'"
        "config_ok c'" "abs_config c' = a" "at_text p' ?t" by auto
      with Cons.IH [of p' c'] Cons.prems(1) Inr show ?thesis unfolding n(1) by simp
    qed
  qed
qed

lemma parse_config_spec:
  assumes "\<forall>l \<in> set ls. line_ok l" "alloc_total al" "n \<le> length input" "take n input = concat (map line_text ls)"
  shows "case conf_lines ls empty_conf of
      Inl m \<Rightarrow> parse_config al input n = Inr (Err (vstr_from al m))
    | Inr a \<Rightarrow> \<exists>c. parse_config al input n = Inr (Ok c) \<and> config_ok c \<and> abs_config c = a"
proof -
  obtain us where us: "vec_new al user_zero sizeof_user = Some us"
    using vec_new_total [OF assms(2), of user_zero sizeof_user] by auto
  let ?c = "\<lparr>cf_port = 0, cf_databases = 0, cf_address = vstr_new, cf_users = us, cf_loglevel = vstr_new\<rparr>"
  have c: "config_ok ?c" "abs_config ?c = empty_conf"
    using vec_new_spec [OF us] by (simp_all add: config_ok_def abs_config_def empty_conf_def)
  have "at_text (config_parser_new input n) (concat (map line_text ls))"
    using at_text_buffer [OF assms(3)] assms(4) by (simp add: config_parser_moves)
  moreover have e: "parse_config al input n = config_parser_parse_loop al (config_parser_new input n) ?c"
    using us by (simp add: parse_config_def config_parser_parse_def config_new_def)
  ultimately show ?thesis
    using parse_loop_reads [OF assms(1) _ c(1) assms(2), of "config_parser_new input n"]
    unfolding e c(2) by simp
qed

section \<open>Properties\<close>

text \<open>
  C18. Configuration files are read right: for a file made of comments, empty lines and lines for the
  port, the databases, the address, the log level and users, \<^verbatim>\<open>parse_config\<close> returns the configuration that
  the lines describe (the users in the order of the file), or, when a setting other than a user occurs twice,
  the message that says which one; it ends on every such file.
\<close>

theorem parse_config_reads:
  assumes "\<forall>l \<in> set ls. line_ok l" "alloc_total al" "n \<le> length input" "take n input = concat (map line_text ls)"
  shows "case conf_lines ls empty_conf of
      Inl m \<Rightarrow> parse_config al input n = Inr (Err (vstr_from al m))
    | Inr a \<Rightarrow> \<exists>c. parse_config al input n = Inr (Ok c) \<and> config_ok c \<and> abs_config c = a"
  using assms by (rule parse_config_spec)

theorem parse_config_reads_witness:
  "\<exists>c. parse_config (\<lambda>_. 4096) (''# users'' @ [LF] @ ''user root >secret'' @ [LF, LF] @ ''address 127.0.0.1'' @ [LF]) 45 = Inr (Ok c) \<and>
    abs_config c = \<lparr>ac_port = 0, ac_databases = 0, ac_address = ''127.0.0.1'', ac_loglevel = [], ac_users = [(''root'', ''secret'')]\<rparr>"
  using parse_config_reads [of "[CL_comment '' users'', CL_user ''root'' ''secret'', CL_blank, CL_address ''127.0.0.1'']" "\<lambda>_. 4096"
      45 "''# users'' @ [LF] @ ''user root >secret'' @ [LF, LF] @ ''address 127.0.0.1'' @ [LF]"]
  by (auto simp: word_ok_def VSTR_MAX_LARGE_SIZE_def isdigit_def empty_conf_def)

end
