(* ===== verification/Commands.thy ===== *)
theory Commands
  imports Server
begin

text \<open>
  The commands of the server against an abstract specification: a database is a map, a set, a queue
  and a stack of values, a command is a step on it with a reply. The theory holds the requests as the
  client library encodes them, the specification, and the proof that \<^verbatim>\<open>execute_cmd\<close> refines it.
\<close>

section \<open>Requests\<close>

datatype acmd = APing | ASelect int | ASet avalue avalue | AGet avalue | ADel avalue | APush avalue | APop
  | AEnque avalue | ADeque | AZSet avalue | AZHas avalue | AZDel avalue

fun acmd_type :: "acmd \<Rightarrow> cmdt" where
  "acmd_type APing = Ping"
| "acmd_type (ASelect _) = Select"
| "acmd_type (ASet _ _) = Set"
| "acmd_type (AGet _) = Get"
| "acmd_type (ADel _) = Del"
| "acmd_type (APush _) = Push"
| "acmd_type APop = Pop"
| "acmd_type (AEnque _) = Enque"
| "acmd_type ADeque = Deque"
| "acmd_type (AZSet _) = ZSet"
| "acmd_type (AZHas _) = ZHas"
| "acmd_type (AZDel _) = ZDel"

fun acmd_word :: "acmd \<Rightarrow> string" where
  "acmd_word APing = ''PING''"
| "acmd_word (ASelect _) = ''SELECT''"
| "acmd_word (ASet _ _) = ''SET''"
| "acmd_word (AGet _) = ''GET''"
| "acmd_word (ADel _) = ''DEL''"
| "acmd_word (APush _) = ''PUSH''"
| "acmd_word APop = ''POP''"
| "acmd_word (AEnque _) = ''ENQUE''"
| "acmd_word ADeque = ''DEQUE''"
| "acmd_word (AZSet _) = ''ZSET''"
| "acmd_word (AZHas _) = ''ZHAS''"
| "acmd_word (AZDel _) = ''ZDEL''"

fun acmd_args :: "acmd \<Rightarrow> avalue list" where
  "acmd_args (ASelect z) = [VInt z]"
| "acmd_args (ASet k v) = [k, v]"
| "acmd_args (AGet k) = [k]"
| "acmd_args (ADel k) = [k]"
| "acmd_args (APush v) = [v]"
| "acmd_args (AEnque v) = [v]"
| "acmd_args (AZSet v) = [v]"
| "acmd_args (AZHas v) = [v]"
| "acmd_args (AZDel v) = [v]"
| "acmd_args _ = []"

text \<open>
  What the client library sends: PING as a line, another word alone as a string, or the array of the word
  and the arguments.
\<close>

definition request :: "fmt_double \<Rightarrow> acmd \<Rightarrow> string" where
  "request g a =
     (if a = APing then ''+PING'' @ CRLF
      else if acmd_args a = [] then enc g (VStr (acmd_word a)) else message g (acmd_word a) (acmd_args a))"

text \<open>A parsed command stands for the request: its type, and the values of its arguments.\<close>

definition stands_for :: "cmd \<Rightarrow> acmd \<Rightarrow> bool" where
  "stands_for c a \<longleftrightarrow> cmd_type c = acmd_type a \<and>
     (acmd_args a \<noteq> [] \<longrightarrow> obj_value (cmd_arg c) = hd (acmd_args a) \<and> parsed_ok (cmd_arg c)) \<and>
     (tl (acmd_args a) \<noteq> [] \<longrightarrow> obj_value (cmd_arg2 c) = hd (tl (acmd_args a)) \<and> parsed_ok (cmd_arg2 c))"

lemma lookup_acmd: "map_of (map (\<lambda>(c, l, t). (c, t)) lookup) (acmd_word a) = Some (acmd_type a)"
  by (cases a) (simp_all add: lookup_def)

lemma acmd_word_short: "length (acmd_word a) < VSTR_MAX_LARGE_SIZE"
  by (cases a) (simp_all add: VSTR_MAX_LARGE_SIZE_def)

lemma parse_word_request:
  assumes "n \<le> length buf" "take n buf = enc g (VStr (acmd_word a))" "alloc_total (e_al E)"
  shows "parse E buf n = Inr \<lparr>cmd_type = acmd_type a, cmd_data = No_data\<rparr>"
proof -
  have at: "at_text (parser_new buf n) (enc g (VStr (acmd_word a)) @ [])"
    using at_text_buffer [OF assms(1)] assms(2) by simp
  from parse_cmd_type_reads [OF at assms(3) acmd_word_short, of "n + 2"] obtain p where
    "parse_cmd_type E (n + 2) (parser_new buf n) = Inr (acmd_type a, p)" by (auto simp: lookup_acmd)
  moreover have "p_ch (parser_new buf n) = CHR ''$''" using at by (simp add: at_text_def)
  ultimately show ?thesis by (simp add: parse_def parse_cmd_def parse_bulk_string_cmd_def)
qed

text \<open>What \<^verbatim>\<open>parse_array_cmd\<close> does after it has read the word of a request with arguments.\<close>

definition parse_args :: "env \<Rightarrow> nat \<Rightarrow> 64 word \<Rightarrow> acmd \<Rightarrow> parser \<Rightarrow> cmd res" where
  "parse_args E n len a p = (case a of
     ASet _ _ \<Rightarrow> parse_two E n len p Set KV_data
   | AGet _ \<Rightarrow> parse_one E n len p Get K_data
   | ADel _ \<Rightarrow> parse_one E n len p Del K_data
   | ASelect _ \<Rightarrow>
       if len \<noteq> 2 then Inr cmd_zero
       else res_bind (parse_object E n p) (\<lambda>(value, p). case value of
         Int_o num \<Rightarrow> Inr \<lparr>cmd_type = Select, cmd_data = V_data value\<rparr> | _ \<Rightarrow> Inr cmd_zero)
   | _ \<Rightarrow> parse_one E n len p (acmd_type a) V_data)"

lemma parse_message_args:
  assumes "n \<le> length buf" "take n buf = message g (acmd_word a) (acmd_args a)" "alloc_total (e_al E)"
    "acmd_args a \<noteq> []"
  obtains p where "parse E buf n = parse_args E (n + 2) (of_nat (Suc (length (acmd_args a)))) a p"
    "at_text p (concat (map (enc g) (acmd_args a)))"
proof -
  have len: "length (acmd_args a) \<le> 2" by (cases a) simp_all
  then have "length (acmd_args a) + 1 < 2 ^ 64" by simp
  from parse_message_word [OF assms(1-3) this acmd_word_short] obtain q where
    q: "parse E buf n = parse_array_cmd E (n + 2) (parser_new buf n)"
      "parse_header (parser_new buf n) = (Some (of_nat (Suc (length (acmd_args a)))), q)"
      "at_text (parser_read_char q) (enc g (VStr (acmd_word a)) @ concat (map (enc g) (acmd_args a)))" .
  from parse_cmd_type_reads [OF q(3) assms(3) acmd_word_short, of "n + 2"] obtain p where
    p: "parse_cmd_type E (n + 2) (parser_read_char q) = Inr (acmd_type a, p)"
      "at_text p (concat (map (enc g) (acmd_args a)))" by (auto simp: lookup_acmd)
  have nz: "(of_nat (Suc (length (acmd_args a))) :: 64 word) \<noteq> 0" using len
    by (cases "acmd_args a"; cases "tl (acmd_args a)") auto
  show thesis
    by (rule that [OF _ p(2)]) (use q(1,2) p(1) nz assms(4) in \<open>cases a; simp add: parse_array_cmd_def parse_args_def\<close>)
qed

lemma concat_map_mem_length: "x \<in> set xs \<Longrightarrow> length (f x) \<le> length (concat (map f xs))"
  by (induction xs) auto

text \<open>The parser reads every request of the client library as the command it stands for.\<close>

lemma parse_request:
  assumes "n \<le> length buf" "take n buf = request g a" "alloc_total (e_al E)" "fmt_g_ok g"
    and "\<forall>v \<in> set (acmd_args a). wire E g v"
  shows "\<exists>c. parse E buf n = Inr c \<and> stands_for c a"
proof (cases "acmd_args a")
  case Nil
  show ?thesis
  proof (cases "a = APing")
    case True
    with assms(2) have "take n buf = CHR ''+'' # ''PING'' @ CRLF" by (simp add: request_def)
    from parse_simple_cmd_reads [OF assms(1) this assms(3), of Ping] True show ?thesis
      by (simp add: stands_for_def lookup_def VSTR_MAX_LARGE_SIZE_def)
  next
    case False
    with Nil assms parse_word_request [of n buf g a E] show ?thesis by (simp add: request_def stands_for_def)
  qed
next
  case (Cons v vs)
  then have m: "take n buf = message g (acmd_word a) (acmd_args a)" using assms(2) by (auto simp: request_def)
  from parse_message_args [OF assms(1) m assms(3)] Cons obtain p where
    p: "parse E buf n = parse_args E (n + 2) (of_nat (Suc (Suc (length vs)))) a p"
      "at_text p (enc g v @ concat (map (enc g) vs))" by auto
  have len: "length (message g (acmd_word a) (acmd_args a)) \<le> n" using m [symmetric] by simp
  have depth: "vdepth x < n + 2" if "x \<in> set (acmd_args a)" for x
    using len vdepth_enc [of x g] concat_map_mem_length [OF that, of "enc g"] by (simp add: message_def)
  have v: "wire E g v" "vdepth v < n + 2" using Cons assms(5) depth by simp_all
  have one: "\<exists>c. parse_one E (n + 2) 2 p (acmd_type a) data = Inr c \<and> stands_for c a"
    if "vs = []" "\<And>x. cmd_arg \<lparr>cmd_type = acmd_type a, cmd_data = data x\<rparr> = x" for data
  proof -
    from parse_one_reads [OF p(2) v assms(3,4), of "acmd_type a" data] obtain obj where
      "parse_one E (n + 2) 2 p (acmd_type a) data = Inr \<lparr>cmd_type = acmd_type a, cmd_data = data obj\<rparr>"
      "obj_value obj = v" "parsed_ok obj" .
    with that Cons show ?thesis by (simp add: stands_for_def)
  qed
  show ?thesis
  proof (cases a)
    case (ASelect z)
    from reads_valueE [OF parse_object_reads [OF v assms(3,4)] p(2)] obtain obj p' where
      o: "parse_object E (n + 2) p = Inr (obj, p')" "obj_value obj = v" "parsed_ok obj" .
    moreover from this obtain num where "obj = Int_o num" using ASelect Cons by (cases obj) auto
    ultimately show ?thesis
      using p(1) ASelect Cons
      by (simp add: parse_args_def stands_for_def cmd_arg_def del: parse_object.simps)
  next
    case (ASet k w)
    with Cons have *: "v = k" "vs = [w]" by simp_all
    have at2: "at_text p (enc g k @ enc g w @ [])" using p(2) * by simp
    have w: "wire E g w" "vdepth w < n + 2" using * Cons assms(5) depth by simp_all
    from parse_two_reads [OF at2 v [unfolded *] w assms(3,4), of Set KV_data] obtain ko vo where
      "parse_two E (n + 2) 3 p Set KV_data = Inr \<lparr>cmd_type = Set, cmd_data = KV_data ko vo\<rparr>"
      "obj_value ko = k" "parsed_ok ko" "obj_value vo = w" "parsed_ok vo" .
    with p(1) ASet * show ?thesis by (simp add: parse_args_def stands_for_def cmd_arg_def cmd_arg2_def)
  qed (use p(1) Cons one [of V_data] one [of K_data] in \<open>simp_all add: parse_args_def cmd_arg_def\<close>)
qed

section \<open>Keys and values\<close>

text \<open>
  The keys for which the tables are maps: integers of 32 bits, texts of at most 22 bytes without a
  zero byte. Each of them is one object.
\<close>

fun key_val :: "avalue \<Rightarrow> bool" where
  "key_val (VInt z) \<longleftrightarrow> - (2 ^ 31) \<le> z \<and> z < 2 ^ 31"
| "key_val (VStr t) \<longleftrightarrow> length t \<le> 22 \<and> NUL \<notin> set t"
| "key_val _ \<longleftrightarrow> False"

fun key_obj :: "avalue \<Rightarrow> object" where
  "key_obj (VInt z) = Int_o (of_int z)"
| "key_obj (VStr t) = String (Small (t @ replicate (23 - length t) NUL) (23 - length t))"
| "key_obj _ = Null"

lemma sint_of_int_64: "- (2 ^ 31) \<le> z \<Longrightarrow> z < 2 ^ 31 \<Longrightarrow> sint (of_int z :: 64 word) = z"
  by (simp add: signed_of_int signed_take_bit_int_eq_self)

lemma small_key_clean:
  assumes "length t \<le> 22"
  shows "vstr_clean (Small (t @ replicate (23 - length t) NUL) (23 - length t))"
    "vstr_str (Small (t @ replicate (23 - length t) NUL) (23 - length t)) = t"
  using assms by (simp_all add: vstr_clean_def vstr_str_def vstr_len_def vstr_data_def zero_tail_def)

lemma key_obj_good: "key_val k \<Longrightarrow> good_key (key_obj k)"
  using small_key_clean by (cases k) (simp_all add: sint_of_int_64)

lemma obj_value_key_obj: "key_val k \<Longrightarrow> obj_value (key_obj k) = k"
  using small_key_clean by (cases k) (simp_all add: sint_of_int_64)

lemma key_obj_inj: "key_val k \<Longrightarrow> key_val k' \<Longrightarrow> key_obj k = key_obj k' \<longleftrightarrow> k = k'"
  by (metis obj_value_key_obj)

lemma parsed_key:
  assumes "parsed_ok obj" "obj_value obj = k" "key_val k"
  shows "obj = key_obj k"
proof (cases obj)
  case (Int_o n)
  with assms show ?thesis by (auto intro: signed_word_eqI simp: sint_of_int_64)
next
  case (String s)
  then have s: "vstr_clean s" "vstr_str s = obj_text" "k = VStr obj_text" if "obj_text = vstr_str s" for obj_text
    using that assms by auto
  have "length (vstr_str s) \<le> 22" "vstr_len s = length (vstr_str s)"
    using assms String vstr_len_le_data [of s] by (auto simp: vstr_str_def vstr_clean_live vstr_live_wf)
  with assms String s [OF refl] small_key_clean [of "vstr_str s"] show ?thesis
    by (auto intro!: small_clean_eq)
qed (use assms in auto)

text \<open>The values that can be sent back.\<close>

fun send_val :: "avalue \<Rightarrow> bool" where
  "send_val (VArr vs) \<longleftrightarrow> vs \<noteq> [] \<and> length vs + 2 < 2 ^ 64 \<and> (\<forall>v \<in> set vs. send_val v)"
| "send_val (VHt _) \<longleftrightarrow> False"
| "send_val _ \<longleftrightarrow> True"

lemma parsed_sendable: "parsed_ok obj \<Longrightarrow> send_val (obj_value obj) \<Longrightarrow> sendable obj"
proof (induction obj rule: obj_value.induct)
  case (6 v)
  then show ?case by auto
qed (auto simp: vstr_clean_live)

section \<open>The specification\<close>

record adb =
  a_map :: "avalue \<rightharpoonup> avalue"
  a_set :: "avalue set"
  a_queue :: "avalue list"
  a_stack :: "avalue list"

datatype areply = R_ok | R_pong | R_none | R_err string | R_val avalue

fun reply_text :: "fmt_double \<Rightarrow> areply \<Rightarrow> string" where
  "reply_text g R_ok = ''+OK'' @ CRLF"
| "reply_text g R_pong = ''+PONG'' @ CRLF"
| "reply_text g R_none = ''+NONE'' @ CRLF"
| "reply_text g (R_err t) = ''-'' @ t @ CRLF"
| "reply_text g (R_val v) = enc g v"

text \<open>A command on the selected database, and the choice of another one among \<^term>\<open>num\<close>.\<close>

fun spec_cmd :: "acmd \<Rightarrow> adb \<Rightarrow> areply \<times> adb" where
  "spec_cmd APing d = (R_pong, d)"
| "spec_cmd (ASelect z) d = (R_ok, d)"
| "spec_cmd (ASet k v) d = (R_ok, d\<lparr>a_map := (a_map d)(k \<mapsto> v)\<rparr>)"
| "spec_cmd (AGet k) d = (case a_map d k of None \<Rightarrow> R_none | Some v \<Rightarrow> R_val v, d)"
| "spec_cmd (ADel k) d =
     (if a_map d k = None then (R_err ''EINVKEY'', d) else (R_ok, d\<lparr>a_map := (a_map d)(k := None)\<rparr>))"
| "spec_cmd (APush v) d = (R_ok, d\<lparr>a_stack := a_stack d @ [v]\<rparr>)"
| "spec_cmd APop d =
     (if a_stack d = [] then (R_none, d) else (R_val (last (a_stack d)), d\<lparr>a_stack := butlast (a_stack d)\<rparr>))"
| "spec_cmd (AEnque v) d = (R_ok, d\<lparr>a_queue := a_queue d @ [v]\<rparr>)"
| "spec_cmd ADeque d =
     (if a_queue d = [] then (R_none, d) else (R_val (hd (a_queue d)), d\<lparr>a_queue := tl (a_queue d)\<rparr>))"
| "spec_cmd (AZSet k) d = (R_ok, d\<lparr>a_set := insert k (a_set d)\<rparr>)"
| "spec_cmd (AZHas k) d = (if k \<in> a_set d then R_val (VInt 1) else R_none, d)"
| "spec_cmd (AZDel k) d =
     (if k \<in> a_set d then (R_ok, d\<lparr>a_set := a_set d - {k}\<rparr>) else (R_err ''EINVKEY'', d))"

text \<open>The arguments for which the specification holds.\<close>

fun acmd_ok :: "acmd \<Rightarrow> bool" where
  "acmd_ok (ASet k v) \<longleftrightarrow> key_val k \<and> send_val v"
| "acmd_ok (AGet k) \<longleftrightarrow> key_val k"
| "acmd_ok (ADel k) \<longleftrightarrow> key_val k"
| "acmd_ok (APush v) \<longleftrightarrow> send_val v"
| "acmd_ok (AEnque v) \<longleftrightarrow> send_val v"
| "acmd_ok (AZSet k) \<longleftrightarrow> key_val k"
| "acmd_ok (AZHas k) \<longleftrightarrow> key_val k"
| "acmd_ok (AZDel k) \<longleftrightarrow> key_val k"
| "acmd_ok _ \<longleftrightarrow> True"

section \<open>Abstraction of a database\<close>

definition abs_db :: "lexidb \<Rightarrow> adb" where
  "abs_db d =
     \<lparr>a_map = (\<lambda>k. if key_val k then map_option obj_value (ht_map (db_dict d) (key_obj k)) else None),
      a_set = {k. key_val k \<and> key_obj k \<in> set_contents (db_set d)},
      a_queue = map obj_value (queue_list (db_queue d)),
      a_stack = map obj_value (vec_list (db_vec d))\<rparr>"

definition db_ok :: "'a senv \<Rightarrow> lexidb \<Rightarrow> bool" where
  "db_ok S d \<longleftrightarrow>
     ht_wf (se_keys S) True good_key (db_dict d) \<and> (\<forall>v \<in> ran (ht_map (db_dict d)). sendable v) \<and>
     set_wf (se_keys S) True sizeof_object good_key (db_set d) \<and>
     queue_wf (db_queue d) \<and> (\<forall>x \<in> set (queue_list (db_queue d)). sendable x) \<and>
     vec_wf (db_vec d) \<and> (\<forall>x \<in> set (vec_list (db_vec d)). sendable x)"

lemma abs_dict:
  assumes "key_val k" "ht_map h = (ht_map (db_dict d))(key_obj k := x)"
  shows "abs_db (d\<lparr>db_dict := h\<rparr>) = (abs_db d)\<lparr>a_map := (a_map (abs_db d))(k := map_option obj_value x)\<rparr>"
  using assms key_obj_inj by (auto simp: abs_db_def fun_eq_iff)

lemma abs_set_insert:
  assumes "key_val k" "set_contents st = insert (key_obj k) (set_contents (db_set d))"
  shows "abs_db (d\<lparr>db_set := st\<rparr>) = (abs_db d)\<lparr>a_set := insert k (a_set (abs_db d))\<rparr>"
  using assms key_obj_inj by (auto simp: abs_db_def)

lemma abs_set_remove:
  assumes "key_val k" "set_contents st = set_contents (db_set d) - {key_obj k}"
  shows "abs_db (d\<lparr>db_set := st\<rparr>) = (abs_db d)\<lparr>a_set := a_set (abs_db d) - {k}\<rparr>"
  using assms key_obj_inj by (auto simp: abs_db_def)

lemma abs_queue: "abs_db (d\<lparr>db_queue := q\<rparr>) = (abs_db d)\<lparr>a_queue := map obj_value (queue_list q)\<rparr>"
  by (simp add: abs_db_def cong: if_cong)

lemma abs_stack: "abs_db (d\<lparr>db_vec := v\<rparr>) = (abs_db d)\<lparr>a_stack := map obj_value (vec_list v)\<rparr>"
  by (simp add: abs_db_def cong: if_cong)

lemmas abs_simps = abs_dict abs_set_insert abs_set_remove abs_queue abs_stack

lemma abs_views:
  "key_val k \<Longrightarrow> a_map (abs_db d) k = map_option obj_value (ht_map (db_dict d) (key_obj k))"
  "key_val k \<Longrightarrow> k \<in> a_set (abs_db d) \<longleftrightarrow> key_obj k \<in> set_contents (db_set d)"
  "a_queue (abs_db d) = map obj_value (queue_list (db_queue d))"
  "a_stack (abs_db d) = map obj_value (vec_list (db_vec d))"
  by (simp_all add: abs_db_def)

section \<open>One command\<close>

text \<open>
  A run of a command on database \<^term>\<open>n\<close> that replies with the text \<^term>\<open>t\<close> and leaves the database as
  \<^term>\<open>a'\<close>: nothing else of the server and of the connection changes but the counter and the reply.
\<close>

definition served :: "'a senv \<Rightarrow> 'a server \<Rightarrow> client \<Rightarrow> nat \<Rightarrow> string \<Rightarrow> adb \<Rightarrow> ('a server \<times> client) res \<Rightarrow> bool" where
  "served S s c n t a' res \<longleftrightarrow>
     (\<exists>d b k. res = Inr (s\<lparr>sv_db := (sv_db s)[n := d], cmd_executed := k\<rparr>, c\<lparr>cl_builder := b\<rparr>) \<and>
        vstr_live b \<and> vstr_str b = vstr_str (cl_builder c) @ t \<and> db_ok S d \<and> abs_db d = a')"

definition has_room :: "client \<Rightarrow> string \<Rightarrow> bool" where
  "has_room c t \<longleftrightarrow> vstr_live (cl_builder c) \<and> length (vstr_str (cl_builder c)) + length t \<le> VSTR_MAX_LARGE_SIZE"

lemma answer_adds:
  assumes "adds f t" "has_room c t"
  obtains b where "answer f s c = Inr (s, c\<lparr>cl_builder := b\<rparr>)" "vstr_live b"
    "vstr_str b = vstr_str (cl_builder c) @ t"
proof -
  from assms(2) have r: "vstr_live (cl_builder c)" "length (vstr_str (cl_builder c)) + length t \<le> VSTR_MAX_LARGE_SIZE"
    by (simp_all add: has_room_def)
  from addsE [OF assms(1) r] obtain b where "f (cl_builder c) = Inr (0, b)" "vstr_live b"
    "vstr_str b = vstr_str (cl_builder c) @ t" .
  with that show thesis by (simp add: answer_def reply_def)
qed

lemma served_answer:
  assumes "adds f t" "has_room c t" "db_ok S d" "abs_db d = a'"
  shows "served S s c n t a' (answer f (db_put s n d) c)"
    "served S s c n t a' (answer f (counted (db_put s n d)) c)"
proof -
  have "served S s c n t a' (answer f (s\<lparr>sv_db := (sv_db s)[n := d], cmd_executed := k\<rparr>) c)" for k
    using answer_adds [OF assms(1,2), of "s\<lparr>sv_db := (sv_db s)[n := d], cmd_executed := k\<rparr>"] assms(3,4)
    unfolding served_def by metis
  from this [of "cmd_executed s"] this [of "cmd_executed s + 1"] show
    "served S s c n t a' (answer f (db_put s n d) c)"
    "served S s c n t a' (answer f (counted (db_put s n d)) c)"
    by (simp_all add: db_put_def counted_def)
qed

lemma db_put_self: "db_put s n (sv_db s ! n) = s"
  by (simp add: db_put_def)

lemma served_read:
  assumes "adds f t" "has_room c t" "db_ok S (sv_db s ! n)"
  shows "served S s c n t (abs_db (sv_db s ! n)) (answer f s c)"
    "served S s c n t (abs_db (sv_db s ! n)) (answer f (counted s) c)"
  using served_answer [OF assms refl, of s n] by (simp_all add: db_put_self)

lemma adds_add_obj:
  assumes "sendable obj" "alloc_total (se_al S)" "fmt_g_ok (se_fmt_g S)"
  shows "adds (add_obj S obj) (enc (se_fmt_g S) (obj_value obj))"
  unfolding add_obj_def using assms by (intro builder_add_object_adds) simp_all

lemma adds_add_err:
  "alloc_total (se_al S) \<Longrightarrow> err_len e = length (err_str e) \<Longrightarrow> adds (add_err S e) (''-'' @ err_str e @ CRLF)"
  unfolding add_err_def by (intro adds_err) simp_all

text \<open>The hypotheses of all commands.\<close>

definition ready :: "'a senv \<Rightarrow> 'a server \<Rightarrow> client \<Rightarrow> bool" where
  "ready S s c \<longleftrightarrow> alloc_total (se_al S) \<and> fmt_g_ok (se_fmt_g S) \<and> database_num c < length (sv_db s) \<and>
     db_ok S (sv_db s ! database_num c)"

lemma readyE:
  assumes "ready S s c"
  obtains d where "d = sv_db s ! database_num c" "db_at s (database_num c) = Inr d" "db_ok S d"
    "alloc_total (se_al S)" "fmt_g_ok (se_fmt_g S)"
  using assms by (auto simp: ready_def db_at_def)

lemma served_set:
  assumes "ready S s c" "key_val k" "sendable vo" "has_room c (''+OK'' @ CRLF)"
    and "cmd_type cmd = Set" "cmd_arg cmd = key_obj k" "cmd_arg2 cmd = vo" "A = abs_db (sv_db s ! database_num c)"
  shows "served S s c (database_num c) (''+OK'' @ CRLF) (A\<lparr>a_map := (a_map A)(k \<mapsto> obj_value vo)\<rparr>) (run_cmd S s c cmd)"
proof -
  from readyE [OF assms(1)] obtain d where d: "d = sv_db s ! database_num c" "db_at s (database_num c) = Inr d"
    "db_ok S d" and al: "alloc_total (se_al S)" .
  from d(3) have wf: "ht_wf (se_keys S) True good_key (db_dict d)" by (simp add: db_ok_def)
  from ok.insert_law [OF wf key_obj_good [OF assms(2)] al, of True True vo] obtain f h where
    h: "ht_insert (se_keys S) (se_al S) True True (db_dict d) (key_obj k) vo = Inr (HT_OK, f, h)"
      "ht_wf (se_keys S) True good_key h" "ht_map h = (ht_map (db_dict d))(key_obj k \<mapsto> vo)" by blast
  have "ran (ht_map h) \<subseteq> insert vo (ran (ht_map (db_dict d)))" unfolding h(3) by (auto simp: ran_def)
  with d(3) h(2) assms(3) have ok: "db_ok S (d\<lparr>db_dict := h\<rparr>)" by (auto simp: db_ok_def)
  have a: "abs_db (d\<lparr>db_dict := h\<rparr>) = A\<lparr>a_map := (a_map A)(k \<mapsto> obj_value vo)\<rparr>"
    using abs_dict [OF assms(2) h(3)] assms(8) d(1) by simp
  show ?thesis
    using served_answer(2) [OF adds_simple(1) [OF al] assms(4) ok a, of s "database_num c"] h(1) d(2) assms(5-7)
    by (simp add: run_cmd_def execute_set_command_def Let_def)
qed

lemma served_get:
  assumes "ready S s c" "key_val k" "g = se_fmt_g S" "A = abs_db (sv_db s ! database_num c)"
    and "has_room c (reply_text g (case a_map A k of None \<Rightarrow> R_none | Some v \<Rightarrow> R_val v))"
    and "cmd_type cmd = Get" "cmd_arg cmd = key_obj k"
  shows "served S s c (database_num c) (reply_text g (case a_map A k of None \<Rightarrow> R_none | Some v \<Rightarrow> R_val v)) A
    (run_cmd S s c cmd)"
proof -
  from readyE [OF assms(1)] obtain d where d: "d = sv_db s ! database_num c" "db_at s (database_num c) = Inr d"
    "db_ok S d" and al: "alloc_total (se_al S)" "fmt_g_ok (se_fmt_g S)" .
  from d(3) have wf: "ht_wf (se_keys S) True good_key (db_dict d)" by (simp add: db_ok_def)
  note get = ok.get_law [OF wf key_obj_good [OF assms(2)]]
  have A: "a_map A k = map_option obj_value (ht_map (db_dict d) (key_obj k))"
    using assms(2,4) d(1) by (simp add: abs_views)
  show ?thesis
  proof (cases "ht_map (db_dict d) (key_obj k)")
    case None
    with served_read(1) [OF adds_simple(4) [OF al(1)], of c S s "database_num c"] d get assms A show ?thesis
      by (simp add: run_cmd_def execute_get_command_def)
  next
    case (Some obj)
    then have "sendable obj" using d(3) by (auto simp: db_ok_def intro: ranI)
    with Some served_read(2) [OF adds_add_obj [OF _ al], of obj c S s "database_num c"] d get assms A show ?thesis
      by (simp add: run_cmd_def execute_get_command_def)
  qed
qed

lemma served_del:
  assumes "ready S s c" "key_val k" "A = abs_db (sv_db s ! database_num c)"
    and "has_room c (reply_text g (fst (spec_cmd (ADel k) A)))"
    and "cmd_type cmd = Del" "cmd_arg cmd = key_obj k"
  shows "served S s c (database_num c) (reply_text g (fst (spec_cmd (ADel k) A))) (snd (spec_cmd (ADel k) A))
    (run_cmd S s c cmd)"
proof -
  from readyE [OF assms(1)] obtain d where d: "d = sv_db s ! database_num c" "db_at s (database_num c) = Inr d"
    "db_ok S d" and al: "alloc_total (se_al S)" "fmt_g_ok (se_fmt_g S)" .
  from d(3) have wf: "ht_wf (se_keys S) True good_key (db_dict d)" by (simp add: db_ok_def)
  have A: "a_map A k = map_option obj_value (ht_map (db_dict d) (key_obj k))"
    using assms(2,3) d(1) by (simp add: abs_views)
  show ?thesis
  proof (cases "key_obj k \<in> dom (ht_map (db_dict d))")
    case True
    from ok.delete_law [OF wf key_obj_good [OF assms(2)] True, of True True] obtain f h where
      h: "ht_delete (se_keys S) True True (db_dict d) (key_obj k) = (HT_OK, f, h)"
        "ht_wf (se_keys S) True good_key h" "ht_map h = (ht_map (db_dict d))(key_obj k := None)" by blast
    have "ran (ht_map h) \<subseteq> ran (ht_map (db_dict d))" unfolding h(3) by (auto simp: ran_def split: if_splits)
    with d(3) h(2) have ok: "db_ok S (d\<lparr>db_dict := h\<rparr>)" by (auto simp: db_ok_def)
    have a: "abs_db (d\<lparr>db_dict := h\<rparr>) = A\<lparr>a_map := (a_map A)(k := None)\<rparr>"
      using abs_dict [OF assms(2) h(3)] assms(3) d(1) by simp
    from served_answer(2) [OF adds_simple(1) [OF al(1)] _ ok a, of c s "database_num c"] h(1) d(2) assms(4-6) True A
    show ?thesis by (auto simp: run_cmd_def execute_del_command_def Let_def)
  next
    case False
    from ok.delete_miss [OF wf key_obj_good [OF assms(2)] False, of True True] obtain f where
      "ht_delete (se_keys S) True True (db_dict d) (key_obj k) = (HT_INV_KEY, f, db_dict d)" by blast
    with served_read(1) [OF adds_add_err [OF al(1), of err_invalid_key], of c S s "database_num c"] d assms False A
    show ?thesis
      by (auto simp: run_cmd_def execute_del_command_def Let_def db_put_self err_invalid_key_def domIff)
  qed
qed

lemma served_push:
  assumes "ready S s c" "sendable vo" "A = abs_db (sv_db s ! database_num c)" "has_room c (''+OK'' @ CRLF)"
    and "cmd_type cmd = Push" "cmd_arg cmd = vo"
  shows "served S s c (database_num c) (''+OK'' @ CRLF) (A\<lparr>a_stack := a_stack A @ [obj_value vo]\<rparr>) (run_cmd S s c cmd)"
proof -
  from readyE [OF assms(1)] obtain d where d: "d = sv_db s ! database_num c" "db_at s (database_num c) = Inr d"
    "db_ok S d" and al: "alloc_total (se_al S)" .
  from d(3) have "vec_wf (db_vec d)" by (simp add: db_ok_def)
  from vst.push_law [OF this al, of Null vo] obtain v where
    v: "vec_push (se_al S) Null (db_vec d) vo = (0, v)" "vec_wf v" "vec_list v = vec_list (db_vec d) @ [vo]" by blast
  have ok: "db_ok S (d\<lparr>db_vec := v\<rparr>)" using d(3) v assms(2) by (auto simp: db_ok_def)
  have a: "abs_db (d\<lparr>db_vec := v\<rparr>) = A\<lparr>a_stack := a_stack A @ [obj_value vo]\<rparr>"
    using v(3) assms(3) d(1) by (simp add: abs_stack abs_views)
  from served_answer(2) [OF adds_simple(1) [OF al] assms(4) ok a, of s "database_num c"] v(1) d(2) assms(5,6)
  show ?thesis by (simp add: run_cmd_def execute_push_command_def Let_def)
qed

lemma served_pop:
  assumes "ready S s c" "A = abs_db (sv_db s ! database_num c)" "g = se_fmt_g S"
    and "has_room c (reply_text g (fst (spec_cmd APop A)))" "cmd_type cmd = Pop"
  shows "served S s c (database_num c) (reply_text g (fst (spec_cmd APop A))) (snd (spec_cmd APop A)) (run_cmd S s c cmd)"
proof -
  from readyE [OF assms(1)] obtain d where d: "d = sv_db s ! database_num c" "db_at s (database_num c) = Inr d"
    "db_ok S d" and al: "alloc_total (se_al S)" "fmt_g_ok (se_fmt_g S)" .
  from d(3) have wf: "vec_wf (db_vec d)" by (simp add: db_ok_def)
  have A: "a_stack A = map obj_value (vec_list (db_vec d))" using assms(2) d(1) by (simp add: abs_views)
  show ?thesis
  proof (cases "vec_list (db_vec d) = []")
    case True
    with vst.pop_empty [OF wf True] served_read(1) [OF adds_simple(4) [OF al(1)], of c S s "database_num c"] d assms A
    show ?thesis by (simp add: run_cmd_def execute_pop_command_def Let_def db_put_self)
  next
    case False
    from vst.pop_law [OF wf False] obtain v where
      v: "vec_pop (db_vec d) = ((0, Some (last (vec_list (db_vec d)))), v)" "vec_wf v"
        "vec_list v = butlast (vec_list (db_vec d))" by blast
    have ok: "db_ok S (d\<lparr>db_vec := v\<rparr>)" and snd: "sendable (last (vec_list (db_vec d)))"
      using d(3) v False by (auto simp: db_ok_def dest: in_set_butlastD)
    have a: "abs_db (d\<lparr>db_vec := v\<rparr>) = A\<lparr>a_stack := butlast (a_stack A)\<rparr>"
      using v(3) assms(2) d(1) A by (simp add: abs_stack map_butlast)
    from served_answer(2) [OF adds_add_obj [OF snd al] _ ok a, of c s "database_num c"] v(1) d(2) assms(3-5) False A
    show ?thesis by (simp add: run_cmd_def execute_pop_command_def Let_def last_map)
  qed
qed

lemma served_enque:
  assumes "ready S s c" "sendable vo" "A = abs_db (sv_db s ! database_num c)" "has_room c (''+OK'' @ CRLF)"
    and "cmd_type cmd = Enque" "cmd_arg cmd = vo" "alloc_fresh (se_al S) (db_queue (sv_db s ! database_num c))"
  shows "served S s c (database_num c) (''+OK'' @ CRLF) (A\<lparr>a_queue := a_queue A @ [obj_value vo]\<rparr>) (run_cmd S s c cmd)"
proof -
  from readyE [OF assms(1)] obtain d where d: "d = sv_db s ! database_num c" "db_at s (database_num c) = Inr d"
    "db_ok S d" and al: "alloc_total (se_al S)" .
  from d(3) have "queue_wf (db_queue d)" by (simp add: db_ok_def)
  from qf.enque_law [OF this al, of vo] assms(7) d(1) obtain q where
    q: "queue_enque (se_al S) (db_queue d) vo = Inr (0, q)" "queue_wf q" "queue_list q = queue_list (db_queue d) @ [vo]"
    by blast
  have ok: "db_ok S (d\<lparr>db_queue := q\<rparr>)" using d(3) q assms(2) by (auto simp: db_ok_def)
  have a: "abs_db (d\<lparr>db_queue := q\<rparr>) = A\<lparr>a_queue := a_queue A @ [obj_value vo]\<rparr>"
    using q(3) assms(3) d(1) by (simp add: abs_queue abs_views)
  from served_answer(2) [OF adds_simple(1) [OF al] assms(4) ok a, of s "database_num c"] q(1) d(2) assms(5,6)
  show ?thesis by (simp add: run_cmd_def execute_enque_command_def Let_def)
qed

lemma served_deque:
  assumes "ready S s c" "A = abs_db (sv_db s ! database_num c)" "g = se_fmt_g S"
    and "has_room c (reply_text g (fst (spec_cmd ADeque A)))" "cmd_type cmd = Deque"
  shows "served S s c (database_num c) (reply_text g (fst (spec_cmd ADeque A))) (snd (spec_cmd ADeque A)) (run_cmd S s c cmd)"
proof -
  from readyE [OF assms(1)] obtain d where d: "d = sv_db s ! database_num c" "db_at s (database_num c) = Inr d"
    "db_ok S d" and al: "alloc_total (se_al S)" "fmt_g_ok (se_fmt_g S)" .
  from d(3) have wf: "queue_wf (db_queue d)" by (simp add: db_ok_def)
  have A: "a_queue A = map obj_value (queue_list (db_queue d))" using assms(2) d(1) by (simp add: abs_views)
  show ?thesis
  proof (cases "queue_list (db_queue d)")
    case Nil
    with qf.deque_none [OF wf Nil] served_read(1) [OF adds_simple(4) [OF al(1)], of c S s "database_num c"] d assms A
    show ?thesis by (simp add: run_cmd_def execute_deque_command_def Let_def db_put_self)
  next
    case (Cons x xs)
    from qf.deque_law [OF wf Cons] obtain q where
      q: "queue_deque (db_queue d) = Inr ((0, Some x), q)" "queue_wf q" "queue_list q = xs" by blast
    have ok: "db_ok S (d\<lparr>db_queue := q\<rparr>)" and snd: "sendable x"
      using d(3) q Cons by (auto simp: db_ok_def)
    have a: "abs_db (d\<lparr>db_queue := q\<rparr>) = A\<lparr>a_queue := tl (a_queue A)\<rparr>"
      using q(3) assms(2) d(1) A Cons by (simp add: abs_queue)
    from served_answer(2) [OF adds_add_obj [OF snd al] _ ok a, of c s "database_num c"] q(1) d(2) assms(3-5) Cons A
    show ?thesis by (simp add: run_cmd_def execute_deque_command_def Let_def)
  qed
qed

lemma served_zset:
  assumes "ready S s c" "key_val k" "A = abs_db (sv_db s ! database_num c)" "has_room c (''+OK'' @ CRLF)"
    and "cmd_type cmd = ZSet" "cmd_arg cmd = key_obj k"
  shows "served S s c (database_num c) (''+OK'' @ CRLF) (A\<lparr>a_set := insert k (a_set A)\<rparr>) (run_cmd S s c cmd)"
proof -
  from readyE [OF assms(1)] obtain d where d: "d = sv_db s ! database_num c" "db_at s (database_num c) = Inr d"
    "db_ok S d" and al: "alloc_total (se_al S)" .
  from d(3) have wf: "set_wf (se_keys S) True sizeof_object good_key (db_set d)" by (simp add: db_ok_def)
  obtain r f st where st: "set_insert (se_keys S) (se_al S) True (db_set d) (key_obj k) = (r, f, st)"
    by (cases "set_insert (se_keys S) (se_al S) True (db_set d) (key_obj k)")
  from os.insert_law [OF wf key_obj_good [OF assms(2)] st] os.insert_total [OF wf al, of True "key_obj k"] st
  have r: "r \<noteq> SET_OOM" and ins: "set_wf (se_keys S) True sizeof_object good_key st"
    "set_contents st = insert (key_obj k) (set_contents (db_set d))" by auto
  have ok: "db_ok S (d\<lparr>db_set := st\<rparr>)" using d(3) ins(1) by (simp add: db_ok_def)
  have a: "abs_db (d\<lparr>db_set := st\<rparr>) = A\<lparr>a_set := insert k (a_set A)\<rparr>"
    using abs_set_insert [OF assms(2) ins(2)] assms(3) d(1) by simp
  from served_answer(2) [OF adds_simple(1) [OF al] assms(4) ok a, of s "database_num c"] st r d(2) assms(5,6)
  show ?thesis by (simp add: run_cmd_def execute_zset_command_def Let_def)
qed

lemma served_zhas:
  assumes "ready S s c" "key_val k" "A = abs_db (sv_db s ! database_num c)"
    and "has_room c (reply_text g (fst (spec_cmd (AZHas k) A)))" "cmd_type cmd = ZHas" "cmd_arg cmd = key_obj k"
  shows "served S s c (database_num c) (reply_text g (fst (spec_cmd (AZHas k) A))) A (run_cmd S s c cmd)"
proof -
  from readyE [OF assms(1)] obtain d where d: "d = sv_db s ! database_num c" "db_at s (database_num c) = Inr d"
    "db_ok S d" and al: "alloc_total (se_al S)" .
  from d(3) have wf: "set_wf (se_keys S) True sizeof_object good_key (db_set d)" by (simp add: db_ok_def)
  have A: "k \<in> a_set A \<longleftrightarrow> key_obj k \<in> set_contents (db_set d)" using assms(2,3) d(1) by (simp add: abs_views)
  have one: "adds (builder_add_int (se_al S) 1) (enc g (VInt 1))" using adds_int [OF al, of 1] by simp
  from served_read(1) [OF adds_simple(4) [OF al], of c S s "database_num c"]
    served_read(2) [OF one, of c S s "database_num c"] os.has_law [OF wf key_obj_good [OF assms(2)]] A d assms
  show ?thesis
    by (cases "k \<in> a_set A") (simp_all add: run_cmd_def execute_zhas_command_def)
qed

lemma served_zdel:
  assumes "ready S s c" "key_val k" "A = abs_db (sv_db s ! database_num c)"
    and "has_room c (reply_text g (fst (spec_cmd (AZDel k) A)))" "cmd_type cmd = ZDel" "cmd_arg cmd = key_obj k"
  shows "served S s c (database_num c) (reply_text g (fst (spec_cmd (AZDel k) A))) (snd (spec_cmd (AZDel k) A)) (run_cmd S s c cmd)"
proof -
  from readyE [OF assms(1)] obtain d where d: "d = sv_db s ! database_num c" "db_at s (database_num c) = Inr d"
    "db_ok S d" and al: "alloc_total (se_al S)" .
  from d(3) have wf: "set_wf (se_keys S) True sizeof_object good_key (db_set d)" by (simp add: db_ok_def)
  have A: "k \<in> a_set A \<longleftrightarrow> key_obj k \<in> set_contents (db_set d)" using assms(2,3) d(1) by (simp add: abs_views)
  obtain r f st where st: "set_delete (se_keys S) True (db_set d) (key_obj k) = (r, f, st)"
    by (cases "set_delete (se_keys S) True (db_set d) (key_obj k)")
  from os.delete_law [OF wf key_obj_good [OF assms(2)] st] have
    r: "r = (if k \<in> a_set A then SET_OK else SET_INV_KEY)"
    and del: "set_wf (se_keys S) True sizeof_object good_key st" "set_contents st = set_contents (db_set d) - {key_obj k}"
    using A by auto
  have ok: "db_ok S (d\<lparr>db_set := st\<rparr>)" using d(3) del(1) by (simp add: db_ok_def)
  have a: "abs_db (d\<lparr>db_set := st\<rparr>) = A\<lparr>a_set := a_set A - {k}\<rparr>"
    using abs_set_remove [OF assms(2) del(2)] assms(3) d(1) by simp
  have same: "A\<lparr>a_set := a_set A - {k}\<rparr> = A" if "k \<notin> a_set A" using that by simp
  from served_answer(2) [OF adds_simple(1) [OF al] _ ok a, of c s "database_num c"]
    served_answer(1) [OF adds_add_err [OF al, of err_invalid_key] _ ok a, of c s "database_num c"]
    st r d(2) assms(4-6) same
  show ?thesis
    by (cases "k \<in> a_set A") (simp_all add: run_cmd_def execute_zdel_command_def Let_def err_invalid_key_def)
qed

text \<open>All commands on the selected database.\<close>

lemma served_cmd:
  assumes "ready S s c" "stands_for cmd a" "acmd_ok a" "\<And>z. a \<noteq> ASelect z" "g = se_fmt_g S"
    and "A = abs_db (sv_db s ! database_num c)" "has_room c (reply_text g (fst (spec_cmd a A)))"
    and "alloc_fresh (se_al S) (db_queue (sv_db s ! database_num c))"
  shows "served S s c (database_num c) (reply_text g (fst (spec_cmd a A))) (snd (spec_cmd a A)) (run_cmd S s c cmd)"
proof -
  have key: "cmd_arg cmd = key_obj k" if "acmd_args a = k # vs" "key_val k" for k vs
    using assms(2) that by (intro parsed_key) (simp_all add: stands_for_def)
  have val: "obj_value (cmd_arg cmd) = v \<and> sendable (cmd_arg cmd)" if "acmd_args a = [v]" "send_val v" for v
    using assms(2) that by (auto simp: stands_for_def intro: parsed_sendable)
  have ty: "cmd_type cmd = acmd_type a" using assms(2) by (simp add: stands_for_def)
  show ?thesis
  proof (cases a)
    case APing
    from assms(1) have "db_ok S (sv_db s ! database_num c)" "alloc_total (se_al S)" by (simp_all add: ready_def)
    with APing ty served_read(2) [OF adds_simple(3), of "se_al S" c S s "database_num c"] assms(6,7) show ?thesis
      by (simp add: run_cmd_def Let_def)
  next
    case (ASet k v)
    have v: "obj_value (cmd_arg2 cmd) = v" "sendable (cmd_arg2 cmd)"
      using assms(2,3) ASet by (auto simp: stands_for_def intro: parsed_sendable)
    with ASet key ty served_set [OF assms(1) _ v(2) _ _ _ refl assms(6)] assms(3,7) show ?thesis by simp
  next
    case (AGet k)
    with key ty served_get [OF assms(1) _ assms(5,6)] assms(3,7) show ?thesis by simp
  next
    case (ADel k)
    with key ty served_del [OF assms(1) _ assms(6), of k g cmd] assms(3,7) show ?thesis by simp
  next
    case (APush v)
    with val ty served_push [OF assms(1) _ assms(6) _ _ refl, of cmd] assms(3,7) show ?thesis by auto
  next
    case APop
    with ty served_pop [OF assms(1,6,5)] assms(7) show ?thesis by simp
  next
    case (AEnque v)
    with val ty served_enque [OF assms(1) _ assms(6) _ _ refl assms(8), of cmd] assms(3,7) show ?thesis by auto
  next
    case ADeque
    with ty served_deque [OF assms(1,6,5)] assms(7) show ?thesis by simp
  next
    case (AZSet k)
    with key ty served_zset [OF assms(1) _ assms(6)] assms(3,7) show ?thesis by simp
  next
    case (AZHas k)
    with key ty served_zhas [OF assms(1) _ assms(6), of k g cmd] assms(3,7) show ?thesis by simp
  next
    case (AZDel k)
    with key ty served_zdel [OF assms(1) _ assms(6), of k g cmd] assms(3,7) show ?thesis by simp
  next
    case (ASelect z)
    with assms(4) show ?thesis by blast
  qed
qed

section \<open>The server and its connection\<close>

text \<open>The abstract server: its databases, and the one that the connection has selected.\<close>

record aserver =
  as_dbs :: "adb list"
  as_sel :: nat

definition spec_server :: "acmd \<Rightarrow> aserver \<Rightarrow> areply \<times> aserver" where
  "spec_server a st = (case a of
     ASelect z \<Rightarrow>
       if 0 \<le> z \<and> nat z < length (as_dbs st) then (R_ok, st\<lparr>as_sel := nat z\<rparr>) else (R_err ''EDBRANGE'', st)
   | _ \<Rightarrow> (let (r, d) = spec_cmd a (as_dbs st ! as_sel st) in (r, st\<lparr>as_dbs := (as_dbs st)[as_sel st := d]\<rparr>)))"

definition abs_state :: "'a server \<Rightarrow> client \<Rightarrow> aserver" where
  "abs_state s c = \<lparr>as_dbs = map abs_db (sv_db s), as_sel = database_num c\<rparr>"

text \<open>
  The server and a connection that has authenticated, in order. The bound on the number of databases
  holds for every array that fits into memory.
\<close>

definition session_ok :: "'a senv \<Rightarrow> 'a server \<Rightarrow> client \<Rightarrow> bool" where
  "session_ok S s c \<longleftrightarrow>
     length (sv_db s) = num_databases s \<and> num_databases s \<le> 2 ^ 63 \<and> database_num c < num_databases s \<and>
     (\<forall>d \<in> set (sv_db s). db_ok S d) \<and> cl_flags c AND AUTHENTICATED \<noteq> 0 \<and> vstr_live (cl_builder c)"

definition env_ok :: "'a senv \<Rightarrow> bool" where
  "env_ok S \<longleftrightarrow> alloc_total (se_al S) \<and> fmt_g_ok (se_fmt_g S)"

lemma execute_cmd_runs:
  assumes "env_ok S" "cl_flags c AND AUTHENTICATED \<noteq> 0" "read_pos c \<le> length (read_buf c)"
    and "take (read_pos c) (read_buf c) = request (se_fmt_g S) a"
    and "\<forall>v \<in> set (acmd_args a). wire (se_env S) (se_fmt_g S) v"
  obtains cmd where "execute_cmd S s c = run_cmd S s c cmd" "stands_for cmd a"
proof -
  from parse_request [OF assms(3,4) _ _ assms(5)] assms(1) obtain cmd where
    "parse (se_env S) (read_buf c) (read_pos c) = Inr cmd" "stands_for cmd a" by (auto simp: env_ok_def)
  moreover from this(2) have "cmd_type cmd \<noteq> Illegal" by (cases a) (simp_all add: stands_for_def)
  ultimately show thesis using assms(2) that by (simp add: execute_cmd_def)
qed

text \<open>A signed number compared as an unsigned one: the negative numbers are too large.\<close>

lemma unat_signed:
  fixes w :: "64 word"
  shows "int (unat w) = (if 0 \<le> sint w then sint w else sint w + 2 ^ 64)"
proof -
  have u: "int (unat w) = sint w mod 2 ^ 64" by (simp add: uint_sint take_bit_eq_mod)
  have b: "sint w < 2 ^ 63" "- (2 ^ 63) \<le> sint w" using sint_lt [of w] sint_ge [of w] by simp_all
  show ?thesis
  proof (cases "0 \<le> sint w")
    case True
    then have "sint w mod 2 ^ 64 = sint w" using b(1) by (intro mod_pos_pos_trivial) simp_all
    with True u show ?thesis by simp
  next
    case False
    have "(sint w + 2 ^ 64) mod 2 ^ 64 = sint w + 2 ^ 64" using b False by (intro mod_pos_pos_trivial) simp_all
    with False u show ?thesis by simp
  qed
qed

lemma unat_signed_less:
  fixes w :: "64 word"
  assumes "n \<le> 2 ^ 63"
  shows "unat w < n \<longleftrightarrow> 0 \<le> sint w \<and> nat (sint w) < n" "0 \<le> sint w \<Longrightarrow> unat w = nat (sint w)"
proof -
  obtain k z where k: "k = unat w" "z = sint w" by blast
  have "int k = (if 0 \<le> z then z else z + 2 ^ 64)" "- (2 ^ 63) \<le> z"
    using unat_signed [of w] sint_ge [of w] unfolding k by simp_all
  with assms have "k < n \<longleftrightarrow> 0 \<le> z \<and> nat z < n" "0 \<le> z \<Longrightarrow> k = nat z" by (auto split: if_splits)
  then show "unat w < n \<longleftrightarrow> 0 \<le> sint w \<and> nat (sint w) < n" "0 \<le> sint w \<Longrightarrow> unat w = nat (sint w)"
    unfolding k by simp_all
qed

lemma select_refines:
  assumes "session_ok S s c" "env_ok S" "stands_for cmd (ASelect z)"
    and "(r, st) = spec_server (ASelect z) (abs_state s c)" "has_room c (reply_text g r)"
  shows "\<exists>c'. run_cmd S s c cmd = Inr (s, c') \<and> session_ok S s c' \<and> abs_state s c' = st \<and>
    vstr_str (cl_builder c') = vstr_str (cl_builder c) @ reply_text g r"
proof -
  from assms(3) obtain num where num: "cmd_arg cmd = Int_o num" "sint num = z" "cmd_type cmd = Select"
    by (cases "cmd_arg cmd") (auto simp: stands_for_def)
  from assms(1) have n: "num_databases s \<le> 2 ^ 63" "length (sv_db s) = num_databases s"
    by (simp_all add: session_ok_def)
  have al: "alloc_total (se_al S)" using assms(2) by (simp add: env_ok_def)
  show ?thesis
  proof (cases "unat num < num_databases s")
    case True
    then have z: "0 \<le> z" "nat z < num_databases s" "unat num = nat z"
      using unat_signed_less [OF n(1), of num] num(2) by auto
    then have rs: "r = R_ok" "st = (abs_state s c)\<lparr>as_sel := nat z\<rparr>"
      using assms(4) n(2) by (simp_all add: spec_server_def abs_state_def)
    have room: "has_room (c\<lparr>database_num := nat z\<rparr>) (''+OK'' @ CRLF)" using assms(5) rs(1) by (simp add: has_room_def)
    from answer_adds [OF adds_simple(1) [OF al] room, of s] obtain b where
      "answer (builder_add_ok (se_al S)) s (c\<lparr>database_num := nat z\<rparr>) =
         Inr (s, c\<lparr>database_num := nat z, cl_builder := b\<rparr>)" "vstr_live b"
      "vstr_str b = vstr_str (cl_builder c) @ ''+OK'' @ CRLF" by auto
    with num True z rs assms(1) show ?thesis by (auto simp: run_cmd_def session_ok_def abs_state_def)
  next
    case False
    then have "\<not> (0 \<le> z \<and> nat z < num_databases s)" using unat_signed_less [OF n(1), of num] num(2) by auto
    then have rs: "r = R_err ''EDBRANGE''" "st = abs_state s c"
      using assms(4) n(2) by (auto simp: spec_server_def abs_state_def split: if_splits)
    have room: "has_room c (''-'' @ err_str err_dbrange @ CRLF)"
      using assms(5) rs(1) by (simp add: err_dbrange_def)
    have "err_len err_dbrange = length (err_str err_dbrange)" by (simp add: err_dbrange_def)
    from answer_adds [OF adds_add_err [OF al this] room, of s] obtain b where
      "answer (add_err S err_dbrange) s c = Inr (s, c\<lparr>cl_builder := b\<rparr>)" "vstr_live b"
      "vstr_str b = vstr_str (cl_builder c) @ ''-'' @ err_str err_dbrange @ CRLF" by auto
    with num False rs assms(1) show ?thesis
      by (auto simp: run_cmd_def session_ok_def abs_state_def err_dbrange_def)
  qed
qed

lemma served_refines:
  assumes "session_ok S s c" "served S s c (database_num c) t A' res"
  shows "\<exists>s' c'. res = Inr (s', c') \<and> session_ok S s' c' \<and>
    abs_state s' c' = (abs_state s c)\<lparr>as_dbs := (as_dbs (abs_state s c))[database_num c := A']\<rparr> \<and>
    vstr_str (cl_builder c') = vstr_str (cl_builder c) @ t"
  using assms by (auto simp: served_def session_ok_def abs_state_def map_update
      dest!: set_update_subset_insert [THEN subsetD])

lemma execute_cmd_spec:
  assumes "session_ok S s c" "env_ok S" "read_pos c \<le> length (read_buf c)"
    and "take (read_pos c) (read_buf c) = request (se_fmt_g S) a" "acmd_ok a"
    and "\<forall>v \<in> set (acmd_args a). wire (se_env S) (se_fmt_g S) v"
    and "alloc_fresh (se_al S) (db_queue (sv_db s ! database_num c))"
    and "(r, st) = spec_server a (abs_state s c)" "has_room c (reply_text (se_fmt_g S) r)"
  shows "\<exists>s' c'. execute_cmd S s c = Inr (s', c') \<and> session_ok S s' c' \<and> abs_state s' c' = st \<and>
    vstr_str (cl_builder c') = vstr_str (cl_builder c) @ reply_text (se_fmt_g S) r"
proof -
  from assms(1) have auth: "cl_flags c AND AUTHENTICATED \<noteq> 0" and n: "database_num c < length (sv_db s)"
    by (simp_all add: session_ok_def)
  from execute_cmd_runs [OF assms(2) auth assms(3,4,6)] obtain cmd where
    cmd: "execute_cmd S s c = run_cmd S s c cmd" "stands_for cmd a" by blast
  show ?thesis
  proof (cases "\<exists>z. a = ASelect z")
    case True
    then obtain z where z: "a = ASelect z" by blast
    from select_refines [OF assms(1,2) cmd(2) [unfolded z] assms(8) [unfolded z] assms(9)] cmd(1) show ?thesis by auto
  next
    case False
    have ready: "ready S s c" using assms(1,2) n by (simp add: ready_def session_ok_def env_ok_def)
    let ?A = "abs_db (sv_db s ! database_num c)"
    have A: "as_dbs (abs_state s c) ! as_sel (abs_state s c) = ?A" "as_sel (abs_state s c) = database_num c"
      using n by (simp_all add: abs_state_def)
    have "spec_server a (abs_state s c) = (fst (spec_cmd a ?A),
        (abs_state s c)\<lparr>as_dbs := (as_dbs (abs_state s c))[database_num c := snd (spec_cmd a ?A)]\<rparr>)"
      using False A by (cases a) (simp_all add: spec_server_def split_beta Let_def)
    with assms(8) have rs: "r = fst (spec_cmd a ?A)"
      "st = (abs_state s c)\<lparr>as_dbs := (as_dbs (abs_state s c))[database_num c := snd (spec_cmd a ?A)]\<rparr>" by simp_all
    from served_refines [OF assms(1) served_cmd [OF ready cmd(2) assms(5) _ refl refl _ assms(7)]] False assms(9) rs cmd(1)
    show ?thesis by auto
  qed
qed

section \<open>Sessions\<close>

text \<open>
  A connection that sends requests one after the other and reads each reply before the next request.
  Every request is served with an allocator of its own, since what is free changes.
\<close>

definition deliver :: "fmt_double \<Rightarrow> acmd \<Rightarrow> client \<Rightarrow> client" where
  "deliver g a c = c\<lparr>cl_builder := builder_reset (cl_builder c), read_buf := request g a,
     read_pos := length (request g a)\<rparr>"

inductive session :: "'a senv \<Rightarrow> 'a server \<Rightarrow> client \<Rightarrow> acmd list \<Rightarrow> string list \<Rightarrow> 'a server \<Rightarrow> client \<Rightarrow> bool"
  for S where
  session_nil: "session S s c [] [] s c"
| session_cons: "alloc_total al \<Longrightarrow> alloc_fresh al (db_queue (sv_db s ! database_num c)) \<Longrightarrow>
    execute_cmd (with_al al S) s (deliver (se_fmt_g S) a c) = Inr (s1, c1) \<Longrightarrow>
    session S s1 c1 as ts s' c' \<Longrightarrow> session S s c (a # as) (vstr_str (cl_builder c1) # ts) s' c'"

inductive_cases session_NilE: "session S s c [] ts s' c'"
inductive_cases session_ConsE: "session S s c (a # as) ts s' c'"

fun spec_run :: "acmd list \<Rightarrow> aserver \<Rightarrow> areply list \<times> aserver" where
  "spec_run [] st = ([], st)"
| "spec_run (a # as) st =
     (let (r, st1) = spec_server a st; (rs, st2) = spec_run as st1 in (r # rs, st2))"

lemma wire_al [simp]: "wire (E\<lparr>e_al := al\<rparr>) g v = wire E g v"
  by (induction v rule: wire.induct [where ?a0.0 = E and ?a1.0 = g]) auto

lemma with_al_simps [simp]:
  "se_al (with_al al S) = al" "se_fmt_g (with_al al S) = se_fmt_g S" "se_cmp (with_al al S) = se_cmp S"
  "db_ok (with_al al S) = db_ok S" "session_ok (with_al al S) = session_ok S"
  "wire (se_env (with_al al S)) g v = wire (se_env S) g v"
  by (simp_all add: with_al_def db_ok_def session_ok_def fun_eq_iff)

lemma deliver_simps [simp]:
  "abs_state s (deliver g a c) = abs_state s c" "database_num (deliver g a c) = database_num c"
  "vstr_str (cl_builder (deliver g a c)) = []" "vstr_live (cl_builder (deliver g a c))"
  "read_pos (deliver g a c) = length (request g a)" "read_buf (deliver g a c) = request g a"
  by (auto simp: deliver_def abs_state_def builder_reset_def)

lemma session_ok_deliver: "session_ok S s c \<Longrightarrow> session_ok S s (deliver g a c)"
  by (simp add: session_ok_def deliver_def builder_reset_def)

text \<open>A request that is delivered to a session in order is answered as the specification says.\<close>

lemma session_step:
  assumes "session_ok S s c" "fmt_g_ok (se_fmt_g S)" "acmd_ok a" "\<forall>v \<in> set (acmd_args a). wire (se_env S) (se_fmt_g S) v"
    and "alloc_total al" "alloc_fresh al (db_queue (sv_db s ! database_num c))"
    and "(r, st) = spec_server a (abs_state s c)" "length (reply_text (se_fmt_g S) r) \<le> VSTR_MAX_LARGE_SIZE"
  shows "\<exists>s' c'. execute_cmd (with_al al S) s (deliver (se_fmt_g S) a c) = Inr (s', c') \<and> session_ok S s' c' \<and>
    abs_state s' c' = st \<and> vstr_str (cl_builder c') = reply_text (se_fmt_g S) r"
  using execute_cmd_spec [of "with_al al S" s "deliver (se_fmt_g S) a c" a r st] assms session_ok_deliver [OF assms(1)]
  by (simp add: env_ok_def has_room_def)

lemma session_spec:
  assumes "session S s c as ts s' c'" "session_ok S s c" "fmt_g_ok (se_fmt_g S)"
    and "\<forall>a \<in> set as. acmd_ok a \<and> (\<forall>v \<in> set (acmd_args a). wire (se_env S) (se_fmt_g S) v)"
    and "\<forall>r \<in> set (fst (spec_run as (abs_state s c))). length (reply_text (se_fmt_g S) r) \<le> VSTR_MAX_LARGE_SIZE"
  shows "ts = map (reply_text (se_fmt_g S)) (fst (spec_run as (abs_state s c))) \<and> session_ok S s' c' \<and>
    abs_state s' c' = snd (spec_run as (abs_state s c))"
  using assms
proof (induction rule: session.induct)
  case (session_nil s c)
  then show ?case by simp
next
  case (session_cons al s c a s1 c1 as ts s' c')
  obtain r st where st: "(r, st) = spec_server a (abs_state s c)" by (metis prod.exhaust)
  from session_cons.prems(4) st [symmetric] have "length (reply_text (se_fmt_g S) r) \<le> VSTR_MAX_LARGE_SIZE"
    by (auto simp: split_beta Let_def)
  from session_step [OF session_cons.prems(1,2) _ _ session_cons.hyps(1,2) st this] session_cons.prems(3)
    session_cons.hyps(3) have 1: "session_ok S s1 c1" "abs_state s1 c1 = st"
    "vstr_str (cl_builder c1) = reply_text (se_fmt_g S) r" by auto
  from session_cons.prems(4) st [symmetric]
  have "\<forall>r \<in> set (fst (spec_run as (abs_state s1 c1))). length (reply_text (se_fmt_g S) r) \<le> VSTR_MAX_LARGE_SIZE"
    by (auto simp: 1(2) split_beta Let_def)
  with session_cons.IH [OF 1(1) session_cons.prems(2)] session_cons.prems(3) 1(2,3) st [symmetric] show ?case
    by (auto simp: split_beta Let_def)
qed

section \<open>New databases\<close>

definition empty_db :: adb where
  "empty_db = \<lparr>a_map = Map.empty, a_set = {}, a_queue = [], a_stack = []\<rparr>"

lemma lexidb_one_ok:
  assumes "lexidb_one al rnd = Inr d"
  shows "db_ok S d" "abs_db d = empty_db"
proof -
  from assms obtain h v st where
    h: "ht_new al rnd sizeof_object True = Inr h" and v: "vec_new al Null sizeof_object = Some v"
    and st: "set_new al rnd sizeof_object True = Inr st"
    and d: "d = \<lparr>db_dict = h, db_set = st, db_queue = queue_new sizeof_object, db_vec = v\<rparr>"
    by (auto simp: lexidb_one_def res_bind_Inr split: option.splits)
  have "vec_wf v" "vec_list v = []" using v by (auto simp: vec_new_def vec_wf_def vec_list_def Let_def split: if_splits)
  moreover have "queue_wf (queue_new 64 :: object queue)" "queue_list (queue_new 64 :: object queue) = []"
    using queue_new_rep by (auto simp: queue_wf_def queue_new_def queue_list_def)
  ultimately show "db_ok S d" "abs_db d = empty_db"
    using ht_new_spec [OF h] set_new_spec [OF st] by (auto simp: d db_ok_def abs_db_def empty_db_def)
qed

lemma lexidb_one_queue: "lexidb_one al rnd = Inr d \<Longrightarrow> db_queue d = queue_new sizeof_object"
  by (auto simp: lexidb_one_def res_bind_Inr split: option.splits)

lemma repeat_n_list:
  assumes "repeat_n n (\<lambda>xs. res_bind f (\<lambda>x. Inr (xs @ [x]))) ys = Inr zs"
  shows "length zs = length ys + n \<and> (\<forall>x \<in> set zs. x \<in> set ys \<or> f = Inr x)"
  using assms by (induction n arbitrary: ys) (fastforce simp: res_bind_Inr)+

lemma lexidb_new_ok:
  assumes "lexidb_new al rnd n = Inr ds"
  shows "length ds = n" "\<forall>d \<in> set ds. db_ok S d \<and> abs_db d = empty_db"
  using assms repeat_n_list [of n "lexidb_one al rnd" "[]" ds] lexidb_one_ok [of al rnd]
  by (auto simp: lexidb_new_def split: if_splits)

lemma repeat_n_total:
  assumes "f = Inr x"
  shows "\<exists>zs. repeat_n n (\<lambda>xs. res_bind f (\<lambda>x. Inr (xs @ [x]))) ys = Inr zs"
  using assms by (induction n arbitrary: ys) simp_all

lemma lexidb_new_total: "alloc_total al \<Longrightarrow> \<exists>ds. lexidb_new al rnd n = Inr ds"
  using repeat_n_total [of "lexidb_one al rnd"]
  by (simp add: lexidb_new_def lexidb_one_def ht_new_def set_new_def vec_new_def Let_def)

section \<open>A session to try the theorems on\<close>

definition ex_env :: "select_api senv" where
  "ex_env = \<lparr>se_env = \<lparr>e_al = (\<lambda>_. 4096), e_random = replicate 16 NUL, e_cmp = 64, e_strtod = (\<lambda>_. 0),
       e_strtold = (\<lambda>_. 0)\<rparr>,
     se_cmp = 64, se_fmt_g = (\<lambda>_. ''1''), se_now = 0,
     se_ctx = \<lparr>ctx_data = replicate 64 NUL, ctx_datalen = 0, ctx_bitlen = 0, ctx_state = []\<rparr>,
     se_api = select_ops, se_self = 4096\<rparr>"

definition ex_server :: "lexidb list \<Rightarrow> user vec \<Rightarrow> select_api server" where
  "ex_server ds us =
     \<lparr>sv_pid = 1, sv_sfd = 3, sv_log_level = Info, sv_flags = 0, sv_port = 6969, sv_executable_path = [NUL], sv_os_name = vstr_new,
      sv_addr = vstr_new, sv_conf_file_path = vstr_new, num_databases = length ds, sv_db = ds,
      sv_ev = \<lparr>ev_max_fd = - 1, ev_num_fds = 10, ev_events = replicate 10 no_event,
        ev_api = \<lparr>sel_rfds = {}, sel_wfds = {}\<rparr>\<rparr>,
      sv_clients = Vec 4096 0 2 8 [0, 0], sv_mem = Map.empty, sv_users = us, cmd_executed = 0, sv_start_time = 0\<rparr>"

definition ex_client :: "16 word \<Rightarrow> client" where
  "ex_client flags =
     \<lparr>cl_fd = 5, cl_addr = 0, cl_port = 0, cl_flags = flags, read_buf = [], read_pos = 0, read_cap = 4096,
      write_buf = [], write_size = 0, database_num = 0, cl_builder = builder_new, cl_user = user_zero,
      time_connected = 0\<rparr>"

definition ex_users :: "user vec" where
  "ex_users = Vec 4096 0 2 sizeof_user [user_zero, user_zero]"

lemma ex_session:
  obtains ds where "lexidb_new (\<lambda>_. 4096) (replicate 16 NUL) 16 = Inr ds"
    "session_ok ex_env (ex_server ds ex_users) (ex_client 1)" "env_ok ex_env"
    "alloc_fresh (\<lambda>_. 4096) (db_queue (sv_db (ex_server ds ex_users) ! 0))"
    "as_dbs (abs_state (ex_server ds ex_users) (ex_client 1)) ! 0 = empty_db"
proof -
  obtain ds where ds: "lexidb_new (\<lambda>_. 4096) (replicate 16 NUL) 16 = Inr ds"
    using lexidb_new_total [of "\<lambda>_. 4096"] by auto
  note ok = lexidb_new_ok(1) [OF ds] lexidb_new_ok(2) [OF ds, of ex_env]
  then have d0: "ds ! 0 \<in> set ds" by simp
  then have "lexidb_one (\<lambda>_. 4096) (replicate 16 NUL) = Inr (ds ! 0)"
    using ds repeat_n_list [of 16 "lexidb_one (\<lambda>_. 4096) (replicate 16 NUL)" "[]" ds]
    by (auto simp: lexidb_new_def)
  then have "db_queue (ds ! 0) = queue_new sizeof_object" by (rule lexidb_one_queue)
  then have "alloc_fresh (\<lambda>_. 4096) (db_queue (ds ! 0))" by (simp add: alloc_fresh_def queue_new_def)
  with ds ok d0 show thesis
    by (intro that [of ds])
      (auto simp: session_ok_def env_ok_def ex_server_def ex_client_def ex_env_def builder_new_def fmt_g_ok_def
        abs_state_def)
qed

section \<open>Properties\<close>




lemma ex_ping:
  obtains ds s' c' where "session ex_env (ex_server ds ex_users) (ex_client 1) [APing] [''+PONG'' @ CRLF] s' c'"
    "session_ok ex_env (ex_server ds ex_users) (ex_client 1)"
proof -
  from ex_session obtain ds where ds: "session_ok ex_env (ex_server ds ex_users) (ex_client 1)" "env_ok ex_env"
    "alloc_fresh (\<lambda>_. 4096) (db_queue (sv_db (ex_server ds ex_users) ! 0))" .
  have n: "database_num (ex_client 1) = 0" by (simp add: ex_client_def)
  have "\<exists>s' c'. execute_cmd (with_al (\<lambda>_. 4096) ex_env) (ex_server ds ex_users)
      (deliver (se_fmt_g ex_env) APing (ex_client 1)) = Inr (s', c') \<and> session_ok ex_env s' c' \<and>
      abs_state s' c' = snd (spec_server APing (abs_state (ex_server ds ex_users) (ex_client 1))) \<and>
      vstr_str (cl_builder c') = reply_text (se_fmt_g ex_env) R_pong"
    using ds n by (intro session_step)
      (simp_all add: env_ok_def spec_server_def VSTR_MAX_LARGE_SIZE_def)
  then obtain s' c' where "execute_cmd (with_al (\<lambda>_. 4096) ex_env) (ex_server ds ex_users)
      (deliver (se_fmt_g ex_env) APing (ex_client 1)) = Inr (s', c')" "vstr_str (cl_builder c') = ''+PONG'' @ CRLF"
    by auto
  with session_cons [OF _ _ this(1) session_nil] ds n that show thesis by auto
qed


end
