(* ===== verification/Access.thy ===== *)
theory Access
  imports Commands
begin

text \<open>
  Who may use the server: what a connection that has not authenticated can do, when AUTH succeeds, and
  how the users of the configuration become the users of the server.
\<close>

section \<open>Finding a user\<close>

lemma replicate_2 [simp]: "replicate 2 x = [x, x]"
  by (simp add: numeral_2_eq_2)

lemma vstr_cmp_refl [simp]: "vstr_cmp s s = 0"
  by (simp add: vstr_cmp_def strncmp_refl Let_def)

lemma vec_find_from_find:
  "snd (vec_find_from cmp xs i) = find (\<lambda>x. cmp x = 0) xs"
  "fst (vec_find_from cmp xs i) = - 1 \<longleftrightarrow> find (\<lambda>x. cmp x = 0) xs = None"
  by (induction xs arbitrary: i) auto

lemma vec_find_find:
  "snd (vec_find v cmp) = find (\<lambda>x. cmp x = 0) (vec_list v)"
  "fst (vec_find v cmp) = - 1 \<longleftrightarrow> find (\<lambda>x. cmp x = 0) (vec_list v) = None"
  unfolding vec_find_def vec_list_def by (rule vec_find_from_find)+

text \<open>Users as the server keeps them: names without a zero byte, passwords as digests in hexadecimal.\<close>

definition user_ok :: "user \<Rightarrow> bool" where
  "user_ok u \<longleftrightarrow> vstr_clean (user_name u) \<and> NUL \<notin> set (vstr_str (user_name u)) \<and>
     vstr_clean (user_password u) \<and> vstr_len (user_password u) = HASH_PASSWORD_LEN"

definition digest :: "string \<Rightarrow> string" where
  "digest pw = hash_hex (sha256_spec pw)"

lemma length_digest [simp]: "length (digest pw) = 64"
  by (simp add: digest_def length_hash_hex length_sha256_spec)

text \<open>The user that AUTH finds, and the test of the password.\<close>

definition named_user :: "user vec \<Rightarrow> string \<Rightarrow> user option" where
  "named_user us name = find (\<lambda>u. vstr_str (user_name u) = name) (vec_list us)"

lemma find_cong: "(\<And>x. x \<in> set xs \<Longrightarrow> P x = Q x) \<Longrightarrow> find P xs = find Q xs"
  by (induction xs) auto

lemma find_by_username:
  assumes "\<forall>u \<in> set (vec_list us). user_ok u" "vstr_wf s" "NUL \<notin> set (vstr_str s)"
  shows "snd (vec_find us (user_compare_by_username s)) = named_user us (vstr_str s)"
proof -
  have "(user_compare_by_username s u = 0) = (vstr_str (user_name u) = vstr_str s)" if "u \<in> set (vec_list us)" for u
    using assms that vstr_cmp_zero [of s "user_name u"]
    by (auto simp: user_compare_by_username_def user_ok_def vstr_clean_live vstr_live_wf)
  then show ?thesis unfolding vec_find_find named_user_def by (rule find_cong)
qed

lemma take_clean: "vstr_clean s \<Longrightarrow> vstr_len s = n \<Longrightarrow> take n (vstr_data s) = vstr_str s"
  by (simp add: vstr_str_def)

lemma vstr_len_str: "vstr_clean s \<Longrightarrow> vstr_len s = length (vstr_str s)"
  using vstr_len_le_data [of s] by (simp add: vstr_str_def vstr_clean_live vstr_live_wf)

lemma hash_vstr:
  assumes "length (ctx_data ctx) = 64" "vstr_clean pw" "length (vstr_str pw) < 2 ^ 32" "alloc_total al"
  obtains h where "hash_password al ctx (vstr_data pw) (vstr_len pw) = Inr h" "vstr_clean h"
    "vstr_str h = digest (vstr_str pw)"
proof -
  have "vstr_len pw \<le> length (vstr_data pw)" using vstr_len_le_data [of pw] assms(2) by (simp add: vstr_clean_live vstr_live_wf)
  moreover have "vstr_len pw < 2 ^ 32" using vstr_len_str [OF assms(2)] assms(3) by simp
  ultimately obtain h where "hash_password al ctx (vstr_data pw) (vstr_len pw) = Inr h" "vstr_clean h"
    "vstr_str h = hash_hex (sha256_spec (take (vstr_len pw) (vstr_data pw)))"
    using hash_password_spec [OF assms(1) _ _ assms(4)] by blast
  then show thesis by (intro that [of h]) (simp_all add: digest_def vstr_str_def)
qed

lemma auth_command_spec:
  assumes "\<forall>u \<in> set (vec_list (sv_users s)). user_ok u" "alloc_total (se_al S)" "length (ctx_data (se_ctx S)) = 64"
    and "vstr_clean name" "NUL \<notin> set (vstr_str name)" "vstr_clean pw" "length (vstr_str pw) < 2 ^ 32"
  shows "\<exists>r. execute_auth_command S s c (String name) (String pw) =
    (case named_user (sv_users s) (vstr_str name) of
       Some u \<Rightarrow> if vstr_str (user_password u) = digest (vstr_str pw)
         then Inr (0, c\<lparr>cl_user := u, cl_flags := cl_flags c OR AUTHENTICATED\<rparr>) else Inr (r, c)
     | None \<Rightarrow> Inr (r, c)) \<and> r \<noteq> 0"
proof -
  have nm: "snd (vec_find (sv_users s) (user_compare_by_username name)) = named_user (sv_users s) (vstr_str name)"
    using assms(1,4,5) by (intro find_by_username) (simp_all add: vstr_clean_live vstr_live_wf)
  obtain found out where f: "vec_find (sv_users s) (user_compare_by_username name) = (found, out)"
    by (cases "vec_find (sv_users s) (user_compare_by_username name)")
  show ?thesis
  proof (cases out)
    case None
    with f nm show ?thesis by (intro exI [of _ "- 1"]) (auto simp: execute_auth_command_def)
  next
    case (Some u)
    with f nm have u: "named_user (sv_users s) (vstr_str name) = Some u" by simp
    then have "user_ok u" using assms(1) by (auto simp: named_user_def find_Some_iff)
    then have up: "vstr_len (user_password u) = 64" "64 \<le> length (vstr_data (user_password u))"
      "take 64 (vstr_data (user_password u)) = vstr_str (user_password u)"
      using vstr_len_le_data [of "user_password u"] by (auto simp: user_ok_def vstr_clean_live vstr_live_wf vstr_str_def)
    from hash_vstr [OF assms(3,6,7,2)] obtain h where
      h: "hash_password (se_al S) (se_ctx S) (vstr_data pw) (vstr_len pw) = Inr h" "vstr_clean h"
        "vstr_str h = digest (vstr_str pw)" .
    then have hl: "vstr_len h = 64" "64 \<le> length (vstr_data h)" "take 64 (vstr_data h) = digest (vstr_str pw)"
      using vstr_len_str [OF h(2)] vstr_len_le_data [of h] take_clean [OF h(2)] by (auto simp: vstr_clean_live vstr_live_wf)
    from time_safe_compare_spec [OF hl(2) up(2)] obtain r where
      r: "time_safe_compare (vstr_data h) (vstr_data (user_password u)) 64 = Inr r"
        "r = 0 \<longleftrightarrow> digest (vstr_str pw) = vstr_str (user_password u)" using hl(3) up(3) by auto
    have "sint r \<noteq> 0 \<longleftrightarrow> r \<noteq> 0" by (simp add: signed_eq_0_iff)
    with f Some u h(1) hl(1) r show ?thesis
      by (intro exI [of _ "if r = 0 then 1 else sint r"]) (auto simp: execute_auth_command_def)
  qed
qed

section \<open>The request\<close>

lemma parse_auth:
  assumes "n \<le> length buf" "take n buf = message g ''AUTH'' [VStr name, VStr pw]" "alloc_total (e_al E)" "fmt_g_ok g"
    and "length name < VSTR_MAX_LARGE_SIZE" "length pw < VSTR_MAX_LARGE_SIZE"
  obtains ns ps where "parse E buf n = Inr \<lparr>cmd_type = Auth, cmd_data = Auth_data (String ns) (String ps)\<rparr>"
    "vstr_clean ns" "vstr_str ns = name" "vstr_clean ps" "vstr_str ps = pw"
proof -
  have w: "length ''AUTH'' < VSTR_MAX_LARGE_SIZE" by (simp add: VSTR_MAX_LARGE_SIZE_def)
  from parse_message_word [OF assms(1-3) _ w] obtain q where
    q: "parse E buf n = parse_array_cmd E (n + 2) (parser_new buf n)"
      "parse_header (parser_new buf n) = (Some 3, q)"
      "at_text (parser_read_char q) (enc g (VStr ''AUTH'') @ enc g (VStr name) @ enc g (VStr pw) @ [])" by auto
  from parse_cmd_type_reads [OF q(3) assms(3) w, of "n + 2"] obtain p where
    p: "parse_cmd_type E (n + 2) (parser_read_char q) = Inr (Auth, p)"
      "at_text p (enc g (VStr name) @ enc g (VStr pw) @ [])" by (auto simp: lookup_def)
  from parse_two_reads [OF p(2) _ _ _ _ assms(3,4), of "n + 2" Auth Auth_data] assms(5,6) obtain no po where
    "parse_two E (n + 2) 3 p Auth Auth_data = Inr \<lparr>cmd_type = Auth, cmd_data = Auth_data no po\<rparr>"
    "obj_value no = VStr name" "parsed_ok no" "obj_value po = VStr pw" "parsed_ok po" by auto
  moreover from this obtain ns ps where "no = String ns" "po = String ps" by (cases no; cases po) auto
  ultimately show thesis using q(1,2) p(1) by (intro that [of ns ps]) (simp_all add: parse_array_cmd_def)
qed

section \<open>The users of the configuration\<close>

text \<open>A user with the password that the configuration has in plain text.\<close>

definition plain_user_ok :: "user \<Rightarrow> bool" where
  "plain_user_ok u \<longleftrightarrow> vstr_clean (user_name u) \<and> NUL \<notin> set (vstr_str (user_name u)) \<and>
     vstr_clean (user_password u) \<and> length (vstr_str (user_password u)) < 2 ^ 32"

definition hashed_as :: "user \<Rightarrow> user \<Rightarrow> bool" where
  "hashed_as u v \<longleftrightarrow> user_ok v \<and> user_name v = user_name u \<and> user_flags v = user_flags u \<and>
     vstr_str (user_password v) = digest (vstr_str (user_password u))"

lemma add_users_body_adds:
  assumes "plain_user_ok u" "vec_wf us" "\<forall>v \<in> set (vec_list us). user_ok v"
    and "vstr_str (user_name u) \<notin> vstr_str ` user_name ` set (vec_list us)"
    and "alloc_total al" "length (ctx_data ctx) = 64"
  obtains v us' where "add_users_body al ctx u us = Inr (True, us')" "vec_wf us'" "vec_list us' = vec_list us @ [v]"
    "hashed_as u v"
proof -
  have "find (\<lambda>v. user_compare u v = 0) (vec_list us) = None"
    using assms(1,3,4) vstr_cmp_zero [of "user_name u"]
    by (auto simp: find_None_iff user_compare_def plain_user_ok_def user_ok_def vstr_clean_live vstr_live_wf)
  then have nf: "fst (vec_find us (user_compare u)) = - 1" by (simp add: vec_find_find)
  let ?p = "user_password u"
  from assms(1) have "vstr_clean ?p" "length (vstr_str ?p) < 2 ^ 32" by (simp_all add: plain_user_ok_def)
  from hash_vstr [OF assms(6) this assms(5)] obtain h where
    h: "hash_password al ctx (vstr_data ?p) (vstr_len ?p) = Inr h" "vstr_clean h" "vstr_str h = digest (vstr_str ?p)" .
  from vst.push_law [OF assms(2,5), of user_zero "u\<lparr>user_password := h\<rparr>"] obtain us' where
    "vec_push al user_zero us (u\<lparr>user_password := h\<rparr>) = (0, us')" "vec_wf us'"
    "vec_list us' = vec_list us @ [u\<lparr>user_password := h\<rparr>]" by blast
  moreover have "hashed_as u (u\<lparr>user_password := h\<rparr>)"
    using assms(1) h(2,3) vstr_len_str [OF h(2)] by (simp add: hashed_as_def user_ok_def plain_user_ok_def)
  ultimately show thesis using that nf h(1) by (simp add: add_users_body_def)
qed

lemma add_users_run:
  assumes "\<forall>u \<in> set xs. plain_user_ok u" "distinct (map (\<lambda>u. vstr_str (user_name u)) xs)"
    and "vec_wf us" "\<forall>v \<in> set (vec_list us). user_ok v"
    and "(\<lambda>u. vstr_str (user_name u)) ` set xs \<inter> vstr_str ` user_name ` set (vec_list us) = {}"
    and "alloc_total al" "length (ctx_data ctx) = 64"
  shows "\<exists>us' vs. run_body (add_users_body al ctx) xs us = Inr (True, us') \<and> vec_wf us' \<and>
    vec_list us' = vec_list us @ vs \<and> list_all2 hashed_as xs vs"
  using assms
proof (induction xs arbitrary: us)
  case Nil
  then show ?case by (auto intro!: exI [of _ "[]"])
next
  case (Cons u xs)
  have "plain_user_ok u" "vstr_str (user_name u) \<notin> vstr_str ` user_name ` set (vec_list us)"
    using Cons.prems(1,5) by auto
  from add_users_body_adds [OF this(1) Cons.prems(3,4) this(2) Cons.prems(6,7)] obtain v us1 where
    v: "add_users_body al ctx u us = Inr (True, us1)" "vec_wf us1" "vec_list us1 = vec_list us @ [v]" "hashed_as u v" .
  have ok: "\<forall>v \<in> set (vec_list us1). user_ok v" using v(3,4) Cons.prems(4) by (auto simp: hashed_as_def)
  have "user_name v = user_name u" using v(4) by (simp add: hashed_as_def)
  then have "(\<lambda>u. vstr_str (user_name u)) ` set xs \<inter> vstr_str ` user_name ` set (vec_list us1) = {}"
    using Cons.prems(2,5) v(3) by auto
  from Cons.IH [OF _ _ v(2) ok this Cons.prems(6,7)] Cons.prems(1,2) obtain us' vs where
    "run_body (add_users_body al ctx) xs us1 = Inr (True, us')" "vec_wf us'" "vec_list us' = vec_list us1 @ vs"
    "list_all2 hashed_as xs vs" by auto
  with v show ?case by (intro exI [of _ us'] exI [of _ "v # vs"]) simp
qed

lemma add_users_spec:
  assumes "vec_wf conf" "vec_list conf \<noteq> []" "vec_len conf + 2 < 2 ^ 64"
    and "\<forall>u \<in> set (vec_list conf). plain_user_ok u" "distinct (map (\<lambda>u. vstr_str (user_name u)) (vec_list conf))"
    and "vec_new al user_zero sizeof_user = Some us" "alloc_total al" "length (ctx_data ctx) = 64"
  shows "\<exists>us'. add_users al ctx us conf = Inr (0, us') \<and> vec_wf us' \<and>
    list_all2 hashed_as (vec_list conf) (vec_list us')"
proof -
  note us = vec_new_spec [OF assms(6)]
  have "\<exists>us' vs. run_body (add_users_body al ctx) (vec_list conf) us = Inr (True, us') \<and> vec_wf us' \<and>
      vec_list us' = vec_list us @ vs \<and> list_all2 hashed_as (vec_list conf) vs"
    using assms(4,5,7,8) us by (intro add_users_run) simp_all
  with us(2) show ?thesis
    by (auto simp: add_users_def vec_iter_loop_visits [OF assms(1-3), of "vec_cap conf + 1", simplified])
qed

section \<open>Replies\<close>

lemma answer_frame:
  assumes "answer f s c = Inr (s', c')"
  obtains b where "s' = s" "c' = c\<lparr>cl_builder := b\<rparr>"
  using assms that by (auto simp: answer_def reply_def res_bind_Inr)

lemma auth_command_frame:
  "execute_auth_command S s c u p = Inr (r, c') \<Longrightarrow>
     database_num c' = database_num c \<and> cl_builder c' = cl_builder c \<and> (r \<noteq> 0 \<longrightarrow> c' = c)"
  by (auto simp: execute_auth_command_def res_bind_Inr signed_eq_0_iff split: object.splits prod.splits option.splits if_splits)

section \<open>Properties\<close>

text \<open>
  C11. Authentication is complete: whatever bytes a connection that has not authenticated sends, if
  \<^verbatim>\<open>execute_cmd\<close> returns then the server and the selected database are unchanged; every command other
  than AUTH is answered with \<^verbatim>\<open>EUNAUTHED\<close> and changes nothing; and the connection changes its flags only
  by an AUTH command for which \<^verbatim>\<open>execute_auth_command\<close> returned 0.
\<close>

theorem unauthenticated_cannot_act:
  assumes "cl_flags c AND AUTHENTICATED = 0" "env_ok S" "execute_cmd S s c = Inr (s', c')"
  shows "s' = s \<and> database_num c' = database_num c \<and>
    (\<exists>cmd. parse (se_env S) (read_buf c) (read_pos c) = Inr cmd \<and>
      (cmd_type cmd \<notin> {Illegal, Auth} \<and> has_room c (''-EUNAUTHED'' @ CRLF) \<longrightarrow>
        c' = c\<lparr>cl_builder := cl_builder c'\<rparr> \<and>
        vstr_str (cl_builder c') = vstr_str (cl_builder c) @ ''-EUNAUTHED'' @ CRLF) \<and>
      (cl_flags c' \<noteq> cl_flags c \<longrightarrow> cmd_type cmd = Auth \<and>
        (\<exists>c1. execute_auth_command S s c (cmd_arg cmd) (cmd_arg2 cmd) = Inr (0, c1))))"
proof -
  from assms(3) obtain cmd where p: "parse (se_env S) (read_buf c) (read_pos c) = Inr cmd"
    by (auto simp: execute_cmd_def res_bind_Inr)
  consider "cmd_type cmd = Illegal" | "cmd_type cmd \<notin> {Illegal, Auth}" | "cmd_type cmd = Auth" by blast
  then show ?thesis
  proof cases
    case 1
    then have "answer (add_err S err_invalid_command) s c = Inr (s', c')"
      using p assms(3) by (simp add: execute_cmd_def)
    then obtain b where "s' = s" "c' = c\<lparr>cl_builder := b\<rparr>" by (rule answer_frame)
    with p 1 show ?thesis by simp
  next
    case 2
    then have e: "answer (add_err S err_unauthed) s c = Inr (s', c')"
      using p assms(1,3) by (simp add: execute_cmd_def)
    have a: "adds (add_err S err_unauthed) (''-EUNAUTHED'' @ CRLF)"
      using adds_add_err [of S err_unauthed] assms(2) by (simp add: env_ok_def err_unauthed_def)
    have r: "vstr_str (cl_builder c') = vstr_str (cl_builder c) @ ''-EUNAUTHED'' @ CRLF"
      if "has_room c (''-EUNAUTHED'' @ CRLF)"
    proof -
      from answer_adds [OF a that, of s] obtain b where
        "answer (add_err S err_unauthed) s c = Inr (s, c\<lparr>cl_builder := b\<rparr>)"
        "vstr_str b = vstr_str (cl_builder c) @ ''-EUNAUTHED'' @ CRLF" .
      with e show ?thesis by auto
    qed
    from e obtain b where "s' = s" "c' = c\<lparr>cl_builder := b\<rparr>" by (rule answer_frame)
    with p r 2 show ?thesis by simp
  next
    case 3
    obtain r c1 where a: "execute_auth_command S s c (cmd_arg cmd) (cmd_arg2 cmd) = Inr (r, c1)"
      using 3 p assms(3) by (auto simp: execute_cmd_def run_cmd_def Let_def res_bind_Inr)
    have "\<exists>f. answer f s c1 = Inr (s', c')"
      using 3 p assms(3) a by (auto simp: execute_cmd_def run_cmd_def Let_def split: if_splits)
    then obtain f where "answer f s c1 = Inr (s', c')" ..
    then obtain b where "s' = s" "c' = c1\<lparr>cl_builder := b\<rparr>" by (rule answer_frame)
    with auth_command_frame [OF a] p 3 a show ?thesis by (cases "r = 0") auto
  qed
qed

theorem unauthenticated_cannot_act_witness:
  "\<exists>c'. execute_cmd ex_env (ex_server [] ex_users) (deliver (\<lambda>_. ''1'') APop (ex_client 0)) =
       Inr (ex_server [] ex_users, c') \<and> vstr_str (cl_builder c') = ''-EUNAUTHED'' @ CRLF \<and> cl_flags c' = 0"
proof -
  let ?c = "deliver (\<lambda>_. ''1'') APop (ex_client 0)" and ?s = "ex_server [] ex_users"
  have ok: "env_ok ex_env" by (simp add: env_ok_def ex_env_def fmt_g_ok_def)
  then have a: "alloc_total (e_al (se_env ex_env))" by (simp add: env_ok_def)
  have "take (read_pos ?c) (read_buf ?c) = request (\<lambda>_. ''1'') APop" "read_pos ?c \<le> length (read_buf ?c)"
    by simp_all
  with parse_request [OF this(2,1) a] obtain cmd where
    cmd: "parse (se_env ex_env) (read_buf ?c) (read_pos ?c) = Inr cmd" "stands_for cmd APop"
    by (auto simp: ex_env_def fmt_g_ok_def)
  then have t: "cmd_type cmd = Pop" by (auto simp: stands_for_def)
  have room: "has_room ?c (''-EUNAUTHED'' @ CRLF)"
    by (simp add: has_room_def ex_client_def builder_new_def VSTR_MAX_LARGE_SIZE_def)
  have "adds (add_err ex_env err_unauthed) (''-EUNAUTHED'' @ CRLF)"
    using adds_add_err [of ex_env err_unauthed] ok by (simp add: env_ok_def err_unauthed_def)
  from answer_adds [OF this room, of ?s] obtain b where
    "answer (add_err ex_env err_unauthed) ?s ?c = Inr (?s, ?c\<lparr>cl_builder := b\<rparr>)" .
  then have e: "execute_cmd ex_env ?s ?c = Inr (?s, ?c\<lparr>cl_builder := b\<rparr>)"
    using cmd(1) t by (simp add: execute_cmd_def ex_client_def deliver_def)
  have "cl_flags ?c = 0" by (simp add: deliver_def ex_client_def)
  with unauthenticated_cannot_act [OF _ ok e] cmd(1) t room show ?thesis by (simp add: e)
qed

lemma auth_request_spec:
  assumes "\<forall>u \<in> set (vec_list (sv_users s)). user_ok u" "env_ok S" "length (ctx_data (se_ctx S)) = 64"
    and "read_pos c \<le> length (read_buf c)"
    and "take (read_pos c) (read_buf c) = message (se_fmt_g S) ''AUTH'' [VStr name, VStr pw]"
    and "NUL \<notin> set name" "length name < VSTR_MAX_LARGE_SIZE" "length pw < 2 ^ 32"
    and "vstr_live (cl_builder c)" "vstr_str (cl_builder c) = []"
  shows "\<exists>b. vstr_live b \<and> execute_cmd S s c =
    (case named_user (sv_users s) name of
       Some u \<Rightarrow> if vstr_str (user_password u) = digest pw
         then Inr (s, c\<lparr>cl_user := u, cl_flags := cl_flags c OR AUTHENTICATED, cl_builder := b\<rparr>)
         else Inr (s, c\<lparr>cl_builder := b\<rparr>)
     | None \<Rightarrow> Inr (s, c\<lparr>cl_builder := b\<rparr>)) \<and>
    vstr_str b =
      (if \<exists>u. named_user (sv_users s) name = Some u \<and> vstr_str (user_password u) = digest pw
       then ''+OK'' @ CRLF else ''-failed to authenticate'' @ CRLF)"
proof -
  have al: "alloc_total (se_al S)" "fmt_g_ok (se_fmt_g S)" using assms(2) by (auto simp: env_ok_def)
  have pwl: "length pw < VSTR_MAX_LARGE_SIZE" using assms(8) by (simp add: VSTR_MAX_LARGE_SIZE_def)
  from parse_auth [OF assms(4,5) al assms(7) pwl] obtain ns ps where
    p: "parse (se_env S) (read_buf c) (read_pos c) = Inr \<lparr>cmd_type = Auth, cmd_data = Auth_data (String ns) (String ps)\<rparr>"
      "vstr_clean ns" "vstr_str ns = name" "vstr_clean ps" "vstr_str ps = pw" .
  have e: "execute_cmd S s c = res_bind (execute_auth_command S s c (String ns) (String ps)) (\<lambda>(auth_res, c).
      if auth_res \<noteq> 0 then answer (builder_add_err (se_al S) ''failed to authenticate'' 22) s c
      else answer (builder_add_ok (se_al S)) s c)"
    using p(1) by (simp add: execute_cmd_def run_cmd_def Let_def cmd_arg_def cmd_arg2_def)
  have ok: "\<exists>b. answer (builder_add_ok (se_al S)) s k = Inr (s, k\<lparr>cl_builder := b\<rparr>) \<and> vstr_live b \<and>
      vstr_str b = ''+OK'' @ CRLF" if "cl_builder k = cl_builder c" for k
    using answer_adds [OF adds_simple(1) [OF al(1)], of k s] that assms(9,10)
    by (auto simp: has_room_def VSTR_MAX_LARGE_SIZE_def)
  have bad: "\<exists>b. answer (builder_add_err (se_al S) ''failed to authenticate'' 22) s c = Inr (s, c\<lparr>cl_builder := b\<rparr>) \<and>
      vstr_live b \<and> vstr_str b = ''-failed to authenticate'' @ CRLF"
    using answer_adds [OF adds_err [OF al(1)], of 22 "''failed to authenticate''" c s] assms(9,10)
    by (auto simp: has_room_def VSTR_MAX_LARGE_SIZE_def)
  from auth_command_spec [OF assms(1) al(1) assms(3) p(2) _ p(4)] p(3,5) assms(6,8) obtain r where
    a: "execute_auth_command S s c (String ns) (String ps) =
      (case named_user (sv_users s) name of
         Some u \<Rightarrow> if vstr_str (user_password u) = digest pw
           then Inr (0, c\<lparr>cl_user := u, cl_flags := cl_flags c OR AUTHENTICATED\<rparr>) else Inr (r, c)
       | None \<Rightarrow> Inr (r, c))" "r \<noteq> 0" by auto
  show ?thesis
  proof (cases "named_user (sv_users s) name")
    case None
    with a e bad show ?thesis by auto
  next
    case (Some u)
    with a e bad ok [of "c\<lparr>cl_user := u, cl_flags := cl_flags c OR AUTHENTICATED\<rparr>"] show ?thesis by auto
  qed
qed

text \<open>
  C12. AUTH checks the password: for a request \<^verbatim>\<open>AUTH name password\<close> in the form the client library
  sends it, \<^verbatim>\<open>execute_cmd\<close> marks the connection as that user and answers \<^verbatim>\<open>+OK\<close> exactly when a user of
  that name exists and the SHA-256 digest of the password is the stored one; otherwise the connection
  is unchanged but for the reply \<^verbatim>\<open>-failed to authenticate\<close>.
\<close>

theorem auth_needs_password:
  assumes "\<forall>u \<in> set (vec_list (sv_users s)). user_ok u" "env_ok S" "length (ctx_data (se_ctx S)) = 64"
    and "read_pos c \<le> length (read_buf c)"
    and "take (read_pos c) (read_buf c) = message (se_fmt_g S) ''AUTH'' [VStr name, VStr pw]"
    and "NUL \<notin> set name" "length name < VSTR_MAX_LARGE_SIZE" "length pw < 2 ^ 32"
    and "vstr_live (cl_builder c)" "vstr_str (cl_builder c) = []"
  shows "\<exists>b. vstr_live b \<and> execute_cmd S s c =
    (case named_user (sv_users s) name of
       Some u \<Rightarrow> if vstr_str (user_password u) = digest pw
         then Inr (s, c\<lparr>cl_user := u, cl_flags := cl_flags c OR AUTHENTICATED, cl_builder := b\<rparr>)
         else Inr (s, c\<lparr>cl_builder := b\<rparr>)
     | None \<Rightarrow> Inr (s, c\<lparr>cl_builder := b\<rparr>)) \<and>
    vstr_str b =
      (if \<exists>u. named_user (sv_users s) name = Some u \<and> vstr_str (user_password u) = digest pw
       then ''+OK'' @ CRLF else ''-failed to authenticate'' @ CRLF)"
  using assms by (rule auth_request_spec)

text \<open>A server with one user, and the request of that user.\<close>

definition ex_user :: "vstr \<Rightarrow> user" where
  "ex_user h = \<lparr>user_name = Small (''al'' @ replicate 21 NUL) 21, user_password = h, user_flags = 0\<rparr>"

definition ex_auth_client :: client where
  "ex_auth_client = (ex_client 0)\<lparr>read_buf := message (\<lambda>_. ''1'') ''AUTH'' [VStr ''al'', VStr ''pw''],
     read_pos := length (message (\<lambda>_. ''1'') ''AUTH'' [VStr ''al'', VStr ''pw''])\<rparr>"

lemma ex_server_users [simp]: "sv_users (ex_server ds us) = us"
  by (simp add: ex_server_def)

lemma ex_user_ok: "vstr_clean h \<Longrightarrow> length (vstr_str h) = 64 \<Longrightarrow> user_ok (ex_user h)"
  using small_key_clean [of "''al''"] vstr_len_str [of h] by (simp add: user_ok_def ex_user_def)

theorem auth_needs_password_witness:
  "\<exists>h c'. vstr_str h = digest ''pw'' \<and>
     execute_cmd ex_env (ex_server [] (Vec 4096 1 2 sizeof_user [ex_user h, user_zero])) ex_auth_client =
       Inr (ex_server [] (Vec 4096 1 2 sizeof_user [ex_user h, user_zero]), c') \<and>
     cl_flags c' = AUTHENTICATED \<and> vstr_str (cl_builder c') = ''+OK'' @ CRLF"
proof -
  let ?al = "\<lambda>_. 4096" and ?ctx = "se_ctx ex_env"
  have "length (ctx_data ?ctx) = 64" by (simp add: ex_env_def)
  moreover note small_key_clean [of "''pw''"]
  ultimately obtain h where h: "vstr_clean h" "vstr_str h = digest ''pw''"
    using hash_vstr [of ?ctx "Small (''pw'' @ replicate 21 NUL) 21" ?al] by auto
  let ?us = "Vec 4096 1 2 sizeof_user [ex_user h, user_zero]"
  let ?s = "ex_server [] ?us"
  have l: "vec_list ?us = [ex_user h]" by (simp add: vec_list_def)
  have n: "vstr_str (user_name (ex_user h)) = ''al''" "user_password (ex_user h) = h"
    using small_key_clean(2) [of "''al''"] by (simp_all add: ex_user_def)
  then have u: "named_user ?us ''al'' = Some (ex_user h)" by (simp only: named_user_def l) simp
  have "\<exists>b. vstr_live b \<and> execute_cmd ex_env ?s ex_auth_client =
      (case named_user (sv_users ?s) ''al'' of
         Some u \<Rightarrow> if vstr_str (user_password u) = digest ''pw''
           then Inr (?s, ex_auth_client\<lparr>cl_user := u, cl_flags := cl_flags ex_auth_client OR AUTHENTICATED, cl_builder := b\<rparr>)
           else Inr (?s, ex_auth_client\<lparr>cl_builder := b\<rparr>)
       | None \<Rightarrow> Inr (?s, ex_auth_client\<lparr>cl_builder := b\<rparr>)) \<and>
      vstr_str b =
        (if \<exists>u. named_user (sv_users ?s) ''al'' = Some u \<and> vstr_str (user_password u) = digest ''pw''
         then ''+OK'' @ CRLF else ''-failed to authenticate'' @ CRLF)"
    using h ex_user_ok [of h]
    by (intro auth_needs_password)
      (simp_all add: vec_list_def env_ok_def ex_env_def fmt_g_ok_def ex_auth_client_def ex_client_def builder_new_def
        VSTR_MAX_LARGE_SIZE_def)
  with u n h show ?thesis by (auto simp: ex_auth_client_def ex_client_def)
qed

text \<open>
  The passwords of the configuration are never kept: for a configuration with at least one user
  whose names differ, \<^verbatim>\<open>add_users\<close> succeeds, and the users of the server are those of the configuration in
  the same order, with the same names and flags and with the hexadecimal SHA-256 digest as password.
\<close>

theorem add_users_hashes:
  assumes "vec_wf conf" "vec_list conf \<noteq> []" "vec_len conf + 2 < 2 ^ 64"
    and "\<forall>u \<in> set (vec_list conf). plain_user_ok u" "distinct (map (\<lambda>u. vstr_str (user_name u)) (vec_list conf))"
    and "vec_new al user_zero sizeof_user = Some us" "alloc_total al" "length (ctx_data ctx) = 64"
  shows "\<exists>us'. add_users al ctx us conf = Inr (0, us') \<and> vec_wf us' \<and>
    list_all2 hashed_as (vec_list conf) (vec_list us')"
  using assms by (rule add_users_spec)

theorem add_users_hashes_witness:
  "\<exists>us'. add_users (\<lambda>_. 4096) (se_ctx ex_env) (Vec 4096 0 2 sizeof_user [user_zero, user_zero])
       (Vec 4096 1 2 sizeof_user [ex_user (Small (''pw'' @ replicate 21 NUL) 21), user_zero]) = Inr (0, us') \<and>
     map (\<lambda>u. vstr_str (user_password u)) (vec_list us') = [digest ''pw'']"
proof -
  let ?u = "ex_user (Small (''pw'' @ replicate 21 NUL) 21)"
  let ?conf = "Vec 4096 1 2 sizeof_user [?u, user_zero]" and ?us = "Vec 4096 0 2 sizeof_user [user_zero, user_zero]"
  have l: "vec_list ?conf = [?u]" by (simp add: vec_list_def)
  have pw: "vstr_str (user_password ?u) = ''pw''" "plain_user_ok ?u"
    using small_key_clean [of "''al''"] small_key_clean [of "''pw''"]
    by (simp_all add: plain_user_ok_def ex_user_def)
  have "\<exists>us'. add_users (\<lambda>_. 4096) (se_ctx ex_env) ?us ?conf = Inr (0, us') \<and> vec_wf us' \<and>
      list_all2 hashed_as (vec_list ?conf) (vec_list us')"
    using pw by (intro add_users_hashes)
      (simp_all add: vec_list_def vec_wf_def vec_new_def ex_env_def)
  with pw show ?thesis unfolding l by (auto simp: list_all2_Cons1 hashed_as_def)
qed

text \<open>
  C34. A configuration without users stops the server from starting: the loop of \<^verbatim>\<open>add_users\<close> reads the
  two zeroed slots of the empty vector, adds the first as a user, takes the second for a duplicate and
  returns -1.
\<close>

theorem no_users_no_start:
  assumes "vec_new al user_zero sizeof_user = Some conf" "vec_new al user_zero sizeof_user = Some us"
    and "alloc_total al" "length (ctx_data ctx) = 64"
  shows "\<exists>us'. add_users al ctx us conf = Inr (- 1, us')"
proof -
  have c: "vec_len conf = 0" "vec_data conf = [user_zero, user_zero]" "vec_cap conf = 2"
    using assms(1) by (auto simp: vec_new_def Let_def numeral_2_eq_2 split: if_splits)
  note us = vec_new_spec [OF assms(2)]
  have same: "user_compare user_zero (user_zero\<lparr>user_password := h\<rparr>) = 0" for h
    by (simp add: user_compare_def)
  obtain h where h: "hash_password al ctx (vstr_data (user_password user_zero)) (vstr_len (user_password user_zero)) = Inr h"
    using hash_password_spec [OF assms(4) _ _ assms(3), of 23 "replicate 23 NUL"]
    by (auto simp: user_zero_def vstr_data_def vstr_len_def)
  from vst.push_law [OF us(1) assms(3), of user_zero "user_zero\<lparr>user_password := h\<rparr>"] us(2) obtain us1 where
    p: "vec_push al user_zero us (user_zero\<lparr>user_password := h\<rparr>) = (0, us1)"
      "vec_list us1 = [user_zero\<lparr>user_password := h\<rparr>]" by auto
  have f0: "fst (vec_find us (user_compare user_zero)) = - 1" by (simp add: vec_find_find us(2))
  have f1: "fst (vec_find us1 (user_compare user_zero)) \<noteq> - 1" by (simp add: vec_find_find p(2) same)
  have "run_body (add_users_body al ctx) (vec_data conf) us = Inr (False, us1)"
    using h p(1) f0 f1 by (simp add: c(2) add_users_body_def)
  then show ?thesis
    using vec_iter_loop_oob [of "- 1" 0 conf 3 "add_users_body al ctx" us] c
    by (simp add: add_users_def vec_iter_new_at)
qed

theorem no_users_no_start_witness:
  "\<exists>us'. add_users (\<lambda>_. 4096) (se_ctx ex_env) (Vec 4096 0 2 sizeof_user [user_zero, user_zero])
     (Vec 4096 0 2 sizeof_user [user_zero, user_zero]) = Inr (- 1, us')"
  by (rule no_users_no_start) (simp_all add: vec_new_def ex_env_def)

end
