(* ===== verification/Loop.thy ===== *)
theory Loop
  imports Access
begin

text \<open>
  The server in its event loop: what the callbacks do to the connections, the invariant that every
  sequence of callbacks keeps, and a whole exchange from the bytes of a request to the bytes of the reply.
\<close>

section \<open>Reading\<close>

text \<open>
  The chunks that \<^verbatim>\<open>read\<close> can return for a buffer with the given capacity and position: none is empty,
  and none is longer than the room that the call offers.
\<close>

fun reads_fit :: "nat \<Rightarrow> nat \<Rightarrow> string list \<Rightarrow> bool" where
  "reads_fit cap pos [] \<longleftrightarrow> True"
| "reads_fit cap pos (d # ds) \<longleftrightarrow>
     (let cap = (if cap \<le> pos then cap * 2 else cap) in
      d \<noteq> [] \<and> length d \<le> cap - pos \<and> reads_fit cap (pos + length d) ds)"

text \<open>The buffer of a connection in order.\<close>

definition buf_ok :: "client \<Rightarrow> bool" where
  "buf_ok c \<longleftrightarrow> length (read_buf c) = read_cap c \<and> read_pos c \<le> read_cap c \<and> 0 < read_cap c"

lemma realloc_client_buf:
  assumes "buf_ok c" "realloc_client_read_buf al c = (r, c')" "r \<noteq> - 1"
  shows "buf_ok c'" "\<exists>buf. c' = c\<lparr>read_buf := buf, read_cap := read_cap c * 2\<rparr>"
    "take (read_pos c) (read_buf c') = take (read_pos c) (read_buf c)"
  using assms by (auto simp: realloc_client_read_buf_def buf_ok_def Let_def split: if_splits)

lemma memcpy_at_take:
  assumes "p + length d \<le> length buf"
  shows "take (p + length d) (memcpy_at buf p d (length d)) = take p buf @ d"
    "length (memcpy_at buf p d (length d)) = length buf"
  using assms by (auto simp: memcpy_at_def)

lemma read_loop_stores:
  assumes "alloc_total al" "buf_ok c" "reads_fit (read_cap c) (read_pos c) ds"
  shows "\<exists>buf cap. read_loop al (map Read_bytes ds @ Read_again # rs) c =
      Read_done (c\<lparr>read_buf := buf, read_cap := cap, read_pos := read_pos c + length (concat ds)\<rparr>) \<and>
    length buf = cap \<and> read_pos c + length (concat ds) \<le> cap \<and> (\<exists>k. cap = read_cap c * 2 ^ k) \<and>
    take (read_pos c + length (concat ds)) buf = take (read_pos c) (read_buf c) @ concat ds"
  using assms(2,3)
proof (induction ds arbitrary: c)
  case Nil
  let ?cap = "if read_cap c \<le> read_pos c then read_cap c * 2 else read_cap c"
  let ?buf = "if read_cap c \<le> read_pos c then take (read_pos c) (read_buf c) @ replicate (?cap - read_pos c) NUL
    else read_buf c"
  have "read_loop al (Read_again # rs) c = Read_done (c\<lparr>read_buf := ?buf, read_cap := ?cap, read_pos := read_pos c\<rparr>)"
    using assms(1) by (subst read_loop.simps) (simp add: realloc_client_read_buf_def Let_def)
  moreover have "?cap = read_cap c * 2 ^ (if read_cap c \<le> read_pos c then 1 else 0)" by simp
  ultimately show ?case
    using Nil by (intro exI [of _ ?buf] exI [of _ ?cap]) (auto simp: buf_ok_def)
next
  case (Cons d ds)
  obtain r c1 where c1: "(if read_pos c \<ge> read_cap c then realloc_client_read_buf al c else (0, c)) = (r, c1)"
    by (cases "if read_pos c \<ge> read_cap c then realloc_client_read_buf al c else (0, c)")
  let ?cap = "if read_cap c \<le> read_pos c then read_cap c * 2 else read_cap c"
  have r: "r \<noteq> - 1" "buf_ok c1" "read_cap c1 = ?cap" "read_pos c1 = read_pos c"
    "take (read_pos c) (read_buf c1) = take (read_pos c) (read_buf c)"
    using c1 assms(1) Cons.prems(1)
    by (auto simp: realloc_client_read_buf_def buf_ok_def Let_def split: if_splits)
  have d: "d \<noteq> []" "length d \<le> read_cap c1 - read_pos c1" "reads_fit (read_cap c1) (read_pos c1 + length d) ds"
    using Cons.prems(2) r(3,4) by (auto simp: Let_def)
  define c2 where "c2 = c1\<lparr>read_buf := memcpy_at (read_buf c1) (read_pos c1) d (length d), read_pos := read_pos c1 + length d\<rparr>"
  have room: "read_pos c1 + length d \<le> length (read_buf c1)" using d(1,2) r(2) by (auto simp: buf_ok_def)
  have b2: "buf_ok c2" using r(2) room memcpy_at_take [OF room] by (simp add: c2_def buf_ok_def)
  have step: "read_loop al (map Read_bytes (d # ds) @ Read_again # rs) c =
      read_loop al (map Read_bytes ds @ Read_again # rs) c2"
    using c1 r(1) d(1,2) by (subst read_loop.simps) (simp add: c2_def)
  have "reads_fit (read_cap c2) (read_pos c2) ds" using d(3) by (simp add: c2_def)
  from Cons.IH [OF b2 this] obtain buf cap k where IH:
    "read_loop al (map Read_bytes ds @ Read_again # rs) c2 =
      Read_done (c2\<lparr>read_buf := buf, read_cap := cap, read_pos := read_pos c2 + length (concat ds)\<rparr>)"
    "length buf = cap" "read_pos c2 + length (concat ds) \<le> cap" "cap = read_cap c2 * 2 ^ k"
    "take (read_pos c2 + length (concat ds)) buf = take (read_pos c2) (read_buf c2) @ concat ds" by blast
  have t2: "take (read_pos c2) (read_buf c2) = take (read_pos c) (read_buf c) @ d" "read_pos c2 = read_pos c + length d"
    "read_cap c2 = ?cap"
    using memcpy_at_take(1) [OF room] r(3,4,5) by (simp_all add: c2_def)
  have "c1 = c\<lparr>read_buf := if read_cap c \<le> read_pos c then take (read_pos c) (read_buf c) @
      replicate (?cap - read_pos c) NUL else read_buf c, read_cap := ?cap\<rparr>"
    using c1 assms(1) by (auto simp: realloc_client_read_buf_def Let_def split: if_splits)
  then obtain buf1 where c1': "c1 = c\<lparr>read_buf := buf1, read_cap := ?cap\<rparr>" by blast
  have "cap = read_cap c * 2 ^ (if read_cap c \<le> read_pos c then Suc k else k)" using IH(4) t2(3) by simp
  then have "\<exists>k. cap = read_cap c * 2 ^ k" by blast
  moreover have "c2\<lparr>read_buf := buf, read_cap := cap, read_pos := read_pos c2 + length (concat ds)\<rparr> =
      c\<lparr>read_buf := buf, read_cap := cap, read_pos := read_pos c + length (concat (d # ds))\<rparr>"
    unfolding t2(2) by (simp add: c2_def c1')
  ultimately show ?case using IH(1-3,5) t2 step by (intro exI [of _ buf] exI [of _ cap]) (simp add: add.assoc)
qed

section \<open>What a command can touch\<close>

text \<open>
  The frame of a command: of the server the selected database and the counter, of the connection the
  reply, the user, the flags and the selected database, which stays in range.
\<close>

definition framed :: "'a server \<Rightarrow> client \<Rightarrow> 'a server \<Rightarrow> client \<Rightarrow> bool" where
  "framed s c s' c' \<longleftrightarrow>
     s' = s\<lparr>sv_db := sv_db s', cmd_executed := cmd_executed s'\<rparr> \<and> length (sv_db s') = length (sv_db s) \<and>
     (\<forall>i. i \<noteq> database_num c \<longrightarrow> sv_db s' ! i = sv_db s ! i) \<and>
     c' = c\<lparr>cl_builder := cl_builder c', database_num := database_num c', cl_user := cl_user c', cl_flags := cl_flags c'\<rparr> \<and>
     (database_num c' = database_num c \<or> database_num c' < num_databases s)"

lemma framed_refl [simp]: "framed s c s c"
  by (simp add: framed_def)

lemma framed_client:
  assumes "framed s c s' c'"
  shows "framed s c s' (c'\<lparr>cl_builder := b\<rparr>)" "framed s c s' (c'\<lparr>cl_user := u, cl_flags := f\<rparr>)"
    "n < num_databases s \<Longrightarrow> framed s c s' (c'\<lparr>database_num := n\<rparr>)"
  using assms unfolding framed_def by (cases c; cases c'; simp)+

lemma framed_server:
  assumes "framed s c s' c'"
  shows "framed s c (counted s') c'" "framed s c (db_put s' (database_num c) d) c'"
  using assms unfolding framed_def by (cases s; cases s'; simp add: counted_def db_put_def)+

lemma framed_answer: "answer f s1 c1 = Inr (s', c') \<Longrightarrow> framed s c s1 c1 \<Longrightarrow> framed s c s' c'"
  by (erule answer_frame) (simp add: framed_client)

lemma replies_frame: "replies fs c = Inr c' \<Longrightarrow> \<exists>b. c' = c\<lparr>cl_builder := b\<rparr>"
proof (induction fs arbitrary: c)
  case Nil
  then show ?case by (auto intro!: exI [of _ "cl_builder c"])
next
  case (Cons f fs)
  from Cons.prems obtain b where "replies fs (c\<lparr>cl_builder := b\<rparr>) = Inr c'"
    by (auto simp: reply_def res_bind_Inr)
  from Cons.IH [OF this] show ?case by auto
qed

lemma ht_iter_loop_frame:
  assumes "ht_iter_loop n body it c = Inr (go, c')" "P c"
    and "\<And>x c c' go. body x c = Inr (go, c') \<Longrightarrow> P c \<Longrightarrow> P c'"
  shows "P c'"
  using assms(1,2)
proof (induction n arbitrary: it c)
  case 0
  then show ?case by simp
next
  case (Suc n)
  show ?case
  proof (cases "hit_cur it")
    case None
    with Suc.prems show ?thesis by simp
  next
    case (Some w)
    obtain slot j where w: "w = (slot, j)" by (cases w)
    from Suc.prems(1) Some w obtain g s1 where
      b: "body (ht_entries (hit_ht it) ! slot ! j) c = Inr (g, s1)" by (auto simp: res_bind_Inr)
    then have "P s1" using assms(3) Suc.prems(2) by blast
    with Suc Some w b show ?thesis by (auto simp: res_bind_Inr split: if_splits)
  qed
qed

lemma framed_commands:
  "execute_set_command S s k v (database_num c) = Inr (r, s1) \<Longrightarrow> framed s c s1 c"
  "execute_del_command S s k (database_num c) = Inr (r, s1) \<Longrightarrow> framed s c s1 c"
  "execute_push_command S s v (database_num c) = Inr (i, s1) \<Longrightarrow> framed s c s1 c"
  "execute_pop_command s (database_num c) = Inr (ro, s1) \<Longrightarrow> framed s c s1 c"
  "execute_enque_command S s v (database_num c) = Inr (i, s1) \<Longrightarrow> framed s c s1 c"
  "execute_deque_command s (database_num c) = Inr (ro, s1) \<Longrightarrow> framed s c s1 c"
  "execute_zset_command S s v (database_num c) = Inr (sr, s1) \<Longrightarrow> framed s c s1 c"
  "execute_zdel_command S s v (database_num c) = Inr (sr, s1) \<Longrightarrow> framed s c s1 c"
  unfolding execute_set_command_def execute_del_command_def execute_push_command_def execute_pop_command_def
    execute_enque_command_def execute_deque_command_def execute_zset_command_def execute_zdel_command_def
  by (auto simp: res_bind_Inr case_prod_unfold intro!: framed_server)

lemma framed_auth:
  "execute_auth_command S s c u p = Inr (r, c1) \<Longrightarrow> framed s c s c1"
  by (auto simp: execute_auth_command_def res_bind_Inr framed_client
      split: object.splits prod.splits option.splits if_splits)

lemma framed_info: "execute_info S s c = Inr (s', c') \<Longrightarrow> framed s c s' c'"
  by (auto simp: execute_info_def res_bind_Inr dest!: replies_frame intro!: framed_server framed_client)

lemma framed_keys:
  assumes "execute_keys S s c = Inr (s', c')"
  shows "framed s c s' c'"
proof -
  have step: "framed s c s k'" if "reply f k = Inr k'" "framed s c s k" for f k k'
    using that by (auto simp: reply_def res_bind_Inr framed_client)
  have loop: "framed s c s k'" if "ht_iter_loop n (\<lambda>cur c. res_bind (reply (add_obj S (fst cur)) c) (\<lambda>c. Inr (True, c))) it k =
      Inr (go, k')" "reply f c = Inr k" for n it k go k' f
    using that(1) step [OF that(2) framed_refl] by (rule ht_iter_loop_frame) (auto simp: res_bind_Inr intro: step)
  show ?thesis
    using assms
    by (auto simp: execute_keys_def Let_def res_bind_Inr simp del: ht_iter_loop.simps split: if_splits
        intro!: framed_server dest: loop elim: framed_answer)
qed

lemma run_cmd_frame:
  assumes "run_cmd S s c cmd = Inr (s', c')"
  shows "framed s c s' c'"
proof -
  note r = assms [unfolded run_cmd_def Let_def]
  show ?thesis
  proof (cases "cmd_type cmd")
    case Select
    with r show ?thesis by (auto split: if_splits intro: framed_answer framed_answer [OF _ framed_client(3) [OF framed_refl]])
  qed (use r in \<open>auto simp: res_bind_Inr split: if_splits option.splits dest: framed_info framed_keys
      intro: framed_answer [OF _ framed_server(1)] framed_answer [OF _ framed_auth] framed_answer
        framed_commands\<close>)
qed

lemma execute_cmd_frame:
  assumes "execute_cmd S s c = Inr (s', c')"
  shows "framed s c s' c'"
  using assms by (auto simp: execute_cmd_def res_bind_Inr split: if_splits intro: run_cmd_frame framed_answer)

section \<open>The invariant of the server\<close>

definition conn_ok :: "'a server \<Rightarrow> client \<Rightarrow> bool" where
  "conn_ok s c \<longleftrightarrow> 0 \<le> cl_fd c \<and> database_num c < num_databases s \<and> buf_ok c"

text \<open>
  The databases are those that are counted, the event loop is in step with its back end, no two
  entries of the vector of connections are the same, and each points to a live connection in order.
\<close>

definition server_ok :: "('a \<Rightarrow> nat \<Rightarrow> 32 word) \<Rightarrow> 'a server \<Rightarrow> bool" where
  "server_ok watched s \<longleftrightarrow>
     0 < num_databases s \<and> length (sv_db s) = num_databases s \<and>
     ev_wf (sv_ev s) \<and> ev_synced watched (sv_ev s) \<and>
     vec_wf (sv_clients s) \<and> distinct (vec_list (sv_clients s)) \<and>
     (\<forall>p \<in> set (vec_list (sv_clients s)). \<exists>c. sv_mem s p = Some c \<and> conn_ok s c)"

lemma server_ok_mem:
  assumes "server_ok watched s" "conn_ok s c"
  shows "server_ok watched (s\<lparr>sv_mem := (sv_mem s)(p \<mapsto> c)\<rparr>)"
  using assms by (auto simp: server_ok_def conn_ok_def)

lemma server_ok_ev:
  assumes "server_ok watched s" "ev_wf ev" "ev_synced watched ev"
  shows "server_ok watched (s\<lparr>sv_ev := ev\<rparr>)"
  using assms by (auto simp: server_ok_def conn_ok_def)

lemma server_ok_frame:
  assumes "server_ok watched s" "framed s c s' c'" "conn_ok s c"
  shows "server_ok watched s'" "conn_ok s' c'" "sv_ev s' = sv_ev s" "sv_mem s' = sv_mem s"
proof -
  obtain ds k where s': "s' = s\<lparr>sv_db := ds, cmd_executed := k\<rparr>" "length ds = length (sv_db s)"
    using assms(2) unfolding framed_def by blast
  obtain b n u f where c': "c' = c\<lparr>cl_builder := b, database_num := n, cl_user := u, cl_flags := f\<rparr>"
    "n = database_num c \<or> n < num_databases s"
    using assms(2) unfolding framed_def by (metis client.select_convs(10) client.surjective client.update_convs)
  show "server_ok watched s'" "conn_ok s' c'" "sv_ev s' = sv_ev s" "sv_mem s' = sv_mem s"
    using assms(1,3) s' c' by (auto simp: server_ok_def conn_ok_def buf_ok_def)
qed

fun read_client :: "read_end \<Rightarrow> client" where
  "read_client (Read_done c) = c"
| "read_client (Read_closed c) = c"
| "read_client (Read_error c) = c"
| "read_client (Read_oom c) = c"

lemma read_loop_frame:
  assumes "conn_ok s c"
  shows "conn_ok s (read_client (read_loop al rs c)) \<and> cl_fd (read_client (read_loop al rs c)) = cl_fd c"
  using assms
proof (induction al rs c rule: read_loop.induct)
  case (1 al rs c)
  obtain r c1 where c1: "(if read_pos c \<ge> read_cap c then realloc_client_read_buf al c else (0, c)) = (r, c1)"
    by (cases "if read_pos c \<ge> read_cap c then realloc_client_read_buf al c else (0, c)")
  have ok: "conn_ok s c1" "cl_fd c1 = cl_fd c" "r \<noteq> - 1 \<Longrightarrow> read_pos c1 < read_cap c1"
    using c1 "1.prems" by (auto simp: realloc_client_read_buf_def conn_ok_def buf_ok_def Let_def split: if_splits)
  show ?case
  proof (cases "\<exists>d rs'. r \<noteq> - 1 \<and> rs = Read_bytes d # rs' \<and> d \<noteq> []")
    case False
    with c1 ok show ?thesis by (subst read_loop.simps, subst read_loop.simps) (auto split: list.splits read_result.splits)
  next
    case True
    then obtain d rs' where d: "r \<noteq> - 1" "rs = Read_bytes d # rs'" "d \<noteq> []" by blast
    define e where "e = take (read_cap c1 - read_pos c1) d"
    define c2 where "c2 = c1\<lparr>read_buf := memcpy_at (read_buf c1) (read_pos c1) e (length e), read_pos := read_pos c1 + length e\<rparr>"
    have room: "read_pos c1 + length e \<le> length (read_buf c1)" using ok by (auto simp: e_def conn_ok_def buf_ok_def)
    have "conn_ok s c2" "cl_fd c2 = cl_fd c"
      using ok room memcpy_at_take [OF room] by (simp_all add: c2_def conn_ok_def buf_ok_def)
    moreover have "read_loop al rs c = read_loop al rs' c2"
      using c1 d by (subst read_loop.simps) (simp add: c2_def e_def)
    moreover have "conn_ok s (read_client (read_loop al rs' c2)) \<and> cl_fd (read_client (read_loop al rs' c2)) = cl_fd c2"
      if "conn_ok s c2"
      using "1.IH" [OF c1 [symmetric] refl d(1) d(2) refl d(3) e_def] that by (simp add: c2_def)
    ultimately show ?thesis by simp
  qed
qed

lemma find_client_from_ok:
  assumes "\<forall>p \<in> set ps. mem p \<noteq> None"
  shows "\<exists>r. find_client_from mem fd ps i = Inr r \<and>
    (case r of None \<Rightarrow> \<forall>p \<in> set ps. cl_fd (the (mem p)) \<noteq> fd
     | Some (j, p, c) \<Rightarrow> i \<le> j \<and> j - i < length ps \<and> ps ! (j - i) = p \<and> mem p = Some c \<and> cl_fd c = fd)"
  using assms
proof (induction ps arbitrary: i)
  case Nil
  then show ?case by simp
next
  case (Cons p ps)
  from Cons.prems obtain c where c: "mem p = Some c" by auto
  from Cons.IH [of "Suc i"] Cons.prems obtain r where r: "find_client_from mem fd ps (Suc i) = Inr r"
    "case r of None \<Rightarrow> \<forall>p \<in> set ps. cl_fd (the (mem p)) \<noteq> fd
     | Some (j, p, c) \<Rightarrow> Suc i \<le> j \<and> j - Suc i < length ps \<and> ps ! (j - Suc i) = p \<and> mem p = Some c \<and> cl_fd c = fd"
    by auto
  show ?case
  proof (cases "cl_fd c = fd")
    case True
    with c show ?thesis by (simp add: client_compare_def)
  next
    case False
    with c r show ?thesis by (cases r) (auto simp: client_compare_def nth_Cons')
  qed
qed

lemma find_client_ok:
  assumes "server_ok watched s"
  obtains (none) "find_client s fd = Inr None"
  | (some) i p c where "find_client s fd = Inr (Some (i, p, c))" "i < length (vec_list (sv_clients s))"
      "vec_list (sv_clients s) ! i = p" "sv_mem s p = Some c" "cl_fd c = fd" "conn_ok s c"
proof -
  have live: "\<forall>p \<in> set (vec_list (sv_clients s)). sv_mem s p \<noteq> None"
    and ok: "sv_mem s p = Some c \<Longrightarrow> p \<in> set (vec_list (sv_clients s)) \<Longrightarrow> conn_ok s c" for p c
    using assms by (auto simp: server_ok_def)
  from find_client_from_ok [OF live, of fd 0] obtain r where r: "find_client s fd = Inr r"
    "case r of None \<Rightarrow> True
     | Some (j, p, c) \<Rightarrow> j < length (vec_list (sv_clients s)) \<and> vec_list (sv_clients s) ! j = p \<and> sv_mem s p = Some c \<and> cl_fd c = fd"
    unfolding find_client_def by (auto split: option.splits)
  show thesis
  proof (cases r)
    case None
    with r none show thesis by simp
  next
    case (Some x)
    obtain j p c where "x = (j, p, c)" by (cases x)
    with Some r some ok show thesis by auto
  qed
qed

lemma remove_nth_distinct:
  assumes "distinct xs" "i < length xs"
  shows "distinct (take i xs @ drop (Suc i) xs)" "xs ! i \<notin> set (take i xs @ drop (Suc i) xs)"
    "set (take i xs @ drop (Suc i) xs) \<subseteq> set xs"
proof -
  have "distinct (take i xs @ xs ! i # drop (Suc i) xs)" using assms id_take_nth_drop [of i xs] by simp
  then show "distinct (take i xs @ drop (Suc i) xs)" "xs ! i \<notin> set (take i xs @ drop (Suc i) xs)" by auto
  show "set (take i xs @ drop (Suc i) xs) \<subseteq> set xs" by (auto dest: in_set_takeD in_set_dropD)
qed

text \<open>
  What a new connection needs: the block of the struct is not in use, the descriptor is not negative,
  and it can be registered.
\<close>

definition accept_ok :: "'a senv \<Rightarrow> accept_result \<Rightarrow> 'a server \<Rightarrow> bool" where
  "accept_ok S acc s = (case acc of
     Accept_fail \<Rightarrow> True
   | Accepted cfd address port nonblocking \<Rightarrow>
       0 \<le> cfd \<and> sv_mem s (se_al S sizeof_client) = None \<and>
       (case ev_add_event (se_api S) (sv_ev s) cfd EV_READ Read_from_client (se_self S) of
          Inl _ \<Rightarrow> False | Inr (r, _) \<Rightarrow> r \<noteq> - 1))"

context event_api
begin

lemma drop_client_ok:
  assumes "server_ok watched s" "se_api S = A" "i < length (vec_list (sv_clients s))" "vec_list (sv_clients s) ! i = p"
    and "0 \<le> fd" "drop_client S i p fd m s = Inr s'"
  shows "server_ok watched s'"
proof -
  let ?v = "sv_clients s"
  note wf = assms(1) [unfolded server_ok_def]
  have v: "vec_list (snd (vec_remove_at 0 ?v i)) = take i (vec_list ?v) @ drop (Suc i) (vec_list ?v)"
    "vec_wf (snd (vec_remove_at 0 ?v i))"
    using vec_remove_at_spec(1,4) [where v = ?v and z = 0 and i = i] wf assms(3) by simp_all
  from assms(6) obtain ev where ev: "ev_delete_event A (sv_ev s) fd m = Inr ev"
    "s' = client_free p (s\<lparr>sv_clients := snd (vec_remove_at 0 ?v i), sv_ev := ev\<rparr>)"
    by (auto simp: drop_client_def assms(2) Let_def res_bind_Inr)
  from del_spec [OF _ _ assms(5) ev(1)] wf have "ev_wf ev" "ev_synced watched ev" by simp_all
  moreover have "distinct (take i (vec_list ?v) @ drop (Suc i) (vec_list ?v))"
    "p \<notin> set (take i (vec_list ?v) @ drop (Suc i) (vec_list ?v))"
    "set (take i (vec_list ?v) @ drop (Suc i) (vec_list ?v)) \<subseteq> set (vec_list ?v)"
    using wf remove_nth_distinct [OF _ assms(3)] assms(4) by simp_all
  ultimately show ?thesis
    using wf v by (auto simp: ev(2) client_free_def server_ok_def conn_ok_def)
qed

lemma read_from_client_ok:
  assumes "server_ok watched s" "se_api S = A" "0 \<le> fd" "read_from_client S rs fd m s = Inr s'"
  shows "server_ok watched s'"
  using assms(1)
proof (cases rule: find_client_ok [of _ _ fd])
  case none
  with assms(2,4) obtain ev where "ev_delete_event A (sv_ev s) fd EV_READ = Inr ev" "s' = s\<lparr>sv_ev := ev\<rparr>"
    by (auto simp: read_from_client_def res_bind_Inr)
  with del_spec [OF _ _ assms(3) this(1)] assms(1) show ?thesis
    using server_ok_ev [OF assms(1)] by (simp add: server_ok_def)
next
  case (some i p c)
  note read = read_loop_frame [OF some(6), of "se_al S" rs]
  show ?thesis
  proof (cases "read_loop (se_al S) rs c")
    case (Read_done c1)
    with assms(4) some(1) obtain s1 c2 where x: "execute_cmd S s c1 = Inr (s1, c2)"
      by (auto simp: read_from_client_def res_bind_Inr)
    have c1: "conn_ok s c1" using read Read_done by simp
    note fr = server_ok_frame [OF assms(1) execute_cmd_frame [OF x] c1]
    let ?c = "c2\<lparr>write_buf := builder_out (cl_builder c2), write_size := builder_len (cl_builder c2)\<rparr>"
    let ?c' = "?c\<lparr>read_buf := replicate (read_pos c2) NUL @ drop (read_pos c2) (read_buf c2), read_pos := 0\<rparr>"
    from assms(2,4) some(1) Read_done x obtain r ev where
      ev: "ev_add_event A (sv_ev s1) fd EV_WRITE Write_to_client (se_self S) = Inr (r, ev)"
        "s' = s1\<lparr>sv_ev := ev, sv_mem := (sv_mem s1)(p \<mapsto> (if r = - 1 then ?c else ?c'))\<rparr>"
      by (auto simp: read_from_client_def res_bind_Inr Let_def split: if_splits)
    from add_spec [OF _ _ assms(3) _ _ ev(1)] fr(1) have "ev_wf ev" "ev_synced watched ev"
      by (simp_all add: server_ok_def)
    from server_ok_mem [OF server_ok_ev [OF fr(1) this], of "if r = - 1 then ?c else ?c'" p] fr(2)
    show ?thesis by (simp add: ev(2) conn_ok_def buf_ok_def)
  next
    case (Read_closed c1)
    with assms(4) some(1) drop_client_ok [OF assms(1,2) some(2,3) assms(3)] show ?thesis
      by (simp add: read_from_client_def)
  next
    case (Read_error c1)
    with assms(4) some(1) server_ok_mem [OF assms(1), of c1 p] read show ?thesis
      by (auto simp: read_from_client_def)
  next
    case (Read_oom c1)
    with assms(4) some(1) drop_client_ok [OF assms(1,2) some(2,3) assms(3)] show ?thesis
      by (simp add: read_from_client_def)
  qed
qed

lemma write_to_client_ok:
  assumes "server_ok watched s" "se_api S = A" "0 \<le> fd" "write_to_client S ws fd m s = Inr (out, s')"
  shows "server_ok watched s'"
  using assms(1)
proof (cases rule: find_client_ok [of _ _ fd])
  case none
  with assms(2,4) obtain ev where "ev_delete_event A (sv_ev s) fd m = Inr ev" "s' = s\<lparr>sv_ev := ev\<rparr>"
    by (auto simp: write_to_client_def res_bind_Inr)
  with del_spec [OF _ _ assms(3) this(1)] assms(1) show ?thesis
    using server_ok_ev [OF assms(1)] by (simp add: server_ok_def)
next
  case (some i p c)
  let ?c = "c\<lparr>cl_builder := builder_reset (cl_builder c)\<rparr>"
  obtain fin sent where w: "write_loop ws (write_buf c) (write_size c) 0 = (fin, sent)"
    by (cases "write_loop ws (write_buf c) (write_size c) 0")
  note run = assms(4) [unfolded write_to_client_def some(1) res_bind_simps option.case prod.case w Let_def]
  show ?thesis
  proof (cases fin)
    case False
    with run assms(1) show ?thesis by simp
  next
    case True
    with run assms(2) obtain ev where ev: "ev_delete_event A (sv_ev s) fd EV_WRITE = Inr ev"
      "s' = s\<lparr>sv_ev := ev, sv_mem := (sv_mem s)(p \<mapsto> ?c)\<rparr>" by (simp add: res_bind_Inr) blast
    from del_spec [OF _ _ assms(3) ev(1)] assms(1) have "ev_wf ev" "ev_synced watched ev" by (simp_all add: server_ok_def)
    from server_ok_mem [OF server_ok_ev [OF assms(1) this], of ?c p] some(6) show ?thesis
      by (simp add: ev(2) conn_ok_def buf_ok_def)
  qed
qed

lemma server_accept_ok:
  assumes "server_ok watched s" "se_api S = A" "accept_ok S acc s" "server_accept S acc s = Inr s'"
  shows "server_ok watched s'"
proof (cases acc)
  case Accept_fail
  with assms(1,4) show ?thesis by (simp add: server_accept_def)
next
  case (Accepted cfd ad port nb)
  show ?thesis
  proof (cases "nb \<and> create_client S cfd ad port \<noteq> None")
    case False
    with Accepted assms(1,4) show ?thesis
      by (cases "create_client S cfd ad port") (auto simp: server_accept_def split: if_splits)
  next
    case True
    then obtain p c where cc: "create_client S cfd ad port = Some (p, c)" by auto
    then have p: "p = se_al S sizeof_client" "conn_ok s c"
      using Accepted assms(1,3)
      by (auto simp: create_client_def server_ok_def conn_ok_def buf_ok_def accept_ok_def split: if_splits)
    have fresh: "sv_mem s p = None" "0 \<le> cfd" using assms(3) Accepted p(1) by (auto simp: accept_ok_def)
    then have new: "p \<notin> set (vec_list (sv_clients s))" using assms(1) by (auto simp: server_ok_def)
    obtain add v where v: "vec_push (se_al S) 0 (sv_clients s) p = (add, v)"
      by (cases "vec_push (se_al S) 0 (sv_clients s) p")
    have "vec_wf (sv_clients s)" using assms(1) by (simp add: server_ok_def)
    note push = vec_push_spec [OF this v]
    obtain r ev where ev: "ev_add_event A (sv_ev s) cfd EV_READ Read_from_client (se_self S) = Inr (r, ev)" "r \<noteq> - 1"
      using assms(2,3) Accepted by (auto simp: accept_ok_def split: sum.splits prod.splits)
    from add_spec [OF _ _ fresh(2) _ _ ev(1)] assms(1) have evw: "ev_wf ev" "ev_synced watched ev"
      by (simp_all add: server_ok_def)
    let ?s = "s\<lparr>sv_mem := (sv_mem s)(p \<mapsto> c)\<rparr>"
    have s': "s' = (if add = - 1 then ?s\<lparr>sv_clients := v\<rparr> else ?s\<lparr>sv_clients := v, sv_ev := ev\<rparr>)"
      using assms(2,4) Accepted True cc v ev by (simp add: server_accept_def Let_def split: if_splits)
    have ok: "server_ok watched ?s" by (rule server_ok_mem [OF assms(1) p(2)])
    show ?thesis
    proof (cases "add = - 1")
      case True
      with push(4) ok s' show ?thesis by simp
    next
      case False
      with push have "vec_wf v" "vec_list v = vec_list (sv_clients s) @ [p]" by auto
      with server_ok_ev [OF ok evw] new p(2) False show ?thesis by (auto simp: s' server_ok_def conn_ok_def)
    qed
  qed
qed

end

text \<open>
  One callback of the event loop, with the memory that is free and the clock at that time and any results of the
  system calls; and any number of callbacks.
\<close>

abbreviation at_call :: "allocator \<Rightarrow> 64 word \<Rightarrow> 'a senv \<Rightarrow> 'a senv" where
  "at_call al now S \<equiv> (with_al al S)\<lparr>se_now := now\<rparr>"

inductive srv_step :: "'a senv \<Rightarrow> 'a server \<Rightarrow> 'a server \<Rightarrow> bool" for S where
  step_accept: "accept_ok (at_call al now S) acc s \<Longrightarrow> server_accept (at_call al now S) acc s = Inr s' \<Longrightarrow> srv_step S s s'"
| step_read: "0 \<le> fd \<Longrightarrow> read_from_client (at_call al now S) rs fd m s = Inr s' \<Longrightarrow> srv_step S s s'"
| step_write: "0 \<le> fd \<Longrightarrow> write_to_client (at_call al now S) ws fd m s = Inr (out, s') \<Longrightarrow> srv_step S s s'"

inductive srv_run :: "'a senv \<Rightarrow> 'a server \<Rightarrow> 'a server \<Rightarrow> bool" for S where
  run_refl: "srv_run S s s"
| run_step: "srv_run S s s1 \<Longrightarrow> srv_step S s1 s' \<Longrightarrow> srv_run S s s'"

lemma with_al_api [simp]: "se_api (with_al al S) = se_api S"
  by (simp add: with_al_def)

context event_api
begin

lemma step_keeps: "srv_step S s s' \<Longrightarrow> se_api S = A \<Longrightarrow> server_ok watched s \<Longrightarrow> server_ok watched s'"
proof (induction rule: srv_step.induct)
  case (step_accept al now acc s s')
  then show ?case using server_accept_ok [of s "at_call al now S" acc s'] by simp
next
  case (step_read fd al now rs m s s')
  then show ?case using read_from_client_ok [of s "at_call al now S" fd rs m s'] by simp
next
  case (step_write fd al now ws m s out s')
  then show ?case using write_to_client_ok [of s "at_call al now S" fd ws m out s'] by simp
qed

lemma run_keeps: "srv_run S s s' \<Longrightarrow> se_api S = A \<Longrightarrow> server_ok watched s \<Longrightarrow> server_ok watched s'"
  by (induction rule: srv_run.induct) (auto intro: step_keeps)

end

text \<open>The callbacks as the loop calls them are steps.\<close>

lemma run_handler_steps:
  assumes "run_handler S ios f fd d m (s, i, out) = Inr (s', i', out')"
    and "accept_ok (at_call (io_al (ios i)) (io_now (ios i)) S) (io_accept (ios i)) s"
  shows "srv_step S s s'"
proof (cases f)
  case Server_accept
  with assms show ?thesis by (auto simp: run_handler_def Let_def res_bind_Inr intro: step_accept)
next
  case Read_from_client
  with assms(1) show ?thesis by (auto simp: run_handler_def Let_def res_bind_Inr intro: step_read [of "int fd"])
next
  case Write_to_client
  with assms(1) show ?thesis by (auto simp: run_handler_def Let_def res_bind_Inr intro: step_write [of "int fd"])
qed

lemma server_loop_runs:
  assumes "server_loop S ios polls s = Inr (fin, s', i, out)"
    and "\<forall>s1 i. srv_run S s s1 \<longrightarrow> accept_ok (at_call (io_al (ios i)) (io_now (ios i)) S) (io_accept (ios i)) s1"
  shows "srv_run S s s'"
proof -
  have "callbacks_keep (run_handler S ios) (\<lambda>st. srv_run S s (fst st))"
    unfolding callbacks_keep_def using assms(2) run_handler_steps run_step by fastforce
  from ev_await_keeps [OF this _ assms(1) [unfolded server_loop_def]] show ?thesis by (simp add: run_refl)
qed

section \<open>An exchange\<close>

lemma find_client_from_upd:
  assumes "find_client_from mem fd ps i = Inr (Some (j, p, c))" "cl_fd c' = fd" "cl_fd c = fd" "mem p = Some c"
  shows "find_client_from (mem(p \<mapsto> c')) fd ps i = Inr (Some (j, p, c'))"
  using assms(1)
proof (induction ps arbitrary: i)
  case Nil
  then show ?case by simp
next
  case (Cons q ps)
  then obtain k where k: "mem q = Some k" by (cases "mem q") simp_all
  show ?case
  proof (cases "cl_fd k = fd")
    case True
    with Cons.prems k assms(2) show ?thesis by (simp add: client_compare_def)
  next
    case False
    with k assms(3,4) have "q \<noteq> p" by auto
    with False Cons k show ?thesis by (simp add: client_compare_def)
  qed
qed

lemma find_client_upd:
  assumes "find_client s fd = Inr (Some (j, p, c))" "server_ok watched s" "cl_fd c' = fd"
    and "sv_clients s' = sv_clients s" "sv_mem s' = (sv_mem s)(p \<mapsto> c')"
  shows "find_client s' fd = Inr (Some (j, p, c'))"
  using assms(2)
proof (cases rule: find_client_ok [of _ _ fd])
  case none
  with assms(1) show ?thesis by simp
next
  case (some j' p' k)
  with assms show ?thesis by (auto simp: find_client_def intro!: find_client_from_upd)
qed

lemma framed_fields:
  assumes "framed s c s' c'"
  shows "sv_clients s' = sv_clients s" "sv_mem s' = sv_mem s" "sv_ev s' = sv_ev s" "cl_fd c' = cl_fd c"
    "num_databases s' = num_databases s" "read_pos c' = read_pos c" "read_cap c' = read_cap c" "read_buf c' = read_buf c"
proof -
  obtain ds k where "s' = s\<lparr>sv_db := ds, cmd_executed := k\<rparr>" using assms unfolding framed_def by blast
  then show "sv_clients s' = sv_clients s" "sv_mem s' = sv_mem s" "sv_ev s' = sv_ev s" "num_databases s' = num_databases s"
    by simp_all
  obtain b n u f where "c' = c\<lparr>cl_builder := b, database_num := n, cl_user := u, cl_flags := f\<rparr>"
    using assms unfolding framed_def by blast
  then show "cl_fd c' = cl_fd c" "read_pos c' = read_pos c" "read_cap c' = read_cap c" "read_buf c' = read_buf c"
    by simp_all
qed

lemma write_loop_once: "length t \<le> n \<Longrightarrow> take m buf = t \<Longrightarrow> length t = m \<Longrightarrow> write_loop [Write_ok n] buf m 0 = (True, t)"
  by (auto simp: Let_def min_def)

text \<open>What a read callback does with the chunks of a request.\<close>

lemma read_serves:
  assumes "find_client s fd = Inr (Some (i, p, c))" "server_ok watched s" "session_ok S s c" "env_ok S"
    and "buf_ok c" "read_pos c = 0" "vstr_str (cl_builder c) = []"
    and "concat ds = request (se_fmt_g S) a" "reads_fit (read_cap c) 0 ds"
    and "acmd_ok a" "\<forall>v \<in> set (acmd_args a). wire (se_env S) (se_fmt_g S) v"
    and "alloc_fresh (se_al S) (db_queue (sv_db s ! database_num c))"
    and "(r, st) = spec_server a (abs_state s c)" "length (reply_text (se_fmt_g S) r) \<le> VSTR_MAX_LARGE_SIZE"
    and "ev_add_event (se_api S) (sv_ev s) fd EV_WRITE Write_to_client (se_self S) = Inr (0, ev)"
  obtains s1 c1 where "read_from_client S (map Read_bytes ds @ [Read_again]) fd m s = Inr s1"
    "sv_clients s1 = sv_clients s" "sv_mem s1 = (sv_mem s)(p \<mapsto> c1)" "cl_fd c1 = cl_fd c" "session_ok S s1 c1"
    "abs_state s1 c1 = st" "read_pos c1 = 0" "vstr_str (cl_builder c1) = reply_text (se_fmt_g S) r"
    "vstr_live (cl_builder c1)" "write_buf c1 = builder_out (cl_builder c1)" "write_size c1 = builder_len (cl_builder c1)"
proof -
  have al: "alloc_total (se_al S)" using assms(4) by (simp add: env_ok_def)
  from read_loop_stores [OF al assms(5), of ds "[]"] assms(6,9) obtain buf cap where
    rd: "read_loop (se_al S) (map Read_bytes ds @ [Read_again]) c =
        Read_done (c\<lparr>read_buf := buf, read_cap := cap, read_pos := length (concat ds)\<rparr>)"
      "length (concat ds) \<le> length buf" "take (length (concat ds)) buf = concat ds" by auto
  define c0 where "c0 = c\<lparr>read_buf := buf, read_cap := cap, read_pos := length (concat ds)\<rparr>"
  have c0: "session_ok S s c0" "read_pos c0 \<le> length (read_buf c0)" "abs_state s c0 = abs_state s c"
    "take (read_pos c0) (read_buf c0) = request (se_fmt_g S) a" "has_room c0 (reply_text (se_fmt_g S) r)"
    using assms(3,7,8,14) rd by (simp_all add: c0_def session_ok_def abs_state_def has_room_def)
  have f0: "alloc_fresh (se_al S) (db_queue (sv_db s ! database_num c0))" using assms(12) by (simp add: c0_def)
  have sp: "(r, st) = spec_server a (abs_state s c0)" using assms(13) c0(3) by simp
  from execute_cmd_spec [OF c0(1) assms(4) c0(2,4) assms(10,11) f0 sp c0(5)] obtain s1 c1 where
    x: "execute_cmd S s c0 = Inr (s1, c1)" "session_ok S s1 c1" "abs_state s1 c1 = st"
      "vstr_str (cl_builder c1) = vstr_str (cl_builder c0) @ reply_text (se_fmt_g S) r" by blast
  note fr = framed_fields [OF execute_cmd_frame [OF x(1)]]
  let ?c = "c1\<lparr>write_buf := builder_out (cl_builder c1), write_size := builder_len (cl_builder c1),
    read_buf := replicate (read_pos c1) NUL @ drop (read_pos c1) (read_buf c1), read_pos := 0\<rparr>"
  let ?s = "s1\<lparr>sv_ev := ev, sv_mem := (sv_mem s1)(p \<mapsto> ?c)\<rparr>"
  have "read_from_client S (map Read_bytes ds @ [Read_again]) fd m s = Inr ?s"
    unfolding read_from_client_def
    by (simp add: assms(1,15) rd(1) c0_def [symmetric] x(1) fr(3))
  then show thesis
    by (rule that [of ?s ?c]) (use fr x assms(7) in \<open>simp_all add: session_ok_def abs_state_def c0_def\<close>)
qed

lemma exchange_spec:
  assumes "event_api (se_api S) watched" "server_ok watched s" "find_client s fd = Inr (Some (i, p, c))"
    and "session_ok S s c" "env_ok S" "read_pos c = 0" "vstr_str (cl_builder c) = []"
    and "concat ds = request (se_fmt_g S) a" "reads_fit (read_cap c) 0 ds"
    and "acmd_ok a" "\<forall>v \<in> set (acmd_args a). wire (se_env S) (se_fmt_g S) v"
    and "alloc_fresh (se_al S) (db_queue (sv_db s ! database_num c))"
    and "(r, st) = spec_server a (abs_state s c)" "length (reply_text (se_fmt_g S) r) \<le> VSTR_MAX_LARGE_SIZE"
    and "ev_add_event (se_api S) (sv_ev s) fd EV_WRITE Write_to_client (se_self S) = Inr (0, ev)"
    and "length (reply_text (se_fmt_g S) r) \<le> n"
  shows "\<exists>s1 s2 c2. read_from_client S (map Read_bytes ds @ [Read_again]) fd m s = Inr s1 \<and>
    write_to_client S [Write_ok n] fd m' s1 = Inr (reply_text (se_fmt_g S) r, s2) \<and>
    server_ok watched s2 \<and> find_client s2 fd = Inr (Some (i, p, c2)) \<and> session_ok S s2 c2 \<and>
    abs_state s2 c2 = st \<and> read_pos c2 = 0 \<and> vstr_str (cl_builder c2) = []"
proof -
  have c: "conn_ok s c" "cl_fd c = fd"
    using assms(2) by (cases rule: find_client_ok [of _ _ fd]; use assms(3) in auto)+
  then have buf: "buf_ok c" "0 \<le> fd" by (simp_all add: conn_ok_def)
  from read_serves [OF assms(3,2,4,5) buf(1) assms(6-15), of m] obtain s1 c1 where
    s1: "read_from_client S (map Read_bytes ds @ [Read_again]) fd m s = Inr s1"
      "sv_clients s1 = sv_clients s" "sv_mem s1 = (sv_mem s)(p \<mapsto> c1)" "cl_fd c1 = fd" "session_ok S s1 c1"
      "abs_state s1 c1 = st" "read_pos c1 = 0" "vstr_str (cl_builder c1) = reply_text (se_fmt_g S) r"
      "vstr_live (cl_builder c1)" "write_buf c1 = builder_out (cl_builder c1)" "write_size c1 = builder_len (cl_builder c1)"
    using c(2) by metis
  have ok1: "server_ok watched s1" by (rule event_api.read_from_client_ok [OF assms(1,2) refl buf(2) s1(1)])
  have f1: "find_client s1 fd = Inr (Some (i, p, c1))" by (rule find_client_upd [OF assms(3,2) s1(4,2,3)])
  have "vstr_len (cl_builder c1) \<le> length (vstr_data (cl_builder c1))"
    using vstr_len_le_data [of "cl_builder c1"] s1(9) by (simp add: vstr_live_wf)
  then have "length (reply_text (se_fmt_g S) r) = vstr_len (cl_builder c1)"
    unfolding s1(8) [symmetric] by (simp add: vstr_str_def)
  then have w: "write_loop [Write_ok n] (write_buf c1) (write_size c1) 0 = (True, reply_text (se_fmt_g S) r)"
    using s1(8,10,11) assms(16) by (intro write_loop_once) (simp_all add: builder_out_def builder_len_def vstr_str_def)
  obtain ev2 where e2: "ev_delete_event (se_api S) (sv_ev s1) fd EV_WRITE = Inr ev2"
    using ev_wf_no_abort(2) [OF _ buf(2), of "sv_ev s1" "se_api S" EV_WRITE] ok1 by (auto simp: server_ok_def)
  let ?c2 = "c1\<lparr>cl_builder := builder_reset (cl_builder c1)\<rparr>"
  let ?s2 = "s1\<lparr>sv_ev := ev2, sv_mem := (sv_mem s1)(p \<mapsto> ?c2)\<rparr>"
  have wr: "write_to_client S [Write_ok n] fd m' s1 = Inr (reply_text (se_fmt_g S) r, ?s2)"
    unfolding write_to_client_def f1 res_bind_simps option.case prod.case w Let_def using e2 by simp
  have "server_ok watched ?s2" by (rule event_api.write_to_client_ok [OF assms(1) ok1 refl buf(2) wr])
  moreover have "find_client ?s2 fd = Inr (Some (i, p, ?c2))" 
    by (rule find_client_upd [OF f1 ok1]) (simp_all add: s1(4))
  ultimately show ?thesis
    using s1(1,5-7) wr
    by (intro exI [of _ s1] exI [of _ ?s2] exI [of _ ?c2]) (simp add: session_ok_def abs_state_def builder_reset_def)
qed

section \<open>Properties\<close>


lemma ex_server_ok: "0 < length ds \<Longrightarrow> server_ok select_watched (ex_server ds us)"
proof -
  have "last_used (replicate 10 (no_event :: handler ev_file_event)) k = - 1" if "k \<le> 10" for k
    using that by (induction k) (simp_all add: no_event_def)
  then have "ev_wf (sv_ev (ex_server ds us))" by (simp add: ev_wf_def ex_server_def no_event_def)
  then show "server_ok select_watched (ex_server ds us)" if "0 < length ds"
    using that by (auto simp: server_ok_def ex_server_def ev_synced_def select_watched_def vec_wf_def vec_list_def no_event_def)
qed



definition ex_ios :: "nat \<Rightarrow> io" where
  "ex_ios i = \<lparr>io_al = (\<lambda>_. 4096), io_now = 0, io_accept = Accept_fail, io_read = [], io_write = []\<rparr>"



definition ex_conn :: client where
  "ex_conn = (ex_client 1)\<lparr>read_buf := replicate 4096 NUL\<rparr>"

definition ex_connected :: "lexidb list \<Rightarrow> select_api server" where
  "ex_connected ds = (ex_server ds ex_users)\<lparr>sv_clients := Vec 4096 1 2 8 [4096, 0], sv_mem := [4096 \<mapsto> ex_conn]\<rparr>"

lemma ex_connected_ok:
  assumes "session_ok ex_env (ex_server ds ex_users) (ex_client 1)"
  shows "server_ok select_watched (ex_connected ds)" "find_client (ex_connected ds) 5 = Inr (Some (0, 4096, ex_conn))"
    "session_ok ex_env (ex_connected ds) ex_conn"
proof -
  have "0 < length ds" using assms by (auto simp: session_ok_def ex_server_def)
  from ex_server_ok [OF this, of ex_users] this show "server_ok select_watched (ex_connected ds)"
    by (auto simp: server_ok_def ex_connected_def vec_wf_def vec_list_def conn_ok_def buf_ok_def ex_conn_def
        ex_client_def ex_server_def)
  show "find_client (ex_connected ds) 5 = Inr (Some (0, 4096, ex_conn))"
    by (simp add: find_client_def ex_connected_def vec_list_def client_compare_def ex_conn_def ex_client_def)
  show "session_ok ex_env (ex_connected ds) ex_conn"
    using assms by (simp add: session_ok_def ex_connected_def ex_conn_def)
qed

lemma ex_add_event:
  "\<exists>ev. ev_add_event (se_api ex_env) (sv_ev (ex_connected ds)) 5 EV_WRITE Write_to_client (se_self ex_env) = Inr (0, ev)"
  by (simp add: ev_add_event_def ex_connected_def ex_server_def ex_env_def no_event_def Let_def
      select_ops_def select_api_add_event_def)


text \<open>
  C13. Commands stay within their database: whatever bytes a connection sends, \<^verbatim>\<open>execute_cmd\<close> changes of
  the server only the database that the connection has selected and the counter of commands, and of the
  connection only its reply, user, flags and selected database, and a database is selected only in range.
\<close>

theorem command_isolation:
  assumes "execute_cmd S s c = Inr (s', c')"
  shows "s' = s\<lparr>sv_db := sv_db s', cmd_executed := cmd_executed s'\<rparr> \<and> length (sv_db s') = length (sv_db s) \<and>
    (\<forall>i. i \<noteq> database_num c \<longrightarrow> sv_db s' ! i = sv_db s ! i) \<and>
    c' = c\<lparr>cl_builder := cl_builder c', database_num := database_num c', cl_user := cl_user c', cl_flags := cl_flags c'\<rparr> \<and>
    (database_num c' = database_num c \<or> database_num c' < num_databases s)"
  using execute_cmd_frame [OF assms] unfolding framed_def .

theorem command_isolation_witness:
  "\<exists>ds s' c'. execute_cmd ex_env (ex_server ds ex_users) (deliver (\<lambda>_. ''1'') (ASet (VStr ''k'') (VInt 7)) (ex_client 1)) = Inr (s', c') \<and>
     length ds = 16 \<and> sv_db s' ! 3 = ds ! 3"
proof -
  from ex_session obtain ds where ds: "lexidb_new (\<lambda>_. 4096) (replicate 16 NUL) 16 = Inr ds"
    "session_ok ex_env (ex_server ds ex_users) (ex_client 1)" "env_ok ex_env"
    "alloc_fresh (\<lambda>_. 4096) (db_queue (sv_db (ex_server ds ex_users) ! 0))" .
  let ?a = "ASet (VStr ''k'') (VInt 7)" and ?s = "ex_server ds ex_users"
  let ?c = "deliver (\<lambda>_. ''1'') ?a (ex_client 1)"
  obtain r st where st: "(r, st) = spec_server ?a (abs_state ?s ?c)" by (metis prod.exhaust)
  then have r: "r = R_ok" by (simp add: spec_server_def)
  have g: "se_fmt_g ex_env = (\<lambda>_. ''1'')" by (simp add: ex_env_def)
  have "\<exists>s' c'. execute_cmd ex_env ?s ?c = Inr (s', c') \<and> session_ok ex_env s' c' \<and> abs_state s' c' = st \<and>
      vstr_str (cl_builder c') = vstr_str (cl_builder ?c) @ reply_text (se_fmt_g ex_env) r"
  proof (rule execute_cmd_spec [OF session_ok_deliver [OF ds(2)] ds(3) _ _ _ _ _ st])
    show "has_room ?c (reply_text (se_fmt_g ex_env) r)" by (simp add: r has_room_def VSTR_MAX_LARGE_SIZE_def)
    show "alloc_fresh (se_al ex_env) (db_queue (sv_db ?s ! database_num ?c))"
      using ds(4) by (simp add: ex_env_def ex_client_def)
  qed (simp_all add: ex_env_def VSTR_MAX_LARGE_SIZE_def)
  then obtain s' c' where x: "execute_cmd ex_env ?s ?c = Inr (s', c')" by blast
  have "database_num ?c = 0" "sv_db ?s = ds" by (simp_all add: ex_client_def ex_server_def)
  with command_isolation [OF x] have "sv_db s' ! 3 = ds ! 3" by simp
  with x lexidb_new_ok(1) [OF ds(1)] show ?thesis by blast
qed

text \<open>
  C27. The read buffer never overflows and loses nothing: for a buffer in order and memory available,
  the reading loop collects all the bytes that \<^verbatim>\<open>read\<close> returned, in order, behind what the buffer held,
  and the capacity grows by doubling only, to at least the bytes held.
\<close>

theorem read_loop_collects:
  assumes "alloc_total al" "buf_ok c" "reads_fit (read_cap c) (read_pos c) ds"
  shows "\<exists>buf cap. read_loop al (map Read_bytes ds @ Read_again # rs) c =
      Read_done (c\<lparr>read_buf := buf, read_cap := cap, read_pos := read_pos c + length (concat ds)\<rparr>) \<and>
    length buf = cap \<and> read_pos c + length (concat ds) \<le> cap \<and> (\<exists>k. cap = read_cap c * 2 ^ k) \<and>
    take (read_pos c + length (concat ds)) buf = take (read_pos c) (read_buf c) @ concat ds"
  using assms by (rule read_loop_stores)

theorem read_loop_collects_witness:
  "\<exists>buf cap. read_loop (\<lambda>_. 4096) [Read_bytes (replicate 4096 (CHR ''a'')), Read_bytes ''bc'', Read_again] ex_conn =
      Read_done (ex_conn\<lparr>read_buf := buf, read_cap := cap, read_pos := 4098\<rparr>) \<and> 4098 \<le> cap \<and>
      take 4098 buf = replicate 4096 (CHR ''a'') @ ''bc''"
  using read_loop_collects [of "\<lambda>_. 4096" ex_conn "[replicate 4096 (CHR ''a''), ''bc'']" "[]"]
  by (auto simp: buf_ok_def ex_conn_def ex_client_def)

text \<open>
  C33. A connection that cannot be registered breaks the server: when \<^verbatim>\<open>accept\<close> returns a descriptor
  that the event table (ten entries, see \<^verbatim>\<open>server_new\<close>) does not hold, \<^verbatim>\<open>server_accept\<close> frees the connection
  but leaves its address in the vector of connections, and the next lookup that walks past the other
  connections reads the freed memory.
\<close>

theorem refused_connection_dangles:
  assumes "alloc_total (se_al S)" "server_ok watched s" "sv_mem s (se_al S sizeof_client) = None"
    and "ev_num_fds (sv_ev s) \<le> cfd" "find_client s fd = Inr None"
  shows "\<exists>s'. server_accept S (Accepted cfd address port True) s = Inr s' \<and> find_client s' fd = Inl Dangling"
proof -
  let ?p = "se_al S sizeof_client"
  obtain c where c: "create_client S cfd address port = Some (?p, c)" using assms(1) by (simp add: create_client_def)
  have wf: "vec_wf (sv_clients s)" and live: "\<forall>p \<in> set (vec_list (sv_clients s)). sv_mem s p \<noteq> None"
    using assms(2) by (auto simp: server_ok_def)
  from vst.push_law [OF wf assms(1), of 0 ?p] obtain v where
    v: "vec_push (se_al S) 0 (sv_clients s) ?p = (0, v)" "vec_list v = vec_list (sv_clients s) @ [?p]" by blast
  let ?s = "s\<lparr>sv_mem := (sv_mem s)(?p := None), sv_clients := v\<rparr>"
  have "ev_add_event (se_api S) (sv_ev s) cfd EV_READ Read_from_client (se_self S) = Inr (- 1, sv_ev s)"
    using assms(4) by (simp add: ev_add_event_def)
  then have "server_accept S (Accepted cfd address port True) s = Inr ?s"
    using c v(1) by (simp add: server_accept_def client_free_def)
  moreover have "find_client_from mem fd (ps @ [q]) i = Inl Dangling"
    if "find_client_from mem fd ps i = Inr None" "mem q = None" for mem ps q i
    using that by (induction ps arbitrary: i) (auto split: option.splits if_splits)
  ultimately show ?thesis using assms(3,5) v(2) by (auto simp: find_client_def fun_upd_idem)
qed

theorem refused_connection_dangles_witness:
  "\<exists>ds s'. server_accept ex_env (Accepted 10 0 0 True) (ex_server ds ex_users) = Inr s' \<and> find_client s' 5 = Inl Dangling"
proof -
  from ex_session obtain ds where "session_ok ex_env (ex_server ds ex_users) (ex_client 1)" .
  then have "0 < length ds" by (auto simp: session_ok_def ex_server_def)
  from refused_connection_dangles [OF _ ex_server_ok [OF this], of ex_env ex_users 10 5 0 0] show ?thesis
    by (auto simp: ex_env_def ex_server_def find_client_def vec_list_def)
qed

text \<open>
  C35. A reply that the socket takes in parts arrives damaged: after a partial \<^verbatim>\<open>write\<close> the loop passes the
  buffer from its start again, so a peer whose socket takes \<^verbatim>\<open>n\<close> bytes first and the rest of the count next
  receives the first \<^verbatim>\<open>n\<close> bytes of the reply and then a prefix of it again.
\<close>

theorem partial_write_repeats:
  assumes "0 < n" "n < length txt" "length txt - n \<le> k" "k \<le> length txt"
  shows "write_loop [Write_ok n, Write_ok k] txt (length txt) 0 = (True, take n txt @ take k txt)"
  using assms by (auto simp: min_def Let_def)

theorem partial_write_repeats_witness:
  "write_loop [Write_ok 3, Write_ok 4] (''+PONG'' @ CRLF) 7 0 = (True, ''+PO'' @ ''+PON'')"
  using partial_write_repeats [of 3 "''+PONG'' @ CRLF" 4] by simp



end
