(* ===== verification/Networking.thy ===== *)
theory Networking
  imports Vstr
begin

unbundle bit_operations_syntax

text \<open>
  Addresses and sockets (\<^verbatim>\<open>src/src/networking.c\<close>): the parser of dotted addresses, on the machine integers of the code,
  and the functions around the system calls, which are arguments.
\<close>

section \<open>Parsing an address\<close>

text \<open>
  The loop of \<^verbatim>\<open>parse_addr\<close> over the characters, with \<^verbatim>\<open>addr\<close>, \<^verbatim>\<open>shift\<close> and \<^verbatim>\<open>t\<close>: the number of a part is
  computed in \<^verbatim>\<open>int\<close> and stored in an \<^verbatim>\<open>int8_t\<close>, the conversion to \<^verbatim>\<open>uint32_t\<close> extends its sign, and a shift
  of 32 or more (from the fifth part on, when \<^verbatim>\<open>shift\<close> has wrapped) takes the count modulo 32, as the
  target does.
\<close>

fun parse_addr_loop :: "string \<Rightarrow> 32 word \<Rightarrow> 8 word \<Rightarrow> 8 word \<Rightarrow> 32 word" where
  "parse_addr_loop [] addr shift t = addr XOR scast t"
| "parse_addr_loop (at # cs) addr shift t =
     (if at = CHR ''.''
      then parse_addr_loop cs (addr XOR push_bit (unat shift mod 32) (scast t)) (shift - 8) 0
      else parse_addr_loop cs addr shift (of_int (sint t * 10 + (of_char at - 48))))"

definition parse_addr :: "string \<Rightarrow> 32 word" where
  "parse_addr addr_str = parse_addr_loop (c_str addr_str) 0 24 0"

section \<open>Sockets\<close>

text \<open>
  The struct \<^verbatim>\<open>sockaddr_in\<close>, with its port and its address in network byte order, and its bytes in memory. The processor
  stores the low byte first.
\<close>

record sockaddr_in =
  sin_family :: "16 word"
  sin_port :: "16 word"
  s_addr :: "32 word"

abbreviation AF_INET :: "16 word" where "AF_INET \<equiv> 2"
abbreviation SOCK_STREAM :: "32 word" where "SOCK_STREAM \<equiv> 1"
abbreviation SOCK_NONBLOCK :: "32 word" where "SOCK_NONBLOCK \<equiv> 0x800"
abbreviation O_NONBLOCK :: "32 word" where "O_NONBLOCK \<equiv> 0x800"

definition htons :: "16 word \<Rightarrow> 16 word" where
  "htons x = push_bit 8 x OR drop_bit 8 x"

definition htonl :: "32 word \<Rightarrow> 32 word" where
  "htonl x = push_bit 24 x OR push_bit 16 (take_bit 8 (drop_bit 8 x)) OR push_bit 8 (take_bit 8 (drop_bit 16 x)) OR drop_bit 24 x"

definition sockaddr_bytes :: "sockaddr_in \<Rightarrow> string" where
  "sockaddr_bytes sa =
     le_bytes 2 (unat (sin_family sa)) @ le_bytes 2 (unat (sin_port sa)) @ le_bytes 4 (unat (s_addr sa)) @ replicate 8 NUL"

definition tcp_address :: "32 word \<Rightarrow> 16 word \<Rightarrow> sockaddr_in" where
  "tcp_address addr port = \<lparr>sin_family = AF_INET, sin_port = htons port, s_addr = htonl addr\<rparr>"

definition create_tcp_socket :: "(16 word \<Rightarrow> 32 word \<Rightarrow> int \<Rightarrow> int) \<Rightarrow> int \<Rightarrow> int" where
  "create_tcp_socket socket non_blocking =
     (if non_blocking \<noteq> 0 then socket AF_INET (SOCK_STREAM OR SOCK_NONBLOCK) 0 else socket AF_INET SOCK_STREAM 0)"

definition tcp_bind :: "(int \<Rightarrow> sockaddr_in \<Rightarrow> int) \<Rightarrow> int \<Rightarrow> string \<Rightarrow> 16 word \<Rightarrow> int" where
  "tcp_bind bind sfd addr_str port = (if sfd < 0 then - 1 else bind sfd (tcp_address (parse_addr addr_str) port))"

definition tcp_listen :: "(int \<Rightarrow> int \<Rightarrow> int) \<Rightarrow> int \<Rightarrow> int \<Rightarrow> int" where
  "tcp_listen listen sfd backlog = listen sfd backlog"

definition tcp_accept :: "(int \<Rightarrow> 'r) \<Rightarrow> int \<Rightarrow> 'r" where
  "tcp_accept accept sfd = accept sfd"

text \<open>What \<^verbatim>\<open>connect\<close> returns may come with the value of \<^verbatim>\<open>errno\<close>, so its type is left open, as is that of \<^verbatim>\<open>accept\<close>.\<close>

definition tcp_connect :: "(int \<Rightarrow> sockaddr_in \<Rightarrow> 'r) \<Rightarrow> int \<Rightarrow> 32 word \<Rightarrow> 16 word \<Rightarrow> 'r" where
  "tcp_connect connect sfd addr port = connect sfd (tcp_address addr port)"

text \<open>\<^verbatim>\<open>set_reuse_addr\<close>, with \<^verbatim>\<open>setsockopt\<close> for the level \<^verbatim>\<open>SOL_SOCKET\<close>, the option \<^verbatim>\<open>SO_REUSEADDR\<close> and the value 1.\<close>

definition set_reuse_addr :: "(int \<Rightarrow> int \<Rightarrow> int \<Rightarrow> int \<Rightarrow> int) \<Rightarrow> int \<Rightarrow> int" where
  "set_reuse_addr setsockopt sfd = setsockopt sfd 1 2 1"

text \<open>\<^verbatim>\<open>make_socket_nonblocking\<close>: \<^verbatim>\<open>fcntl\<close> with \<^verbatim>\<open>F_GETFL\<close> (3) and then \<^verbatim>\<open>F_SETFL\<close> (4), on the state of the kernel.\<close>

definition make_socket_nonblocking :: "('k \<Rightarrow> int \<Rightarrow> int \<Rightarrow> 32 word \<Rightarrow> 32 word \<times> 'k) \<Rightarrow> int \<Rightarrow> 'k \<Rightarrow> 32 word \<times> 'k" where
  "make_socket_nonblocking fcntl sfd k =
     (let (flags, k) = fcntl k sfd 3 0 in
      if flags = - 1 then (- 1, k) else fcntl k sfd 4 (flags OR O_NONBLOCK))"

section \<open>Reading an address\<close>

lemma parse_addr_step: "of_int (sint t * 10 + z) = t * 10 + (of_int z :: 8 word)"
  by simp

lemma parse_addr_digits:
  assumes "\<forall>c \<in> set cs. isdigit c"
  shows "parse_addr_loop (cs @ rest) addr shift 0 = parse_addr_loop rest addr shift (of_nat (dec_value cs))"
  using assms
proof (induction cs arbitrary: rest rule: rev_induct)
  case Nil
  then show ?case by (simp add: dec_value_def)
next
  case (snoc c cs)
  have c: "isdigit c" using snoc.prems by simp
  then have d: "c \<noteq> CHR ''.''" by (auto simp: isdigit_def)
  have "(of_char c :: int) - 48 = int (digit_val c)" 
    using c of_nat_of_char [of c, where ?'a = int] by (simp add: isdigit_def digit_val_def of_nat_diff)
  with parse_addr_step [of "of_nat (dec_value cs)" "int (digit_val c)"]
  have "of_int (sint (of_nat (dec_value cs) :: 8 word) * 10 + (of_char c - 48)) = (of_nat (dec_value (cs @ [c])) :: 8 word)"
    by (simp add: dec_value_append)
  with snoc.IH [of "c # rest"] snoc.prems d show ?case by simp
qed

lemma scast_small:
  assumes "n < 128"
  shows "scast (of_nat n :: 8 word) = (of_nat n :: 32 word)"
proof -
  have "sint (of_nat n :: 8 word) = int n"
    using assms by (simp add: signed_of_nat signed_take_bit_int_eq_self)
  then have "(of_int (sint (of_nat n :: 8 word)) :: 32 word) = of_nat n" by simp
  then show ?thesis by (simp only: of_int_sint)
qed

lemma bit_small:
  assumes "n < 128" "bit (of_nat n :: 32 word) k"
  shows "k < 7"
proof (rule ccontr)
  assume "\<not> k < 7"
  then have "(2 :: nat) ^ 7 \<le> 2 ^ k" by (intro power_increasing) simp_all
  then have "n < 2 ^ k" using assms(1) by simp
  moreover have "bit n k" using assms(2) by (simp add: bit_of_nat_iff)
  ultimately show False by (simp add: bit_iff_odd)
qed

text \<open>
  Other addresses are not read right: the parts are kept in a signed byte, and the sign of a part of 128 or more
  spreads over the bytes in front of it. The address \<^verbatim>\<open>10.0.0.200\<close> is read as \<^verbatim>\<open>245.255.255.200\<close>.
\<close>

lemma parse_addr_signed: "parse_addr ''10.0.0.200'' = 0xF5FFFFC8 \<and> parse_addr ''10.0.0.200'' \<noteq> 0x0A0000C8"
  by (simp add: parse_addr_def c_str_def)

lemma parse_addr_reads:
  assumes "a < 128" "b < 128" "c < 128" "d < 128"
  shows "parse_addr (fmt_lu a @ ''.'' @ fmt_lu b @ ''.'' @ fmt_lu c @ ''.'' @ fmt_lu d) =
    push_bit 24 (of_nat a) OR push_bit 16 (of_nat b) OR push_bit 8 (of_nat c) OR of_nat d"
proof -
  let ?s = "fmt_lu a @ ''.'' @ fmt_lu b @ ''.'' @ fmt_lu c @ ''.'' @ fmt_lu d"
  have dg: "parse_addr_loop (fmt_lu n @ rest) ad sh 0 = parse_addr_loop rest ad sh (of_nat n)" for n rest ad sh
    using parse_addr_digits [of "fmt_lu n"] fmt_lu_digits [of n] by simp
  have "NUL \<notin> set (fmt_lu n)" for n using fmt_lu_digits [of n] by (auto simp: isdigit_def)
  then have "NUL \<notin> set ?s" by simp
  then have "c_str ?s = ?s" unfolding c_str_def by (intro takeWhile_eq_all_conv [THEN iffD2]) auto
  then have "parse_addr ?s = push_bit 24 (of_nat a) XOR push_bit 16 (of_nat b) XOR push_bit 8 (of_nat c) XOR of_nat d"
    using dg [of d "[]"] assms by (simp add: parse_addr_def dg scast_small xor.assoc)
  also have "\<dots> = push_bit 24 (of_nat a) OR push_bit 16 (of_nat b) OR push_bit 8 (of_nat c) OR of_nat d"
  proof (rule bit_word_eqI)
    fix n assume n: "n < LENGTH(32)"
    have zero: "\<not> bit (of_nat m :: 32 word) k" if "7 \<le> k" "m < 128" for m k
      using bit_small [of m k] that by linarith
    note z = zero [OF _ assms(1)] zero [OF _ assms(2)] zero [OF _ assms(3)] zero [OF _ assms(4)]
    consider "n < 8" | "8 \<le> n" "n < 16" | "16 \<le> n" "n < 24" | "24 \<le> n" by linarith
    then show "bit (push_bit 24 (of_nat a) XOR push_bit 16 (of_nat b) XOR push_bit 8 (of_nat c) XOR of_nat d :: 32 word) n \<longleftrightarrow>
        bit (push_bit 24 (of_nat a) OR push_bit 16 (of_nat b) OR push_bit 8 (of_nat c) OR of_nat d :: 32 word) n"
      by cases (simp_all add: bit_xor_iff bit_or_iff bit_push_bit_iff z)
  qed
  finally show ?thesis .
qed

lemma char_of_unat: "char_of (unat (w :: 'a :: len word) div 256 ^ i) = (char_of (unat (take_bit 8 (drop_bit (8 * i) w))) :: char)"
proof -
  have "drop_bit (8 * i) (unat w) = unat w div 2 ^ (8 * i)" by (rule drop_bit_eq_div)
  then have "unat w div 256 ^ i = unat (drop_bit (8 * i) w)"
    using power_mult [of "2 :: nat" 8 i] unat_drop_bit_eq [of "8 * i" w] by simp
  moreover have "char_of (take_bit 8 n) = (char_of n :: char)" for n :: nat by (simp add: char_of_take_bit_eq)
  ultimately show ?thesis by (simp add: unsigned_take_bit_eq)
qed

lemma le_bytes_unat:
  "le_bytes 2 (unat w) = map (\<lambda>v. char_of (unat (take_bit 8 v))) [w, drop_bit 8 w]"
  "le_bytes 4 (unat w) = map (\<lambda>v. char_of (unat (take_bit 8 v))) [w, drop_bit 8 w, drop_bit 16 w, drop_bit 24 w]"
  using char_of_unat [of w 0] char_of_unat [of w 1] char_of_unat [of w 2] char_of_unat [of w 3]
  by (simp_all add: le_bytes_def upt_rec)

text \<open>The bytes of a number in network byte order are those of the number, the most significant one first.\<close>

lemma htonl_bytes: "le_bytes 4 (unat (htonl x)) = rev (le_bytes 4 (unat x))"
proof -
  have "take_bit 8 (htonl x) = take_bit 8 (drop_bit 24 x)" "take_bit 8 (drop_bit 8 (htonl x)) = take_bit 8 (drop_bit 16 x)"
    "take_bit 8 (drop_bit 16 (htonl x)) = take_bit 8 (drop_bit 8 x)" "take_bit 8 (drop_bit 24 (htonl x)) = take_bit 8 x"
    unfolding htonl_def
    by (rule bit_word_eqI; auto simp: bit_simps)+
  then show ?thesis by (simp add: le_bytes_unat)
qed

lemma htons_bytes: "le_bytes 2 (unat (htons x)) = rev (le_bytes 2 (unat x))"
proof -
  have "take_bit 8 (htons x) = take_bit 8 (drop_bit 8 x)" "take_bit 8 (drop_bit 8 (htons x)) = take_bit 8 x"
    unfolding htons_def by (rule bit_word_eqI; auto simp: bit_simps)+
  then show ?thesis by (simp add: le_bytes_unat)
qed

section \<open>Properties\<close>

text \<open>
  C32. The address that is bound: for four parts below 128, written in decimal with dots, \<^verbatim>\<open>tcp_bind\<close> hands to \<^verbatim>\<open>bind\<close> a
  struct whose bytes in memory are the family, the port with its high byte first, and the four parts in the order in
  which they are written.
\<close>

theorem tcp_bind_address:
  assumes "a < 128" "b < 128" "c < 128" "d < 128" "0 \<le> sfd"
  shows "\<exists>sa. tcp_bind bnd sfd (fmt_lu a @ ''.'' @ fmt_lu b @ ''.'' @ fmt_lu c @ ''.'' @ fmt_lu d) port = bnd sfd sa \<and>
    sockaddr_bytes sa = map char_of [2, 0, unat port div 256, unat port mod 256, a, b, c, d] @ replicate 8 NUL"
proof -
  let ?w = "push_bit 24 (of_nat a) OR push_bit 16 (of_nat b) OR push_bit 8 (of_nat c) OR of_nat d :: 32 word"
  note n = bit_small [OF assms(1)] bit_small [OF assms(2)] bit_small [OF assms(3)] bit_small [OF assms(4)]
  have "take_bit 8 (drop_bit 24 ?w) = of_nat a" "take_bit 8 (drop_bit 16 ?w) = of_nat b"
    "take_bit 8 (drop_bit 8 ?w) = of_nat c" "take_bit 8 ?w = of_nat d"
    by (rule bit_word_eqI; auto simp: bit_take_bit_iff bit_drop_bit_eq bit_or_iff bit_push_bit_iff dest: n)+
  then have "rev (le_bytes 4 (unat ?w)) = map char_of [a, b, c, d]" using assms by (simp add: le_bytes_unat unat_of_nat)
  moreover have "rev (le_bytes 2 (unat port)) = map char_of [unat port div 256, unat port mod 256]"
    by (simp add: le_bytes_def upt_rec)
  moreover have "le_bytes 2 2 = map char_of [2, 0 :: nat]" by (simp add: le_bytes_def upt_rec)
  ultimately show ?thesis
    using assms(5) parse_addr_reads [OF assms(1-4)]
    by (intro exI [of _ "tcp_address ?w port"]) (simp add: tcp_bind_def sockaddr_bytes_def tcp_address_def htonl_bytes htons_bytes)
qed

theorem tcp_bind_address_witness:
  "\<exists>sa. tcp_bind (\<lambda>sfd sa. int (unat (sin_port sa))) 3 (fmt_lu 127 @ ''.'' @ fmt_lu 0 @ ''.'' @ fmt_lu 0 @ ''.'' @ fmt_lu 1) 6969 =
      int (unat (sin_port sa)) \<and>
    sockaddr_bytes sa = [CHR 0x02, NUL, CHR 0x1B, CHR 0x39, CHR 0x7F, NUL, NUL, CHR 0x01] @ replicate 8 NUL"
  using tcp_bind_address [of 127 0 0 1 3 "\<lambda>sfd sa. int (unat (sin_port sa))" 6969] by (simp add: char_of_def bit_0)

end
