(* ===== verification/Setup.thy ===== *)
theory Setup
  imports Config_Parser Loop Networking
begin

text \<open>
  How the server starts (\<^verbatim>\<open>server_new\<close> of \<^verbatim>\<open>src/src/server.c\<close>) with the helpers of \<^verbatim>\<open>src/src/util.c\<close> that it
  calls, and how it ends (\<^verbatim>\<open>server_free\<close>).
\<close>

section \<open>Helpers\<close>

text \<open>
  \<^verbatim>\<open>read_file\<close>, given the bytes of the file when it can be opened. The byte that \<^verbatim>\<open>fgetc\<close> returned is stored
  in a \<^verbatim>\<open>char\<close> before it is compared with \<^verbatim>\<open>EOF\<close>, so a byte 255 ends the file.
\<close>

fun read_file_loop :: "allocator \<Rightarrow> string \<Rightarrow> vstr \<Rightarrow> vstr option" where
  "read_file_loop al [] s = Some s"
| "read_file_loop al (ch # cs) s =
     (if ch = CHR 0xFF then Some s
      else let (push_res, s) = vstr_push_char al s ch in
        if push_res = - 1 then None else read_file_loop al cs s)"

definition read_file :: "allocator \<Rightarrow> string option \<Rightarrow> int \<times> string \<Rightarrow> string \<Rightarrow> vstr result res" where
  "read_file al file err path = (case file of
     None \<Rightarrow> res_bind (vstr_format al (''failed to open path '' @ c_str path @ '' (errno: '' @ fmt_ld (fst err) @ '') '' @ snd err))
       (\<lambda>m. Inr (Err m))
   | Some bytes \<Rightarrow>
       (case read_file_loop al bytes vstr_new of
          None \<Rightarrow> Inr (Err (vstr_from al ''failed to read full file''))
        | Some s \<Rightarrow> Inr (Ok s)))"

text \<open>\<^verbatim>\<open>get_execuable_path\<close>, given what \<^verbatim>\<open>readlink\<close> returns: at most 1023 bytes, copied with a zero byte behind them.\<close>

definition get_execuable_path :: "allocator \<Rightarrow> string option \<Rightarrow> string option" where
  "get_execuable_path al link = (case link of
     None \<Rightarrow> None
   | Some buf \<Rightarrow> let buf = take 1023 buf in if al (length buf + 1) = 0 then None else Some (buf @ [NUL]))"

text \<open>\<^verbatim>\<open>get_os_name\<close>, given the three names that \<^verbatim>\<open>uname\<close> stores.\<close>

definition get_os_name :: "allocator \<Rightarrow> (string \<times> string \<times> string) option \<Rightarrow> vstr res" where
  "get_os_name al uname = (case uname of
     None \<Rightarrow> Inl Assert_failed
   | Some (sysname, release, machine) \<Rightarrow> vstr_format al (sysname @ '' '' @ release @ '' '' @ machine))"

text \<open>\<^verbatim>\<open>create_sigint_handler\<close>, given what \<^verbatim>\<open>sigaction\<close> returns.\<close>

definition create_sigint_handler :: "int \<Rightarrow> int" where
  "create_sigint_handler sigaction = (if sigaction = - 1 then - 1 else 0)"

section \<open>Starting\<close>

text \<open>
  What the operating system answers while the server starts; to \<^verbatim>\<open>bind\<close>, depending on the descriptor and the address.
\<close>

record boot =
  bt_socket :: int
  bt_reuse :: int
  bt_file :: "string option"
  bt_bind :: "int \<Rightarrow> sockaddr_in \<Rightarrow> int"
  bt_listen :: int
  bt_link :: "string option"
  bt_uname :: "(string \<times> string \<times> string) option"
  bt_pid :: "64 word"
  bt_errno :: "int \<times> string"

abbreviation DEFAULT_ADDRESS :: string where "DEFAULT_ADDRESS \<equiv> ''127.0.0.1''"
abbreviation DEFAULT_PORT :: "16 word" where "DEFAULT_PORT \<equiv> 6969"
abbreviation DEFAULT_DATABASES :: nat where "DEFAULT_DATABASES \<equiv> 16"
abbreviation SERVER_BACKLOG :: nat where "SERVER_BACKLOG \<equiv> 10"

text \<open>A message that ends with \<^verbatim>\<open>errno\<close> and its text.\<close>

definition fail_errno :: "allocator \<Rightarrow> string \<Rightarrow> string \<Rightarrow> boot \<Rightarrow> 'b result res" where
  "fail_errno al msg end_text B =
     res_bind (vstr_format al (msg @ fmt_ld (fst (bt_errno B)) @ '') '' @ snd (bt_errno B) @ end_text)) (\<lambda>m. Inr (Err m))"

text \<open>
  The first half of \<^verbatim>\<open>server_new\<close>: socket and configuration.
\<close>

definition load_config :: "'a senv \<Rightarrow> boot \<Rightarrow> vstr \<Rightarrow> (config \<times> log_level) result res" where
  "load_config S B conf_file_path =
     (let al = se_al S in
      if bt_socket B < 0 then fail_errno al ''failed to create socket (errno: '' [] B
      else if bt_reuse B = - 1 then fail_errno al ''failed to set reuse addr on socket (errno '' [] B
      else res_bind (read_file al (bt_file B) (bt_errno B) (vstr_data conf_file_path)) (\<lambda>contents.
        case contents of
          Err e \<Rightarrow> Inr (Err e)
        | Ok contents \<Rightarrow> res_bind (parse_config al (vstr_data contents) (vstr_len contents)) (\<lambda>config.
            case config of
              Err e \<Rightarrow> Inr (Err e)
            | Ok config \<Rightarrow>
                if vstr_len (cf_loglevel config) = 0 then Inr (Ok (config, Info))
                else (case determine_loglevel (cf_loglevel config) of
                  None \<Rightarrow> Inr (Err (vstr_from al ''invalid log level''))
                | Some ll \<Rightarrow> Inr (Ok (config, ll))))))"

text \<open>
  The server keeps a copy of the address, which is taken through the pointer into the configuration after
  \<^verbatim>\<open>config_free_light\<close> has run. That leaves the bytes of a short string in place, but for one of 23 bytes the byte
  behind them, which was its terminator, is no longer zero; the bytes of a long one are freed.
\<close>

definition freed_address :: "config \<Rightarrow> string res" where
  "freed_address config =
     (if vstr_len (cf_address config) = 0 then Inr DEFAULT_ADDRESS
      else if is_large (cf_address config) then Inl Dangling
      else let addr = vstr_data (cf_address (snd (config_free_light config))) in
        if NUL \<in> set addr then Inr addr else Inl Out_of_bounds)"

definition server_new :: "'a senv \<Rightarrow> boot \<Rightarrow> vstr \<Rightarrow> 'a server result res" where
  "server_new S B conf_file_path =
     (let al = se_al S in
      res_bind (load_config S B conf_file_path) (\<lambda>loaded. case loaded of
        Err e \<Rightarrow> Inr (Err e)
      | Ok (config, ll) \<Rightarrow>
      let addr = (if vstr_len (cf_address config) = 0 then DEFAULT_ADDRESS else vstr_data (cf_address config));
          port = (if cf_port config = 0 then DEFAULT_PORT else cf_port config);
          n = (if cf_databases config = 0 then DEFAULT_DATABASES else unat (cf_databases config)) in
      if tcp_bind (bt_bind B) (bt_socket B) addr port < 0 then fail_errno al ''failed to bind socket (errno: '' [] B
      else if bt_listen B < 0 then fail_errno al ''failed to listen on socket (errno: '' [] B
      else case vec_new al user_zero sizeof_user of
        None \<Rightarrow> Inr (Err (vstr_from al ''failed to allocate memory for users vector''))
      | Some users \<Rightarrow>
      res_bind (add_users al (se_ctx S) users (cf_users config)) (\<lambda>(add_users_res, users).
      if add_users_res = - 1 then Inr (Err (vstr_from al ''failed to push users to users vector''))
      else case get_execuable_path al (bt_link B) of
        None \<Rightarrow> fail_errno al ''failed to get executable path (errno: '' [LF] B
      | Some path \<Rightarrow>
      res_bind (get_os_name al (bt_uname B)) (\<lambda>os_name.
      res_bind (freed_address config) (\<lambda>addr.
      case vec_new al (0 :: addr) 8 of
        None \<Rightarrow> Inr (Err (vstr_from al ''failed to allocate for client vec''))
      | Some clients \<Rightarrow>
      (case ev_new al (se_api S) SERVER_BACKLOG of
        None \<Rightarrow> Inr (Err (vstr_from al ''failed to allocate memory for ev''))
      | Some ev \<Rightarrow>
      res_bind (ev_add_event (se_api S) ev (bt_socket B) EV_READ Server_accept (se_self S)) (\<lambda>(add, ev).
      if add = - 1 then fail_errno al ''failed to add server accept as event_fn to ev (errno: '' [] B
      else res_bind (lexidb_new al (e_random (se_env S)) n) (\<lambda>db.
        Inr (Ok \<lparr>sv_pid = bt_pid B, sv_sfd = bt_socket B, sv_log_level = ll, sv_flags = 0, sv_port = port,
          sv_executable_path = path, sv_os_name = os_name, sv_addr = vstr_from al addr, sv_conf_file_path = conf_file_path,
          num_databases = n, sv_db = db, sv_ev = ev, sv_clients = clients, sv_mem = Map.empty, sv_users = users,
          cmd_executed = 0, sv_start_time = se_now S\<rparr>)))))))))"

text \<open>
  \<^verbatim>\<open>server_free\<close>: the objects of the databases that are freed, the memory of the connections after those of the
  vector are freed, which \<^verbatim>\<open>client_in_vec_free\<close> finds through their pointers, the users and the strings.
\<close>

fun free_clients :: "addr list \<Rightarrow> (addr \<rightharpoonup> client) \<Rightarrow> (addr \<rightharpoonup> client) res" where
  "free_clients [] mem = Inr mem"
| "free_clients (p # ps) mem = (case mem p of None \<Rightarrow> Inl Dangling | Some c \<Rightarrow> free_clients ps (mem(p := None)))"

definition user_in_vec_free :: "user \<Rightarrow> user" where
  "user_in_vec_free u = u\<lparr>user_name := vstr_free (user_name u), user_password := vstr_free (user_password u)\<rparr>"

record released =
  rl_objects :: "object list"
  rl_mem :: "addr \<rightharpoonup> client"
  rl_users :: "user list"
  rl_strings :: "vstr list"

definition server_free :: "'a server \<Rightarrow> released res" where
  "server_free s =
     res_bind (lexidb_free (sv_db s)) (\<lambda>objs.
     res_bind (free_clients (fst (vec_free True (sv_clients s))) (sv_mem s)) (\<lambda>mem.
       Inr \<lparr>rl_objects = objs, rl_mem = mem, rl_users = map user_in_vec_free (fst (vec_free True (sv_users s))),
            rl_strings = map vstr_free [sv_addr s, sv_conf_file_path s, sv_os_name s]\<rparr>))"

section \<open>What the start needs\<close>

lemma read_file_loop_reads:
  assumes "CHR 0xFF \<notin> set bytes" "vstr_clean s" "alloc_total al" "length (vstr_str s) + length bytes \<le> VSTR_MAX_LARGE_SIZE"
  shows "\<exists>s'. read_file_loop al bytes s = Some s' \<and> vstr_clean s' \<and> vstr_str s' = vstr_str s @ bytes"
  using assms
proof (induction bytes arbitrary: s)
  case Nil
  then show ?case by simp
next
  case (Cons x bytes)
  from vc.push_charE [of s al x] Cons.prems(2-4) obtain s1 where
    s1: "vstr_push_char al s x = (0, s1)" "vstr_clean s1" "vstr_str s1 = vstr_str s @ [x]" by auto
  with Cons.IH [of s1] Cons.prems show ?case by auto
qed

lemma determine_loglevel_reads:
  assumes "vstr_clean s" "(vstr_str s, ll) \<in> set log_level_lookups"
  shows "determine_loglevel s = Some ll"
proof -
  let ?d = "vstr_data s" and ?n = "vstr_len s"
  have n: "?n \<le> length ?d" using vstr_len_le_data [of s] assms(1) by (simp add: vstr_clean_live vstr_live_wf)
  have z: "NUL \<notin> set (take ?n ?d)" using assms(2) by (auto simp: log_level_lookups_def vstr_str_def)
  have "log_level_from ls ?d ?n = map_of ls (vstr_str s)" for ls
    using n z
  proof (induction ls)
    case (Cons x ls)
    obtain str l where x: "x = (str, l)" by (cases x)
    have "strncmp ?d str ?n = 0 \<longleftrightarrow> vstr_str s = str" if "length str = ?n"
      using strncmp_eq_0 [of ?n ?d str] n z that by (simp add: vstr_str_def)
    moreover have "length (vstr_str s) = ?n" using n by (simp add: vstr_str_def)
    ultimately show ?case using Cons x by auto
  qed simp
  with assms(2) show ?thesis by (auto simp: determine_loglevel_def log_level_lookups_def)
qed

text \<open>What is kept of the lines: names without a zero byte, an address of digits and dots.\<close>

definition aconf_ok :: "aconf \<Rightarrow> bool" where
  "aconf_ok a \<longleftrightarrow> (\<forall>(nm, pw) \<in> set (ac_users a). word_ok nm) \<and> NUL \<notin> set (ac_address a)"

lemma conf_line_ok:
  assumes "conf_line l c = Inr a" "line_ok l" "aconf_ok c"
  shows "aconf_ok a" "length (ac_users a) \<le> Suc (length (ac_users c))"
  using assms by (cases l; auto simp: aconf_ok_def isdigit_def split: if_splits)+

lemma conf_lines_ok:
  assumes "conf_lines ls c = Inr a" "\<forall>l \<in> set ls. line_ok l" "aconf_ok c"
  shows "aconf_ok a \<and> length (ac_users a) \<le> length (ac_users c) + length ls"
  using assms
proof (induction ls arbitrary: c)
  case Nil
  then show ?case by simp
next
  case (Cons l ls)
  then obtain b where b: "conf_line l c = Inr b" "conf_lines ls b = Inr a" by (auto split: sum.splits)
  note u = conf_line_ok [OF b(1) _ Cons.prems(3)]
  from Cons.IH [OF b(2) _ u(1)] Cons.prems(2) u(2) show ?case by auto
qed

lemma length_lines: "length ls \<le> length (concat (map line_text ls))"
proof (induction ls)
  case (Cons l ls)
  have "1 \<le> length (line_text l)" by (cases l) simp_all
  with Cons have "1 + length ls \<le> length (line_text l) + length (concat (map line_text ls))" by (rule add_mono [rotated])
  then show ?case by simp
qed simp

text \<open>A file that \<^verbatim>\<open>server_new\<close> accepts, and what the operating system has to answer.\<close>

definition file_ok :: "string \<Rightarrow> cline list \<Rightarrow> aconf \<Rightarrow> bool" where
  "file_ok bytes ls a \<longleftrightarrow> bytes = concat (map line_text ls) \<and> (\<forall>l \<in> set ls. line_ok l) \<and> CHR 0xFF \<notin> set bytes \<and>
     length bytes < VSTR_MAX_LARGE_SIZE \<and> conf_lines ls empty_conf = Inr a \<and>
     (ac_loglevel a = [] \<or> (\<exists>ll. (ac_loglevel a, ll) \<in> set log_level_lookups)) \<and>
     length (ac_address a) < VSTR_MAX_SMALL_SIZE \<and> ac_users a \<noteq> [] \<and> distinct (map fst (ac_users a)) \<and> (\<forall>(nm, pw) \<in> set (ac_users a). length pw < 2 ^ 32)"

definition listen_address :: "aconf \<Rightarrow> sockaddr_in" where
  "listen_address a = tcp_address (parse_addr (if ac_address a = [] then DEFAULT_ADDRESS else ac_address a))
     (if ac_port a = 0 then DEFAULT_PORT else of_nat (ac_port a))"

definition boot_ok :: "'a senv \<Rightarrow> boot \<Rightarrow> aconf \<Rightarrow> bool" where
  "boot_ok S B a \<longleftrightarrow> 0 \<le> bt_socket B \<and> bt_reuse B \<noteq> - 1 \<and> 0 \<le> bt_bind B (bt_socket B) (listen_address a) \<and> 0 \<le> bt_listen B \<and>
     bt_link B \<noteq> None \<and> (\<exists>x y z. bt_uname B = Some (x, y, z) \<and> length (x @ y @ z) < 1024) \<and>
     (\<exists>ev ev'. ev_new (se_al S) (se_api S) SERVER_BACKLOG = Some (ev :: (handler, 'a) ev) \<and>
        ev_add_event (se_api S) ev (bt_socket B) EV_READ Server_accept (se_self S) = Inr (0, ev'))"

lemma load_config_reads:
  assumes "file_ok bytes ls a" "bt_file B = Some bytes" "boot_ok S B a" "alloc_total (se_al S)"
  obtains c ll where "load_config S B path = Inr (Ok (c, ll))" "config_ok c" "abs_config c = a"
proof -
  note f = assms(1) [unfolded file_ok_def]
  from read_file_loop_reads [of bytes vstr_new "se_al S"] f assms(4) obtain s where
    s: "read_file_loop (se_al S) bytes vstr_new = Some s" "vstr_clean s" "vstr_str s = bytes" by auto
  have n: "vstr_len s \<le> length (vstr_data s)" using vstr_len_le_data [of s] s(2) by (simp add: vstr_clean_live vstr_live_wf)
  have "take (vstr_len s) (vstr_data s) = concat (map line_text ls)" using s(3) f by (simp add: vstr_str_def)
  from parse_config_spec [OF _ assms(4) n this] f obtain c where
    c: "parse_config (se_al S) (vstr_data s) (vstr_len s) = Inr (Ok c)" "config_ok c" "abs_config c = a" by auto
  have l: "vstr_clean (cf_loglevel c)" "vstr_str (cf_loglevel c) = ac_loglevel a"
    using c(2,3) by (auto simp: config_ok_def abs_config_def)
  have "\<exists>ll. (if vstr_len (cf_loglevel c) = 0 then Inr (Ok (c, Info))
      else case determine_loglevel (cf_loglevel c) of None \<Rightarrow> Inr (Err (vstr_from (se_al S) ''invalid log level''))
        | Some ll \<Rightarrow> Inr (Ok (c, ll))) = (Inr (Ok (c, ll)) :: (config \<times> log_level) result res)"
    using f l vstr_len_0 [OF l(1)] determine_loglevel_reads [OF l(1)] by auto
  then show thesis
    using that c s assms(2,3)
    by (auto simp: load_config_def Let_def read_file_def boot_ok_def simp del: if_split)
qed

lemma file_ok_conf:
  assumes "file_ok bytes ls a"
  shows "aconf_ok a" "length (ac_users a) + 2 < 2 ^ 64"
proof -
  note f = assms [unfolded file_ok_def]
  from conf_lines_ok [of ls empty_conf a] f have c: "aconf_ok a" "length (ac_users a) \<le> length ls"
    by (auto simp: aconf_ok_def empty_conf_def)
  have "length bytes < VSTR_MAX_LARGE_SIZE" "length ls \<le> length bytes" using f length_lines [of ls] by blast+
  then have "length bytes < 2 ^ 56" "length ls \<le> length bytes" by (simp_all add: VSTR_MAX_LARGE_SIZE_def)
  with c(2) have "length (ac_users a) < 2 ^ 56" by linarith
  then show "length (ac_users a) + 2 < 2 ^ 64" by simp
  show "aconf_ok a" by (rule c(1))
qed

text \<open>The address that is kept is the one of the configuration, when that is short.\<close>

lemma freed_address_reads:
  assumes "config_ok c" "length (vstr_str (cf_address c)) < VSTR_MAX_SMALL_SIZE" "NUL \<notin> set (vstr_str (cf_address c))"
  obtains x where "freed_address c = Inr x" "c_str x = (if vstr_str (cf_address c) = [] then DEFAULT_ADDRESS else vstr_str (cf_address c))"
proof (cases "vstr_len (cf_address c) = 0")
  case True
  moreover have "vstr_str (cf_address c) = []" using True by (simp add: vstr_str_def)
  moreover have "c_str DEFAULT_ADDRESS = DEFAULT_ADDRESS" by (simp add: c_str_def)
  ultimately show thesis using that by (simp add: freed_address_def)
next
  case False
  have ok: "vstr_clean (cf_address c)" "vstr_tight (cf_address c)" using assms(1) by (simp_all add: config_ok_def)
  from ok(2) assms(2) obtain d k where dk: "cf_address c = Small d k" by (cases "cf_address c") (auto simp: vstr_tight_def)
  let ?n = "23 - k"
  have d: "length d = 23" "k \<le> 23" "zero_tail d ?n" "vstr_str (cf_address c) = take ?n d"
    using ok(1) dk by (simp_all add: vstr_clean_def vstr_str_def vstr_len_def vstr_data_def)
  have n: "?n < 23" using d assms(2) by simp
  then have e: "d = take ?n d @ NUL # drop (Suc ?n) d"
    using d(1,3) id_take_nth_drop [of ?n d] nth_mem [of 0 "drop ?n d"] by (auto simp: zero_tail_def)
  have "NUL \<in> set d" by (subst e) simp
  moreover have "takeWhile (\<lambda>c. c \<noteq> NUL) (xs @ NUL # ys) = xs" if "NUL \<notin> set xs" for xs ys
    using that by (induction xs) auto
  then have "c_str d = take ?n d" using assms(3) d(4) by (subst e) (simp add: c_str_def)
  moreover have "take ?n d \<noteq> []" using False d(1) dk by (auto simp: vstr_len_def)
  ultimately show thesis using that [of d] d(4) dk False
    by (simp add: freed_address_def config_free_light_def config_free_strings_def vstr_free_def vstr_data_def Let_def)
qed

lemma tcp_bind_configured:
  assumes "config_ok c" "NUL \<notin> set (ac_address (abs_config c))" "0 \<le> sfd"
  shows "tcp_bind bnd sfd (if vstr_len (cf_address c) = 0 then DEFAULT_ADDRESS else vstr_data (cf_address c))
    (if cf_port c = 0 then DEFAULT_PORT else cf_port c) = bnd sfd (listen_address (abs_config c))"
proof -
  let ?s = "cf_address c"
  have s: "vstr_clean ?s" "NUL \<notin> set (vstr_str ?s)" using assms(1,2) by (simp_all add: config_ok_def abs_config_def)
  have "parse_addr (vstr_data ?s) = parse_addr (vstr_str ?s)"
    unfolding parse_addr_def c_str_clean [OF s] c_str_plain [OF s(2)] ..
  with assms(3) vstr_len_0 [OF s(1)] show ?thesis by (simp add: tcp_bind_def listen_address_def abs_config_def unat_eq_0)
qed

lemma vstr_from_c_str:
  assumes "alloc_total al" "length (c_str m) < VSTR_MAX_LARGE_SIZE"
  shows "vstr_str (vstr_from al m) = c_str m"
  using vstr_from_len_clean(2) [OF assms(1), of "strlen m" m] assms(2)
  by (simp add: vstr_from_eq take_strlen) (simp add: strlen_def c_str_def length_takeWhile_le)

text \<open>The users of the server as pairs of a name and a password.\<close>

definition listed_users :: "user vec \<Rightarrow> (string \<times> string) list" where
  "listed_users us = map (\<lambda>u. (vstr_str (user_name u), vstr_str (user_password u))) (vec_list us)"

lemma add_configured_users:
  assumes "file_ok bytes ls a" "config_ok c" "abs_config c = a" "alloc_total al" "length (ctx_data ctx) = 64"
  obtains us us' where "vec_new al user_zero sizeof_user = Some us" "add_users al ctx us (cf_users c) = Inr (0, us')"
    "vec_wf us'" "\<forall>u \<in> set (vec_list us'). user_ok u"
    "listed_users us' = map (\<lambda>(nm, pw). (nm, digest pw)) (ac_users a)"
proof -
  note f = assms(1) [unfolded file_ok_def] and a = file_ok_conf [OF assms(1)]
  let ?xs = "vec_list (cf_users c)"
  have u: "ac_users a = map (\<lambda>u. (vstr_str (user_name u), vstr_str (user_password u))) ?xs"
    using assms(3) by (auto simp: abs_config_def)
  have c: "vec_wf (cf_users c)" "\<forall>u \<in> set ?xs. conf_user_ok u" using assms(2) by (simp_all add: config_ok_def)
  have "\<forall>u \<in> set ?xs. plain_user_ok u"
    using c(2) a(1) f u by (auto simp: aconf_ok_def plain_user_ok_def conf_user_ok_def word_ok_def)
  moreover have "distinct (map (\<lambda>u. vstr_str (user_name u)) ?xs)" using f u by (simp add: comp_def)
  moreover have "?xs \<noteq> []" using f u by auto
  moreover have "vec_len (cf_users c) + 2 < 2 ^ 64" using a(2) u c(1) by simp
  moreover obtain us where us: "vec_new al user_zero sizeof_user = Some us" using vec_new_total [OF assms(4), of user_zero sizeof_user] by auto
  ultimately obtain us' where us': "add_users al ctx us (cf_users c) = Inr (0, us')" "vec_wf us'"
    "list_all2 hashed_as ?xs (vec_list us')"
    using add_users_spec [OF c(1) _ _ _ _ us assms(4,5)] by blast
  have "\<forall>u \<in> set (vec_list us'). user_ok u"
    using us'(3) by (auto simp: list_all2_conv_all_nth in_set_conv_nth hashed_as_def)
  moreover have "listed_users us' = map (\<lambda>(nm, pw). (nm, digest pw)) (ac_users a)"
    unfolding listed_users_def u map_map comp_def prod.case
    using us'(3) by (induction rule: list_all2_induct) (simp_all add: hashed_as_def)
  ultimately show thesis using that us us' by blast
qed

lemma server_new_spec:
  assumes "event_api (se_api S) watched" "file_ok bytes ls a" "bt_file B = Some bytes" "boot_ok S B a"
    and "alloc_total (se_al S)" "length (ctx_data (se_ctx S)) = 64"
  shows "\<exists>s. server_new S B path = Inr (Ok s) \<and> server_ok watched s \<and> vec_list (sv_clients s) = [] \<and>
    num_databases s = (if ac_databases a = 0 then 16 else ac_databases a) \<and>
    unat (sv_port s) = (if ac_port a = 0 then 6969 else ac_port a) \<and>
    vstr_str (sv_addr s) = (if ac_address a = [] then ''127.0.0.1'' else ac_address a) \<and>
    (\<forall>d \<in> set (sv_db s). db_ok S d \<and> abs_db d = empty_db) \<and> (\<forall>u \<in> set (vec_list (sv_users s)). user_ok u) \<and>
    listed_users (sv_users s) = map (\<lambda>(nm, pw). (nm, digest pw)) (ac_users a)"
proof -
  from load_config_reads [OF assms(2-5)] obtain c ll where
    c: "load_config S B path = Inr (Ok (c, ll))" "config_ok c" "abs_config c = a" by blast
  from add_configured_users [OF assms(2) c(2,3) assms(5,6)] obtain us us' where
    us: "vec_new (se_al S) user_zero sizeof_user = Some us" "add_users (se_al S) (se_ctx S) us (cf_users c) = Inr (0, us')"
      "\<forall>u \<in> set (vec_list us'). user_ok u" "listed_users us' = map (\<lambda>(nm, pw). (nm, digest pw)) (ac_users a)" by blast
  have ac: "vstr_str (cf_address c) = ac_address a" "ac_port a = unat (cf_port c)" "ac_databases a = unat (cf_databases c)"
    using c(3) by (auto simp: abs_config_def)
  have nul: "NUL \<notin> set (ac_address a)" and len: "length (ac_address a) < VSTR_MAX_SMALL_SIZE"
    using file_ok_conf(1) [OF assms(2)] assms(2) by (simp_all add: aconf_ok_def file_ok_def)
  from nul len freed_address_reads [OF c(2)] ac(1) obtain x where
    x: "freed_address c = Inr x" "c_str x = (if ac_address a = [] then DEFAULT_ADDRESS else ac_address a)" by metis
  have addr: "vstr_str (vstr_from (se_al S) x) = (if ac_address a = [] then ''127.0.0.1'' else ac_address a)"
    using vstr_from_c_str [OF assms(5), of x] x(2) assms(2) by (auto simp: VSTR_MAX_LARGE_SIZE_def file_ok_def)
  note b = assms(4) [unfolded boot_ok_def]
  obtain pth where pth: "get_execuable_path (se_al S) (bt_link B) = Some pth"
    using b assms(5) by (auto simp: get_execuable_path_def Let_def)
  from b obtain t1 t2 t3 where t: "bt_uname B = Some (t1, t2, t3)" "length (t1 @ t2 @ t3) < 1024" by blast
  have "t1 @ '' '' @ t2 @ '' '' @ t3 \<noteq> []" "length (t1 @ '' '' @ t2 @ '' '' @ t3) < VSTR_MAX_LARGE_SIZE"
    using t(2) by (simp_all add: VSTR_MAX_LARGE_SIZE_def)
  from vstr_format_total [OF assms(5) this] t(1) obtain os where os: "get_os_name (se_al S) (bt_uname B) = Inr os"
    by (auto simp: get_os_name_def)
  obtain cs where cs: "vec_new (se_al S) (0 :: addr) 8 = Some cs" using vec_new_total [OF assms(5), of "0 :: addr" 8] by auto
  from b obtain ev ev' where ev: "ev_new (se_al S) (se_api S) SERVER_BACKLOG = Some (ev :: (handler, 'a) ev)"
    "ev_add_event (se_api S) ev (bt_socket B) EV_READ Server_accept (se_self S) = Inr (0, ev')" by blast
  have ev': "ev_wf ev' \<and> ev_synced watched ev'"
    using event_api.add_spec [OF assms(1) ev_new_spec(1) [OF ev(1)] event_api.new_synced [OF assms(1) ev(1)] _ _ _ ev(2)] b by simp
  let ?n = "if cf_databases c = 0 then DEFAULT_DATABASES else unat (cf_databases c)"
  obtain ds where ds: "lexidb_new (se_al S) (e_random (se_env S)) ?n = Inr ds" using lexidb_new_total [OF assms(5)] by blast
  have n: "0 < ?n" by (simp add: unat_gt_0)
  let ?s = "\<lparr>sv_pid = bt_pid B, sv_sfd = bt_socket B, sv_log_level = ll, sv_flags = 0,
    sv_port = if cf_port c = 0 then DEFAULT_PORT else cf_port c, sv_executable_path = pth, sv_os_name = os,
    sv_addr = vstr_from (se_al S) x, sv_conf_file_path = path, num_databases = ?n, sv_db = ds, sv_ev = ev', sv_clients = cs,
    sv_mem = Map.empty, sv_users = us', cmd_executed = 0, sv_start_time = se_now S\<rparr>"
  have "tcp_bind (bt_bind B) (bt_socket B) (if vstr_len (cf_address c) = 0 then DEFAULT_ADDRESS else vstr_data (cf_address c))
      (if cf_port c = 0 then DEFAULT_PORT else cf_port c) = bt_bind B (bt_socket B) (listen_address a)"
    using tcp_bind_configured [OF c(2)] b nul c(3) by simp
  then have "server_new S B path = Inr (Ok ?s)"
    using b unfolding server_new_def Let_def c(1) res_bind_simps result.case prod.case us(1,2) option.case pth os x(1) cs ev ds
    by simp
  moreover have "server_ok watched ?s"
    using n lexidb_new_ok(1) [OF ds] ev' vec_new_spec [OF cs] by (simp add: server_ok_def)
  ultimately show ?thesis
    using lexidb_new_ok(2) [OF ds, of S] vec_new_spec(2) [OF cs] addr us(3,4) ac(2,3) by (intro exI [of _ ?s]) (simp add: unat_eq_0)
qed

section \<open>What the end frees\<close>

text \<open>The objects that a database holds: keys and values of its table, its stack, its queue and its set.\<close>

definition db_objects :: "lexidb \<Rightarrow> object multiset" where
  "db_objects d = mset (concat (map (\<lambda>(k, v). [v, k]) (concat (ht_entries (db_dict d))))) + mset (vec_list (db_vec d)) +
     mset (queue_list (db_queue d)) + mset (concat (set_entries (db_set d)))"

lemma ht_free_objects:
  assumes "length (ht_entries h) = ht_capacity h"
  shows "freed_objects (ht_free True True h) = concat (map (\<lambda>(k, v). [v, k]) (concat (ht_entries h)))"
proof -
  have "freed_objects (concat (map (ht_entry_free True True) c)) = concat (map (\<lambda>(k, v). [v, k]) c)" for c
    by (induction c) (auto simp: freed_objects_def ht_entry_free_def)
  then have "freed_objects (concat (map (\<lambda>c. concat (map (ht_entry_free True True) c)) cs)) =
      concat (map (\<lambda>(k, v). [v, k]) (concat cs))" for cs
    by (induction cs) (simp_all add: freed_objects_def)
  with assms show ?thesis by (simp add: ht_free_def)
qed

lemma lexidb_free_objects:
  assumes "\<forall>d \<in> set ds. db_ok S d"
  shows "\<exists>objs. lexidb_free ds = Inr objs \<and> mset objs = (\<Sum>d\<leftarrow>ds. db_objects d)"
  using assms
proof (induction ds)
  case (Cons d ds)
  then obtain objs where objs: "lexidb_free ds = Inr objs" "mset objs = (\<Sum>d\<leftarrow>ds. db_objects d)" by auto
  have d: "db_ok S d" using Cons.prems by simp
  with queue_free_spec [of "db_queue d"] obtain q where "queue_free True (db_queue d) = Inr (queue_list (db_queue d), q)"
    by (auto simp: db_ok_def)
  moreover have "fst (set_free True (db_set d)) = concat (set_entries (db_set d))"
    using d by (simp add: db_ok_def set_wf_def set_free_def)
  moreover have "fst (vec_free True (db_vec d)) = vec_list (db_vec d)" by (simp add: vec_free_def vec_list_def)
  moreover have "freed_objects (ht_free True True (db_dict d)) = concat (map (\<lambda>(k, v). [v, k]) (concat (ht_entries (db_dict d))))"
    using d by (intro ht_free_objects) (simp add: db_ok_def ht_wf_def)
  ultimately show ?case using objs by (simp add: db_objects_def)
qed simp

lemma free_clients_all:
  assumes "distinct ps" "\<forall>p \<in> set ps. mem p \<noteq> None"
  shows "free_clients ps mem = Inr (mem |` (- set ps))"
  using assms
proof (induction ps arbitrary: mem)
  case (Cons p ps)
  then obtain c where "mem p = Some c" by auto
  moreover have "free_clients ps (mem(p := None)) = Inr ((mem(p := None)) |` (- set ps))" using Cons by (intro Cons.IH) auto
  moreover have "(mem(p := None)) |` (- set ps) = mem |` (- set (p # ps))" by (auto simp: restrict_map_def)
  ultimately show ?case by simp
qed (simp add: restrict_map_def)

lemma server_free_spec:
  assumes "server_ok watched s" "\<forall>d \<in> set (sv_db s). db_ok S d"
  shows "\<exists>r. server_free s = Inr r \<and> mset (rl_objects r) = (\<Sum>d\<leftarrow>sv_db s. db_objects d) \<and>
    rl_mem r = sv_mem s |` (- set (vec_list (sv_clients s)))"
proof -
  from lexidb_free_objects [OF assms(2)] obtain objs where
    "lexidb_free (sv_db s) = Inr objs" "mset objs = (\<Sum>d\<leftarrow>sv_db s. db_objects d)" by blast
  moreover have "free_clients (fst (vec_free True (sv_clients s))) (sv_mem s) = Inr (sv_mem s |` (- set (vec_list (sv_clients s))))"
    using free_clients_all [of "vec_list (sv_clients s)" "sv_mem s"] assms(1) by (auto simp: server_ok_def vec_free_def vec_list_def)
  ultimately show ?thesis by (simp add: server_free_def)
qed

section \<open>Properties\<close>


text \<open>A start to try it on.\<close>

definition ex_boot :: boot where
  "ex_boot = \<lparr>bt_socket = 3, bt_reuse = 0, bt_file = Some (''user root >secret'' @ [LF]), bt_bind = (\<lambda>_ _. 0), bt_listen = 0,
     bt_link = Some ''/bin/lexidb'', bt_uname = Some (''Linux'', ''6.1'', ''x86_64''), bt_pid = 42, bt_errno = (0, [])\<rparr>"

lemma ex_file_ok:
  "file_ok (''user root >secret'' @ [LF]) [CL_user ''root'' ''secret''] (empty_conf\<lparr>ac_users := [(''root'', ''secret'')]\<rparr>)"
  by (simp add: file_ok_def empty_conf_def word_ok_def VSTR_MAX_LARGE_SIZE_def)

lemma ex_boot_ok: "boot_ok ex_env ex_boot a"
  by (simp add: boot_ok_def ex_boot_def ex_env_def ev_new_def ev_add_event_def no_event_def Let_def
      select_ops_def select_api_new_def select_api_add_event_def)


text \<open>
  C29. The end frees everything once: for a server in order, \<^verbatim>\<open>server_free\<close> meets no dangling pointer, the objects that it
  hands to \<^verbatim>\<open>object_free\<close> are exactly those that the databases hold, with their multiplicity, and of the
  connections exactly those of the vector are freed.
\<close>

theorem server_frees_all:
  assumes "server_ok watched s" "\<forall>d \<in> set (sv_db s). db_ok S d"
  shows "\<exists>r. server_free s = Inr r \<and> mset (rl_objects r) = (\<Sum>d\<leftarrow>sv_db s. db_objects d) \<and>
    rl_mem r = sv_mem s |` (- set (vec_list (sv_clients s)))"
  using assms by (rule server_free_spec)

theorem server_frees_all_witness:
  "\<exists>ds r. server_free (ex_connected ds) = Inr r \<and> mset (rl_objects r) = (\<Sum>d\<leftarrow>ds. db_objects d) \<and>
     vec_list (sv_clients (ex_connected ds)) = [4096] \<and> rl_mem r = Map.empty"
proof -
  from ex_session obtain ds where ds: "session_ok ex_env (ex_server ds ex_users) (ex_client 1)" .
  note ok = ex_connected_ok [OF ds]
  then have "\<forall>d \<in> set (sv_db (ex_connected ds)). db_ok ex_env d" by (simp add: session_ok_def)
  from server_frees_all [OF ok(1) this] show ?thesis
    by (intro exI [of _ ds]) (auto simp: ex_connected_def ex_server_def vec_list_def restrict_map_def fun_eq_iff)
qed

end
