(* ===== verification/Clap.thy ===== *)
theory Clap
  imports Parser
begin

unbundle bit_operations_syntax

text \<open>
  The options of the program (\<^verbatim>\<open>src/src/clap.h\<close>, \<^verbatim>\<open>src/src/clap.c\<close>): the table of known options, the parser
  of \<^verbatim>\<open>argv\<close>, and the help text. Output is a string; a null pointer among the arguments is \<^term>\<open>None\<close>.
\<close>

section \<open>Data\<close>

datatype objectt = Null_t | Int_t | Double_t | Bool_t | String_t | Array_t | Ht_t

record arg =
  arg_name :: vstr
  short_arg :: vstr
  long_arg :: vstr
  arg_description :: vstr
  arg_type :: objectt
  arg_flags :: "32 word"

abbreviation sizeof_arg :: nat where "sizeof_arg \<equiv> 104"

record cla =
  help_requested :: int
  version_requested :: int
  has_error :: int
  cla_error :: vstr
  cla_args :: "(string, object) ht"

abbreviation HAS_SHORT :: "32 word" where "HAS_SHORT \<equiv> 1"
abbreviation HAS_LONG :: "32 word" where "HAS_LONG \<equiv> 2"
abbreviation HAS_DESCRIPTION :: "32 word" where "HAS_DESCRIPTION \<equiv> 4"
abbreviation HELP_REQUESTED :: int where "HELP_REQUESTED \<equiv> 1"
abbreviation VERSION_REQUESTED :: int where "VERSION_REQUESTED \<equiv> 2"
abbreviation CLA_ERROR :: int where "CLA_ERROR \<equiv> - 1"

definition arg_zero :: arg where
  "arg_zero = \<lparr>arg_name = Small (replicate 23 NUL) 0, short_arg = Small (replicate 23 NUL) 0, long_arg = Small (replicate 23 NUL) 0,
     arg_description = Small (replicate 23 NUL) 0, arg_type = Null_t, arg_flags = 0\<rparr>"

section \<open>The known options\<close>

definition args_new :: "allocator \<Rightarrow> arg vec option" where
  "args_new al = vec_new al arg_zero sizeof_arg"

definition arg_new :: "allocator \<Rightarrow> string option \<Rightarrow> string option \<Rightarrow> string option \<Rightarrow> string option \<Rightarrow> objectt \<Rightarrow> arg res" where
  "arg_new al name short_s long_s description type = (case name of
     None \<Rightarrow> Inl Assert_failed
   | Some name \<Rightarrow>
       let str = (\<lambda>s. case s of None \<Rightarrow> vstr_new | Some s \<Rightarrow> vstr_from al s);
           bit = (\<lambda>s b. case s of None \<Rightarrow> 0 | Some _ \<Rightarrow> b) in
       Inr \<lparr>arg_name = vstr_from al name, short_arg = str short_s, long_arg = str long_s, arg_description = str description,
            arg_type = type, arg_flags = bit short_s HAS_SHORT OR bit long_s HAS_LONG OR bit description HAS_DESCRIPTION\<rparr>)"

definition args_add :: "allocator \<Rightarrow> arg vec \<Rightarrow> string option \<Rightarrow> string option \<Rightarrow> string option \<Rightarrow> string option \<Rightarrow> objectt \<Rightarrow>
    (int \<times> arg vec) res" where
  "args_add al args name short_s long_s description type =
     (if short_s = None \<and> long_s = None then Inr (- 1, args)
      else res_bind (arg_new al name short_s long_s description type) (\<lambda>arg. Inr (vec_push al arg_zero args arg)))"

definition arg_free :: "arg \<Rightarrow> arg" where
  "arg_free a = a\<lparr>arg_name := vstr_free (arg_name a), short_arg := vstr_free (short_arg a),
     long_arg := vstr_free (long_arg a), arg_description := vstr_free (arg_description a)\<rparr>"

definition args_free :: "arg vec \<Rightarrow> arg list \<times> addr" where
  "args_free args = (let (as, p) = vec_free True args in (map arg_free as, p))"

definition find_arg_fn :: "string \<Rightarrow> arg \<Rightarrow> int" where
  "find_arg_fn arg_str arg =
     (let arg_str_len = strlen arg_str; long_arg_len = vstr_len (long_arg arg); short_arg_len = vstr_len (short_arg arg) in
      if long_arg_len = arg_str_len then strncmp (vstr_data (long_arg arg)) arg_str long_arg_len
      else if short_arg_len = arg_str_len then strncmp (vstr_data (short_arg arg)) arg_str short_arg_len
      else 1)"

section \<open>Parsing\<close>

text \<open>
  \<^verbatim>\<open>atoll\<close>: white space, a sign, digits. A number that does not fit wraps here; the C standard leaves it open.
\<close>

definition isspace :: "byte \<Rightarrow> bool" where
  "isspace c \<longleftrightarrow> c = CHR '' '' \<or> (9 \<le> (of_char c :: nat) \<and> (of_char c :: nat) \<le> 13)"

definition atoll :: "string \<Rightarrow> 64 word" where
  "atoll str =
     (let s = dropWhile isspace str;
          digits = (\<lambda>t. of_nat (dec_value (takeWhile isdigit t)) :: 64 word) in
      case s of
        [] \<Rightarrow> 0
      | c # cs \<Rightarrow> if c = CHR ''-'' then - digits cs else if c = CHR ''+'' then digits cs else digits s)"

definition parse_int_arg :: "string \<Rightarrow> 64 word" where
  "parse_int_arg str = atoll str"

definition parse_str_arg :: "allocator \<Rightarrow> string \<Rightarrow> vstr" where
  "parse_str_arg al str = vstr_from al str"

fun ht_result_code :: "ht_result \<Rightarrow> int" where
  "ht_result_code HT_OK = 0"
| "ht_result_code HT_INV_KEY = 1"
| "ht_result_code HT_OOM = 2"

text \<open>
  The end of the branches for integers and strings: the value goes into the table under the name of the option. The
  result of \<^verbatim>\<open>ht_try_insert\<close> is compared with -1, which none of its codes is.
\<close>

definition cla_insert :: "allocator \<Rightarrow> cla \<Rightarrow> arg \<Rightarrow> string \<Rightarrow> object \<Rightarrow> (bool \<times> cla) res" where
  "cla_insert al c a arg_str obj =
     res_bind (ht_try_insert str_keys al (cla_args c) (take (vstr_len (arg_name a)) (vstr_data (arg_name a))) obj) (\<lambda>(r, h).
       let c = c\<lparr>cla_args := h\<rparr> in
       if ht_result_code r = - 1
       then res_bind (vstr_format al (''failed to insert '' @ c_str arg_str @ '' into args table'')) (\<lambda>e. Inr (False, c\<lparr>cla_error := e\<rparr>))
       else Inr (True, c))"

definition cla_missing :: "allocator \<Rightarrow> cla \<Rightarrow> string \<Rightarrow> string \<Rightarrow> (int \<times> cla) res" where
  "cla_missing al c arg_str type =
     res_bind (vstr_format al (c_str arg_str @ '' requires an argument of type '' @ type)) (\<lambda>e. Inr (CLA_ERROR, c\<lparr>cla_error := e\<rparr>))"

text \<open>\<^verbatim>\<open>parse_args\<close>, from the entry of \<^verbatim>\<open>argv\<close> at which the loop stands.\<close>

function clap_parse_args :: "allocator \<Rightarrow> cla \<Rightarrow> arg vec \<Rightarrow> string list \<Rightarrow> (int \<times> cla) res" where
  "clap_parse_args al c args [] = Inr (0, c)"
| "clap_parse_args al c args (arg_str # argv) =
     (if strncmp arg_str ''--help'' 6 = 0 \<or> strncmp arg_str ''-h'' 2 = 0 then Inr (HELP_REQUESTED, c)
      else if strncmp arg_str ''--version'' 9 = 0 \<or> strncmp arg_str ''-v'' 2 = 0 then Inr (VERSION_REQUESTED, c)
      else case snd (vec_find args (find_arg_fn arg_str)) of
        None \<Rightarrow> res_bind (vstr_format al (''unkown argument '' @ c_str arg_str)) (\<lambda>e. Inr (CLA_ERROR, c\<lparr>cla_error := e\<rparr>))
      | Some a \<Rightarrow>
          (case arg_type a of
             Null_t \<Rightarrow> clap_parse_args al c args argv
           | Int_t \<Rightarrow>
               (case argv of
                  [] \<Rightarrow> cla_missing al c arg_str ''int''
                | v # argv \<Rightarrow> res_bind (cla_insert al c a arg_str (object_new (Int_o (parse_int_arg v)))) (\<lambda>(ok, c).
                    if ok then clap_parse_args al c args argv else Inr (CLA_ERROR, c)))
           | String_t \<Rightarrow>
               (case argv of
                  [] \<Rightarrow> cla_missing al c arg_str ''string''
                | v # argv \<Rightarrow> res_bind (cla_insert al c a arg_str (object_new (String (parse_str_arg al v)))) (\<lambda>(ok, c).
                    if ok then clap_parse_args al c args argv else Inr (CLA_ERROR, c)))
           | _ \<Rightarrow> Inr (CLA_ERROR, c)))"
  by pat_completeness auto

termination
  by (relation "measure (\<lambda>(al, c, args, argv). length argv)") auto

section \<open>Help\<close>

definition help_line_len :: "arg \<Rightarrow> nat" where
  "help_line_len cur =
     (let flags = arg_flags cur in
      (if flags AND HAS_LONG \<noteq> 0 then vstr_len (long_arg cur) else 0) +
      (if flags AND HAS_LONG \<noteq> 0 \<and> flags AND HAS_SHORT \<noteq> 0 then 2 else if flags AND HAS_LONG \<noteq> 0 then 1 else 0) +
      (if flags AND HAS_SHORT \<noteq> 0 then vstr_len (short_arg cur) else 0) + 1 +
      (if arg_type cur \<noteq> Null_t then 3 + vstr_len (arg_name cur) else 0))"

definition find_longest_help_line :: "arg vec \<Rightarrow> nat res" where
  "find_longest_help_line args =
     res_bind (vec_iter_loop (vec_cap args + 1) (\<lambda>cur longest. Inr (True, max longest (help_line_len cur))) (vec_iter_new args) 0)
       (\<lambda>(go, longest). Inr longest)"

definition help_left :: "arg \<Rightarrow> string" where
  "help_left a =
     (let flags = arg_flags a in
      (if flags AND HAS_LONG \<noteq> 0 then c_str (vstr_data (long_arg a)) else []) @
      (if flags AND HAS_LONG \<noteq> 0 \<and> flags AND HAS_SHORT \<noteq> 0 then '', '' else if flags AND HAS_LONG \<noteq> 0 then '' '' else []) @
      (if flags AND HAS_SHORT \<noteq> 0 then c_str (vstr_data (short_arg a)) @ '' '' else []) @
      (if arg_type a \<noteq> Null_t then ''<'' @ c_str (vstr_data (arg_name a)) @ ''> '' else []))"

text \<open>
  \<^verbatim>\<open>cur_len\<close> at the end of a line of options: 1 is added twice where the short name is printed, once for the blank behind
  it.
\<close>

definition help_cur_len :: "arg \<Rightarrow> nat" where
  "help_cur_len a =
     (let flags = arg_flags a in
      (if flags AND HAS_LONG \<noteq> 0 then vstr_len (long_arg a) else 0) +
      (if flags AND HAS_LONG \<noteq> 0 \<and> flags AND HAS_SHORT \<noteq> 0 then 2 else if flags AND HAS_LONG \<noteq> 0 then 1 else 0) +
      (if flags AND HAS_SHORT \<noteq> 0 then vstr_len (short_arg a) + 1 else 0) + 1 +
      (if arg_type a \<noteq> Null_t then vstr_len (arg_name a) + 3 else 0))"

definition help_line :: "nat \<Rightarrow> arg \<Rightarrow> string" where
  "help_line longest a =
     [CHR 0x09] @ help_left a @
     (if arg_flags a AND HAS_DESCRIPTION \<noteq> 0
      then replicate (longest + 1 - help_cur_len a) (CHR '' '') @ c_str (vstr_data (arg_description a)) @ [LF] else [LF])"

definition show_help :: "string \<Rightarrow> arg vec \<Rightarrow> string res" where
  "show_help program_name args =
     res_bind (find_longest_help_line args) (\<lambda>longest.
       let longest = max longest 13;
           out = ''usage: '' @ c_str program_name @ '' <options>'' @ [LF] @
             [CHR 0x09] @ ''--help, -h'' @ replicate (longest - 10) (CHR '' '') @ ''show this page'' @ [LF] @
             [CHR 0x09] @ ''--version, -v'' @ replicate (longest - 13) (CHR '' '') @ ''get the version'' @ [LF] in
       res_bind (vec_iter_loop (vec_cap args + 1) (\<lambda>a out. Inr (True, out @ help_line longest a)) (vec_iter_new args) out)
         (\<lambda>(go, out). Inr out))"

section \<open>The interface\<close>

text \<open>\<^verbatim>\<open>parse_cmd_line_args\<close>; the second result is what is printed.\<close>

definition parse_cmd_line_args :: "allocator \<Rightarrow> string \<Rightarrow> arg vec \<Rightarrow> string list \<Rightarrow> (cla \<times> string) res" where
  "parse_cmd_line_args al random args argv =
     res_bind (ht_new al random sizeof_object False) (\<lambda>h.
     res_bind (clap_parse_args al \<lparr>help_requested = 0, version_requested = 0, has_error = 0, cla_error = Small (replicate 23 NUL) 0,
         cla_args = h\<rparr> args (tl argv)) (\<lambda>(parse_res, c).
       if parse_res = CLA_ERROR then Inr (c\<lparr>has_error := 1\<rparr>, [])
       else if parse_res = HELP_REQUESTED then res_bind (show_help (hd argv) args) (\<lambda>out. Inr (c\<lparr>help_requested := 1\<rparr>, out))
       else if parse_res = VERSION_REQUESTED then Inr (c\<lparr>version_requested := 1\<rparr>, [])
       else Inr (c, [])))"

definition args_get :: "cla \<Rightarrow> string \<Rightarrow> object option" where
  "args_get c name = ht_get str_keys (cla_args c) (c_str name)"

definition clap_has_error :: "cla \<Rightarrow> int" where
  "clap_has_error c = has_error c"

definition clap_error :: "cla \<Rightarrow> string" where
  "clap_error c = vstr_data (cla_error c)"

definition clap_help_requested :: "cla \<Rightarrow> int" where
  "clap_help_requested c = help_requested c"

definition clap_version_requested :: "cla \<Rightarrow> int" where
  "clap_version_requested c = version_requested c"

definition clap_free :: "cla \<Rightarrow> (string, object) freed list \<times> vstr" where
  "clap_free c = (ht_free False True (cla_args c), vstr_free (cla_error c))"

definition cmd_line_args_free :: "cla \<Rightarrow> (string, object) freed list" where
  "cmd_line_args_free c = ht_free False True (cla_args c)"

section \<open>The specification\<close>

text \<open>
  An option is known under its long and its short name. Reading goes from left to right: a request for the help or the
  version wins over what follows, an unknown option or a missing value is an error, and of several values for one
  option the first counts.
\<close>

datatype aoutcome = A_help | A_version | A_error string | A_parsed "string \<rightharpoonup> avalue"

definition add_first :: "(string \<rightharpoonup> avalue) \<Rightarrow> string \<Rightarrow> avalue \<Rightarrow> string \<rightharpoonup> avalue" where
  "add_first m name v = (if m name = None then m(name \<mapsto> v) else m)"

fun spec_args :: "(string \<Rightarrow> (string \<times> objectt) option) \<Rightarrow> string list \<Rightarrow> (string \<rightharpoonup> avalue) \<Rightarrow> aoutcome" where
  "spec_args opt [] m = A_parsed m"
| "spec_args opt (s # ss) m =
     (if take 6 s = ''--help'' \<or> take 2 s = ''-h'' then A_help
      else if take 9 s = ''--version'' \<or> take 2 s = ''-v'' then A_version
      else case opt s of
        None \<Rightarrow> A_error (''unkown argument '' @ s)
      | Some (name, Null_t) \<Rightarrow> spec_args opt ss m
      | Some (name, Int_t) \<Rightarrow>
          (case ss of [] \<Rightarrow> A_error (s @ '' requires an argument of type int'')
           | v # vs \<Rightarrow> spec_args opt vs (add_first m name (VInt (sint (atoll v)))))
      | Some (name, String_t) \<Rightarrow>
          (case ss of [] \<Rightarrow> A_error (s @ '' requires an argument of type string'')
           | v # vs \<Rightarrow> spec_args opt vs (add_first m name (VStr v)))
      | Some (name, _) \<Rightarrow> A_error [])"

definition option_named :: "arg vec \<Rightarrow> string \<Rightarrow> (string \<times> objectt) option" where
  "option_named args s =
     map_option (\<lambda>a. (vstr_str (arg_name a), arg_type a))
       (find (\<lambda>a. s = vstr_str (long_arg a) \<or> s = vstr_str (short_arg a)) (vec_list args))"

definition option_ok :: "arg \<Rightarrow> bool" where
  "option_ok a \<longleftrightarrow> vstr_clean (arg_name a) \<and> vstr_clean (long_arg a) \<and> vstr_clean (short_arg a) \<and>
     NUL \<notin> set (vstr_str (long_arg a)) \<and> NUL \<notin> set (vstr_str (short_arg a)) \<and>
     length (vstr_str (long_arg a)) \<noteq> length (vstr_str (short_arg a))"

definition argv_ok :: "string list \<Rightarrow> bool" where
  "argv_ok ss \<longleftrightarrow> (\<forall>s \<in> set ss. NUL \<notin> set s \<and> length s + 100 < VSTR_MAX_LARGE_SIZE)"

fun clean_val :: "object \<Rightarrow> bool" where
  "clean_val (String s) \<longleftrightarrow> vstr_clean s"
| "clean_val _ \<longleftrightarrow> True"

definition cla_ok :: "cla \<Rightarrow> bool" where
  "cla_ok c \<longleftrightarrow> ht_wf str_keys False (\<lambda>_. True) (cla_args c) \<and> (\<forall>v \<in> ran (ht_map (cla_args c)). clean_val v) \<and> help_requested c = 0 \<and> version_requested c = 0 \<and> has_error c = 0"

definition abs_cla :: "cla \<Rightarrow> string \<rightharpoonup> avalue" where
  "abs_cla c name = map_option obj_value (ht_map (cla_args c) name)"

section \<open>The parser implements it\<close>

lemma strncmp_prefix:
  assumes "NUL \<notin> set t" "length t = n"
  shows "strncmp s t n = 0 \<longleftrightarrow> take n s = t"
  using assms
proof (induction t arbitrary: s n)
  case (Cons x t)
  then show ?case by (cases s; cases n) auto
qed simp

lemma vstr_len_clean: "vstr_clean s \<Longrightarrow> vstr_len s = length (vstr_str s)"
  using vstr_len_le_data [of s] by (simp add: vstr_str_def vstr_clean_live vstr_live_wf)

lemma strncmp_vstr:
  assumes "vstr_clean v" "NUL \<notin> set (vstr_str v)" "vstr_len v = length s" "NUL \<notin> set s"
  shows "strncmp (vstr_data v) s (vstr_len v) = 0 \<longleftrightarrow> s = vstr_str v"
  using strncmp_eq_0 [of "vstr_len v" "vstr_data v" s] assms vstr_len_le_data [of v]
  by (auto simp: vstr_str_def vstr_clean_live vstr_live_wf)

lemma find_arg_matches:
  assumes "option_ok a" "NUL \<notin> set s"
  shows "find_arg_fn s a = 0 \<longleftrightarrow> s = vstr_str (long_arg a) \<or> s = vstr_str (short_arg a)"
proof -
  note ok = assms(1) [unfolded option_ok_def]
  have s: "strlen s = length s" using assms(2) by (simp add: strlen_def c_str_plain)
  have l: "vstr_len (long_arg a) = length (vstr_str (long_arg a))" "vstr_len (short_arg a) = length (vstr_str (short_arg a))"
    using ok vstr_len_clean by auto
  consider "length (vstr_str (long_arg a)) = length s" | "length (vstr_str (long_arg a)) \<noteq> length s" "length (vstr_str (short_arg a)) = length s"
    | "length (vstr_str (long_arg a)) \<noteq> length s" "length (vstr_str (short_arg a)) \<noteq> length s" by blast
  then show ?thesis
  proof cases
    case 1
    with ok have "s \<noteq> vstr_str (short_arg a)" by metis
    with 1 ok strncmp_vstr [of "long_arg a" s] assms(2) l show ?thesis by (simp add: find_arg_fn_def s)
  next
    case 2
    then have "s \<noteq> vstr_str (long_arg a)" by metis
    with 2 ok strncmp_vstr [of "short_arg a" s] assms(2) l show ?thesis by (simp add: find_arg_fn_def s)
  next
    case 3
    then have "s \<noteq> vstr_str (long_arg a)" "s \<noteq> vstr_str (short_arg a)" by metis+
    with 3 l show ?thesis by (simp add: find_arg_fn_def s)
  qed
qed

lemma find_eq: "(\<And>x. x \<in> set xs \<Longrightarrow> P x = Q x) \<Longrightarrow> find P xs = find Q xs"
  by (induction xs) auto

lemma snd_vec_find: "snd (vec_find v cmp) = find (\<lambda>x. cmp x = 0) (vec_list v)"
proof -
  have "snd (vec_find_from cmp xs i) = find (\<lambda>x. cmp x = 0) xs" for xs i by (induction xs arbitrary: i) auto
  then show ?thesis by (simp add: vec_find_def vec_list_def)
qed

lemma vec_find_option:
  assumes "\<forall>a \<in> set (vec_list args). option_ok a" "NUL \<notin> set s"
  shows "option_named args s = map_option (\<lambda>a. (vstr_str (arg_name a), arg_type a)) (snd (vec_find args (find_arg_fn s)))"
  unfolding option_named_def snd_vec_find using assms find_arg_matches by (auto intro!: arg_cong [where f = "map_option _"] find_eq)

lemma cla_insert_spec:
  assumes "cla_ok c" "alloc_total al" "vstr_clean (arg_name a)" "clean_val obj"
  shows "\<exists>c'. cla_insert al c a s obj = Inr (True, c') \<and> cla_ok c' \<and>
    abs_cla c' = add_first (abs_cla c) (vstr_str (arg_name a)) (obj_value obj)"
proof -
  have "ht_wf str_keys False (\<lambda>_. True) (cla_args c)" using assms(1) by (simp add: cla_ok_def)
  from sk.ht_try_insert_cases [OF this TrueI assms(2), of "vstr_str (arg_name a)" obj] obtain h where
    h: "ht_try_insert str_keys al (cla_args c) (vstr_str (arg_name a)) obj =
        Inr (if ht_map (cla_args c) (vstr_str (arg_name a)) = None then HT_OK else HT_INV_KEY, h)"
      "ht_wf str_keys False (\<lambda>_. True) h"
      "ht_map h = (if ht_map (cla_args c) (vstr_str (arg_name a)) = None
        then (ht_map (cla_args c))(vstr_str (arg_name a) \<mapsto> obj) else ht_map (cla_args c))" by blast
  then have "cla_insert al c a s obj = Inr (True, c\<lparr>cla_args := h\<rparr>)"
    by (simp add: cla_insert_def vstr_str_def [symmetric] Let_def)
  moreover have "cla_ok (c\<lparr>cla_args := h\<rparr>)" using assms(1,4) h(2,3) by (auto simp: cla_ok_def ran_def split: if_splits)
  moreover have "abs_cla (c\<lparr>cla_args := h\<rparr>) = add_first (abs_cla c) (vstr_str (arg_name a)) (obj_value obj)"
    using h(3) by (auto simp: abs_cla_def add_first_def fun_eq_iff)
  ultimately show ?thesis by blast
qed

lemma format_error:
  assumes "alloc_total al" "t \<noteq> []" "length t < VSTR_MAX_LARGE_SIZE" "NUL \<notin> set t"
  shows "\<exists>e. vstr_format al t = Inr e \<and> c_str (vstr_data e) = t"
  using vstr_format_total [OF assms(1-3)] c_str_clean assms(4) by metis

lemma cla_missing_spec:
  assumes "alloc_total al" "argv_ok [s]" "NUL \<notin> set ty" "length ty \<le> 10"
  shows "\<exists>c'. cla_missing al c s ty = Inr (CLA_ERROR, c') \<and> c_str (clap_error c') = s @ '' requires an argument of type '' @ ty"
proof -
  have "NUL \<notin> set s" "length s + 100 < VSTR_MAX_LARGE_SIZE" using assms(2) by (simp_all add: argv_ok_def)
  with format_error [OF assms(1), of "s @ '' requires an argument of type '' @ ty"] assms(3,4) obtain e where
    "vstr_format al (s @ '' requires an argument of type '' @ ty) = Inr e"
    "c_str (vstr_data e) = s @ '' requires an argument of type '' @ ty" by auto
  with \<open>NUL \<notin> set s\<close> show ?thesis by (simp add: cla_missing_def c_str_plain clap_error_def)
qed

definition outcome_holds :: "(int \<times> cla) res \<Rightarrow> aoutcome \<Rightarrow> bool" where
  "outcome_holds r o1 = (case o1 of
     A_help \<Rightarrow> \<exists>c. r = Inr (HELP_REQUESTED, c)
   | A_version \<Rightarrow> \<exists>c. r = Inr (VERSION_REQUESTED, c)
   | A_error e \<Rightarrow> \<exists>c. r = Inr (CLA_ERROR, c) \<and> (e \<noteq> [] \<longrightarrow> c_str (clap_error c) = e)
   | A_parsed m \<Rightarrow> \<exists>c. r = Inr (0, c) \<and> cla_ok c \<and> abs_cla c = m)"

text \<open>The two ways to go on after an entry that asks for neither the help nor the version.\<close>

definition asks :: "string \<Rightarrow> bool" where
  "asks s \<longleftrightarrow> (take 6 s = ''--help'' \<or> take 2 s = ''-h'') \<or> (take 9 s = ''--version'' \<or> take 2 s = ''-v'')"

lemma asks_strncmp:
  "strncmp s ''--help'' 6 = 0 \<longleftrightarrow> take 6 s = ''--help''" "strncmp s ''-h'' 2 = 0 \<longleftrightarrow> take 2 s = ''-h''"
  "strncmp s ''--version'' 9 = 0 \<longleftrightarrow> take 9 s = ''--version''" "strncmp s ''-v'' 2 = 0 \<longleftrightarrow> take 2 s = ''-v''"
  by (simp_all add: strncmp_prefix)

lemma clap_asks:
  "asks s \<Longrightarrow> outcome_holds (clap_parse_args al c args (s # ss)) (spec_args (option_named args) (s # ss) m)"
  by (auto simp: asks_def asks_strncmp outcome_holds_def)

lemma clap_unknown:
  assumes "\<not> asks s" "snd (vec_find args (find_arg_fn s)) = None" "option_named args s = None" "argv_ok [s]" "alloc_total al"
  shows "outcome_holds (clap_parse_args al c args (s # ss)) (spec_args (option_named args) (s # ss) m)"
proof -
  have s: "NUL \<notin> set s" "length s + 100 < VSTR_MAX_LARGE_SIZE" using assms(4) by (simp_all add: argv_ok_def)
  from format_error [OF assms(5), of "''unkown argument '' @ s"] s obtain e where
    "vstr_format al (''unkown argument '' @ s) = Inr e" "c_str (vstr_data e) = ''unkown argument '' @ s" by auto
  with assms(1-3) s(1) show ?thesis
    by (simp add: asks_def asks_strncmp outcome_holds_def c_str_plain clap_error_def)
qed

lemma clap_known:
  assumes "\<not> asks s" "snd (vec_find args (find_arg_fn s)) = Some a" "option_named args s = Some (vstr_str (arg_name a), arg_type a)"
    and "vstr_clean (arg_name a)" "argv_ok (s # ss)" "cla_ok c" "alloc_total al"
    and "\<And>c vs. length vs \<le> length ss \<Longrightarrow> argv_ok vs \<Longrightarrow> cla_ok c \<Longrightarrow>
      outcome_holds (clap_parse_args al c args vs) (spec_args (option_named args) vs (abs_cla c))"
  shows "outcome_holds (clap_parse_args al c args (s # ss)) (spec_args (option_named args) (s # ss) (abs_cla c))"
proof -
  have ins: "outcome_holds (res_bind (cla_insert al c a s obj) (\<lambda>(ok, c). if ok then clap_parse_args al c args vs else Inr (CLA_ERROR, c)))
      (spec_args (option_named args) vs (add_first (abs_cla c) (vstr_str (arg_name a)) (obj_value obj)))"
    if "ss = v # vs" "clean_val obj" for v vs obj
  proof -
    from cla_insert_spec [OF assms(6,7,4) that(2), of s] obtain c' where
      c': "cla_insert al c a s obj = Inr (True, c')" "cla_ok c'"
        "abs_cla c' = add_first (abs_cla c) (vstr_str (arg_name a)) (obj_value obj)" by blast
    have "length vs \<le> length ss" "argv_ok vs" using that assms(5) by (auto simp: argv_ok_def)
    from assms(8) [OF this c'(2)] c' show ?thesis by simp
  qed
  have str: "vstr_clean (vstr_from al v)" "vstr_str (vstr_from al v) = v" if "ss = v # vs" for v vs
    using that assms(5) vstr_from_plain [OF assms(7), of v] by (simp_all add: argv_ok_def)
  have s: "argv_ok [s]" "argv_ok ss" using assms(5) by (auto simp: argv_ok_def)
  note miss = cla_missing_spec [OF assms(7) s(1), of _ c]
  note step = asks_def asks_strncmp
  show ?thesis
  proof (cases "arg_type a")
    case Null_t
    with assms(1-3) assms(8) [OF le_refl s(2) assms(6)] show ?thesis by (simp add: step)
  next
    case Int_t
    show ?thesis
    proof (cases ss)
      case Nil
      with assms(1-3) Int_t miss [of "''int''"] show ?thesis by (auto simp: step outcome_holds_def)
    next
      case (Cons v vs)
      with assms(1-3) Int_t ins [OF Cons, of "Int_o (atoll v)"] show ?thesis by (simp add: step object_new_def parse_int_arg_def)
    qed
  next
    case String_t
    show ?thesis
    proof (cases ss)
      case Nil
      with assms(1-3) String_t miss [of "''string''"] show ?thesis by (auto simp: step outcome_holds_def)
    next
      case (Cons v vs)
      with assms(1-3) String_t ins [OF Cons, of "String (vstr_from al v)"] str [OF Cons] show ?thesis
        by (simp add: step object_new_def parse_str_arg_def)
    qed
  qed (use assms(1-3) in \<open>simp_all add: step outcome_holds_def\<close>)
qed

lemma clap_parse_args_spec:
  assumes "\<forall>a \<in> set (vec_list args). option_ok a" "argv_ok ss" "cla_ok c" "alloc_total al"
  shows "outcome_holds (clap_parse_args al c args ss) (spec_args (option_named args) ss (abs_cla c))"
  using assms
proof (induction "length ss" arbitrary: ss c rule: less_induct)
  case less
  show ?case
  proof (cases ss)
    case Nil
    with less.prems(3) show ?thesis by (simp add: outcome_holds_def)
  next
    case (Cons s rest)
    have s: "NUL \<notin> set s" "argv_ok [s]" "argv_ok (s # rest)" using less.prems(2) Cons by (auto simp: argv_ok_def)
    note opt = vec_find_option [OF less.prems(1) s(1)]
    have IH: "outcome_holds (clap_parse_args al c args vs) (spec_args (option_named args) vs (abs_cla c))"
      if "length vs \<le> length rest" "argv_ok vs" "cla_ok c" for vs c
      using less.hyps [of vs c] that less.prems(1,4) Cons by simp
    show ?thesis
    proof (cases "snd (vec_find args (find_arg_fn s))")
      case None
      with clap_asks clap_unknown [OF _ None _ s(2) less.prems(4)] opt Cons show ?thesis by (cases "asks s") simp_all
    next
      case (Some a)
      have "vstr_clean (arg_name a)"
        using less.prems(1) Some by (auto simp: snd_vec_find find_Some_iff option_ok_def)
      moreover have "option_named args s = Some (vstr_str (arg_name a), arg_type a)" using opt Some by simp
      ultimately show ?thesis
        using clap_asks [of s] clap_known [OF _ Some _ _ s(3) less.prems(3,4) IH] Cons by (cases "asks s") blast+
    qed
  qed
qed

section \<open>The help text\<close>

lemma run_body_pure: "run_body (\<lambda>x s. Inr (True, f x s)) xs s = Inr (True, fold f xs s)"
  by (induction xs arbitrary: s) simp_all

lemma iter_pure:
  assumes "vec_wf v" "vec_list v \<noteq> []" "vec_len v + 2 < 2 ^ 64"
  shows "vec_iter_loop (vec_cap v + 1) (\<lambda>x s. Inr (True, f x s)) (vec_iter_new v) s = Inr (True, fold f (vec_list v) s)"
  unfolding vec_iter_loop_visits [OF assms less_add_one] by (rule run_body_pure)

lemma show_help_total:
  assumes "vec_wf args" "vec_list args \<noteq> []" "vec_len args + 2 < 2 ^ 64"
  shows "\<exists>out. show_help prog args = Inr out"
  unfolding show_help_def find_longest_help_line_def Let_def iter_pure [OF assms] by simp

lemma longest_bound:
  assumes "vec_wf args" "vec_list args \<noteq> []" "vec_len args + 2 < 2 ^ 64" "find_longest_help_line args = Inr n" "a \<in> set (vec_list args)"
  shows "help_line_len a \<le> n"
proof -
  have "a \<in> set xs \<Longrightarrow> help_line_len a \<le> fold (\<lambda>x m. max m (help_line_len x)) xs m"
    "m \<le> fold (\<lambda>x m. max m (help_line_len x)) xs m" for xs :: "arg list" and m
    by (induction xs arbitrary: m) (auto, (metis max.bounded_iff max.cobounded2 order.trans)+)
  with assms(4,5) show ?thesis unfolding find_longest_help_line_def iter_pure [OF assms(1-3)] by auto
qed

text \<open>The descriptions stand in one column: the text before one is as wide as the longest line asks for.\<close>

lemma help_column:
  assumes "option_ok a" "NUL \<notin> set (vstr_str (arg_name a))" "help_line_len a \<le> n" "arg_flags a AND HAS_DESCRIPTION \<noteq> 0"
  shows "\<exists>left. help_line n a = [CHR 0x09] @ left @ c_str (vstr_data (arg_description a)) @ [LF] \<and> length left = n"
proof -
  note ok = assms(1) [unfolded option_ok_def]
  have str: "c_str (vstr_data (arg_name a)) = vstr_str (arg_name a)" "c_str (vstr_data (long_arg a)) = vstr_str (long_arg a)"
    "c_str (vstr_data (short_arg a)) = vstr_str (short_arg a)" using ok assms(2) c_str_clean by blast+
  have len: "vstr_len (arg_name a) = length (vstr_str (arg_name a))" "vstr_len (long_arg a) = length (vstr_str (long_arg a))"
    "vstr_len (short_arg a) = length (vstr_str (short_arg a))" using ok vstr_len_clean by blast+
  have cur: "help_cur_len a = length (help_left a) + 1"
    by (simp add: help_cur_len_def help_left_def Let_def str len)
  have "length (help_left a) \<le> help_line_len a"
    by (simp add: help_line_len_def help_left_def Let_def str len)
  with assms(3) cur have "length (help_left a @ replicate (n + 1 - help_cur_len a) (CHR '' '')) = n" by simp
  with assms(4) show ?thesis unfolding help_line_def
    by (intro exI [of _ "help_left a @ replicate (n + 1 - help_cur_len a) (CHR '' '')"]) simp
qed

section \<open>Properties\<close>

lemma parse_cmd_line_args_spec:
  assumes "\<forall>a \<in> set (vec_list args). option_ok a" "vec_wf args" "vec_list args \<noteq> []" "vec_len args + 2 < 2 ^ 64"
    and "argv_ok ss" "alloc_total al"
  shows "\<exists>c out. parse_cmd_line_args al rnd args (prog # ss) = Inr (c, out) \<and>
    (case spec_args (option_named args) ss Map.empty of
       A_help \<Rightarrow> clap_help_requested c = 1
     | A_version \<Rightarrow> clap_version_requested c = 1
     | A_error e \<Rightarrow> clap_has_error c = 1 \<and> (e \<noteq> [] \<longrightarrow> c_str (clap_error c) = e)
     | A_parsed m \<Rightarrow> clap_help_requested c = 0 \<and> clap_version_requested c = 0 \<and> clap_has_error c = 0 \<and>
         (\<forall>name. NUL \<notin> set name \<longrightarrow> map_option obj_value (args_get c name) = m name \<and>
            (\<forall>v. args_get c name = Some v \<longrightarrow> clean_val v)))"
proof -
  obtain h where h: "ht_new al rnd sizeof_object False = Inr (h :: (string, object) ht)" using ht_new_total [OF assms(6)] by blast
  define c0 where "c0 = \<lparr>help_requested = 0, version_requested = 0, has_error = 0, cla_error = Small (replicate 23 NUL) 0, cla_args = h\<rparr>"
  have c0: "cla_ok c0" "abs_cla c0 = Map.empty"
    using ht_new_spec(1,2) [OF h] by (auto simp: c0_def cla_ok_def abs_cla_def ran_def)
  note spec = clap_parse_args_spec [OF assms(1,5) c0(1) assms(6), unfolded c0(2) outcome_holds_def]
  note run = parse_cmd_line_args_def h c0_def [symmetric]
  show ?thesis
  proof (cases "spec_args (option_named args) ss Map.empty")
    case A_help
    with spec obtain c where "clap_parse_args al c0 args ss = Inr (HELP_REQUESTED, c)" by auto
    with A_help show_help_total [OF assms(2-4), of prog] show ?thesis by (auto simp: run clap_help_requested_def)
  next
    case A_version
    with spec obtain c where "clap_parse_args al c0 args ss = Inr (VERSION_REQUESTED, c)" by auto
    with A_version show ?thesis by (auto simp: run clap_version_requested_def)
  next
    case (A_error e)
    with spec obtain c where "clap_parse_args al c0 args ss = Inr (CLA_ERROR, c)" "e \<noteq> [] \<longrightarrow> c_str (clap_error c) = e" by auto
    with A_error show ?thesis by (auto simp: run clap_has_error_def clap_error_def)
  next
    case (A_parsed m)
    with spec obtain c where c: "clap_parse_args al c0 args ss = Inr (0, c)" "cla_ok c" "abs_cla c = m" by auto
    have "map_option obj_value (args_get c name) = m name \<and> (\<forall>v. args_get c name = Some v \<longrightarrow> clean_val v)"
      if "NUL \<notin> set name" for name
    proof -
      have "args_get c name = ht_map (cla_args c) name"
        using c(2) that sk.ht_get_map [of "cla_args c" name] by (simp add: args_get_def c_str_plain cla_ok_def)
      moreover have "\<forall>v. ht_map (cla_args c) name = Some v \<longrightarrow> clean_val v" using c(2) by (auto simp: cla_ok_def ran_def)
      ultimately show ?thesis using c(3) by (auto simp: abs_cla_def)
    qed
    with A_parsed c show ?thesis
      by (auto simp: run clap_has_error_def clap_help_requested_def clap_version_requested_def cla_ok_def)
  qed
qed

text \<open>
  C19. The options of the program are read as specified: for every list of arguments and every table of known options whose long
  and short names differ in length, \<^verbatim>\<open>parse_cmd_line_args\<close> reports a request for the help or the version, an error with its message,
  or a table in which \<^verbatim>\<open>args_get\<close> finds for each option its first value, whichever the specification
  says; it always returns.
\<close>

theorem options_read:
  assumes "\<forall>a \<in> set (vec_list args). option_ok a" "vec_wf args" "vec_list args \<noteq> []" "vec_len args + 2 < 2 ^ 64"
    and "argv_ok ss" "alloc_total al"
  shows "\<exists>c out. parse_cmd_line_args al rnd args (prog # ss) = Inr (c, out) \<and>
    (case spec_args (option_named args) ss Map.empty of
       A_help \<Rightarrow> clap_help_requested c = 1
     | A_version \<Rightarrow> clap_version_requested c = 1
     | A_error e \<Rightarrow> clap_has_error c = 1 \<and> (e \<noteq> [] \<longrightarrow> c_str (clap_error c) = e)
     | A_parsed m \<Rightarrow> clap_help_requested c = 0 \<and> clap_version_requested c = 0 \<and> clap_has_error c = 0 \<and>
         (\<forall>name. NUL \<notin> set name \<longrightarrow> map_option obj_value (args_get c name) = m name))"
proof -
  from parse_cmd_line_args_spec [OF assms, of rnd prog] obtain c out where
    "parse_cmd_line_args al rnd args (prog # ss) = Inr (c, out)"
    "case spec_args (option_named args) ss Map.empty of
       A_help \<Rightarrow> clap_help_requested c = 1
     | A_version \<Rightarrow> clap_version_requested c = 1
     | A_error e \<Rightarrow> clap_has_error c = 1 \<and> (e \<noteq> [] \<longrightarrow> c_str (clap_error c) = e)
     | A_parsed m \<Rightarrow> clap_help_requested c = 0 \<and> clap_version_requested c = 0 \<and> clap_has_error c = 0 \<and>
         (\<forall>name. NUL \<notin> set name \<longrightarrow> map_option obj_value (args_get c name) = m name \<and>
            (\<forall>v. args_get c name = Some v \<longrightarrow> clean_val v))" by blast
  then show ?thesis by (cases "spec_args (option_named args) ss Map.empty") auto
qed

text \<open>The one option of the server.\<close>

lemma config_option:
  assumes "alloc_total al"
  obtains as args where "args_new al = Some as"
    "args_add al as (Some ''config file path'') (Some ''-c'') (Some ''--config'')
       (Some ''the path to the configuration file to configure lexidb'') String_t = Inr (0, args)"
    "\<forall>a \<in> set (vec_list args). option_ok a" "vec_wf args" "vec_list args \<noteq> []" "vec_len args + 2 < 2 ^ 64"
    "option_named args = (\<lambda>s. if s = ''-c'' \<or> s = ''--config'' then Some (''config file path'', String_t) else None)"
proof -
  obtain as where as: "args_new al = Some as" using vec_new_total [OF assms, of arg_zero sizeof_arg] by (auto simp: args_new_def)
  note new = vec_new_spec [OF as [unfolded args_new_def]]
  note str = vstr_from_plain [OF assms]
  define a where "a = \<lparr>arg_name = vstr_from al ''config file path'', short_arg = vstr_from al ''-c'', long_arg = vstr_from al ''--config'',
    arg_description = vstr_from al ''the path to the configuration file to configure lexidb'', arg_type = String_t, arg_flags = 7 :: 32 word\<rparr>"
  from vst.push_law [OF new(1) assms, of arg_zero a] new(2) obtain args where
    p: "vec_push al arg_zero as a = (0, args)" "vec_wf args" "vec_list args = [a]" by auto
  have "args_add al as (Some ''config file path'') (Some ''-c'') (Some ''--config'')
      (Some ''the path to the configuration file to configure lexidb'') String_t = Inr (0, args)"
    using p(1) by (simp add: args_add_def arg_new_def a_def)
  moreover have "option_ok a" using str [of "''config file path''"] str [of "''-c''"] str [of "''--config''"]
    by (simp add: a_def option_ok_def VSTR_MAX_LARGE_SIZE_def)
  moreover have "option_named args = (\<lambda>s. if s = ''-c'' \<or> s = ''--config'' then Some (''config file path'', String_t) else None)"
    using p(3) str(2) [of "''config file path''"] str(2) [of "''-c''"] str(2) [of "''--config''"]
    by (auto simp: option_named_def a_def VSTR_MAX_LARGE_SIZE_def fun_eq_iff)
  moreover have "vec_len args = 1" using p(2,3) length_vec_list [of args] by simp
  ultimately show thesis using as p(2,3) by (intro that [of as args]) simp_all
qed

theorem options_read_witness:
  "\<exists>args c out. parse_cmd_line_args (\<lambda>_. 4096) (replicate 16 NUL) args [''lexidb'', ''-c'', ''a.conf'', ''--config'', ''b.conf''] = Inr (c, out) \<and>
     clap_has_error c = 0 \<and> map_option obj_value (args_get c ''config file path'') = Some (VStr ''a.conf'')"
proof -
  have al: "alloc_total (\<lambda>_. 4096)" by simp
  obtain args where a: "\<forall>a \<in> set (vec_list args). option_ok a" "vec_wf args" "vec_list args \<noteq> []" "vec_len args + 2 < 2 ^ 64"
    "option_named args = (\<lambda>s. if s = ''-c'' \<or> s = ''--config'' then Some (''config file path'', String_t) else None)"
    using config_option [OF al] by blast
  have ss: "argv_ok [''-c'', ''a.conf'', ''--config'', ''b.conf'']" by (simp add: argv_ok_def VSTR_MAX_LARGE_SIZE_def)
  have spec: "spec_args (option_named args) [''-c'', ''a.conf'', ''--config'', ''b.conf''] Map.empty = A_parsed [''config file path'' \<mapsto> VStr ''a.conf'']"
    by (simp add: a(5) add_first_def)
  from options_read [OF a(1-4) ss al, of "replicate 16 NUL" "''lexidb''"] obtain c out where
    c: "parse_cmd_line_args (\<lambda>_. 4096) (replicate 16 NUL) args [''lexidb'', ''-c'', ''a.conf'', ''--config'', ''b.conf''] = Inr (c, out)"
      "clap_has_error c = 0" "\<forall>name. NUL \<notin> set name \<longrightarrow> map_option obj_value (args_get c name) = [''config file path'' \<mapsto> VStr ''a.conf''] name"
    unfolding spec by auto
  from c(3) [rule_format, of "''config file path''"] have "map_option obj_value (args_get c ''config file path'') = Some (VStr ''a.conf'')"
    by simp
  with c(1,2) show ?thesis by blast
qed

end
