(* ===== verification/Program.thy ===== *)
theory Program
  imports Setup Clap
begin

text \<open>
  The program from its arguments to its end (\<^verbatim>\<open>server_run\<close> of \<^verbatim>\<open>src/src/server.c\<close>, which the \<^verbatim>\<open>main\<close> of
  \<^verbatim>\<open>src/src/db.c\<close> calls). What it prints is left out.
\<close>

section \<open>Starting and running\<close>

text \<open>
  The configuration file: the value of the option or the default path, as \<^verbatim>\<open>realpath\<close> resolves it. The option holds a
  string, since that is its type.
\<close>

definition find_config :: "allocator \<Rightarrow> (string \<Rightarrow> string option) \<Rightarrow> cla \<Rightarrow> vstr option" where
  "find_config al realpath c =
     (let path = (case args_get c ''config file path'' of Some obj \<Rightarrow> vstr_data (obj_string obj) | None \<Rightarrow> ''../lexi.conf'') in
      case realpath (c_str path) of
        None \<Rightarrow> None
      | Some real_path \<Rightarrow> Some (vstr_from_len al real_path (strlen real_path)))"

datatype 'a started = Exit int | Up "'a server"

text \<open>
  \<^verbatim>\<open>server_run\<close> up to the event loop, given what \<^verbatim>\<open>sigaction\<close> returns and the contents of the files.
\<close>

definition server_start :: "'a senv \<Rightarrow> boot \<Rightarrow> (string \<Rightarrow> string option) \<Rightarrow> (string \<Rightarrow> string option) \<Rightarrow> int \<Rightarrow> string list \<Rightarrow>
    'a started res" where
  "server_start S B files realpath sigint argv =
     (let al = se_al S in
      if create_sigint_handler sigint = - 1 then Inr (Exit 1)
      else case args_new al of
        None \<Rightarrow> Inl Null_deref
      | Some args \<Rightarrow>
          res_bind (args_add al args (Some ''config file path'') (Some ''-c'') (Some ''--config'')
            (Some ''the path to the configuration file to configure lexidb'') String_t) (\<lambda>(_, args).
          res_bind (parse_cmd_line_args al (e_random (se_env S)) args argv) (\<lambda>(c, out).
            if clap_has_error c \<noteq> 0 then Inr (Exit 0)
            else if clap_version_requested c \<noteq> 0 then Inr (Exit 0)
            else if clap_help_requested c \<noteq> 0 then Inr (Exit 0)
            else case find_config al realpath c of
              None \<Rightarrow> Inr (Exit 1)
            | Some conf_file_path \<Rightarrow>
                res_bind (server_new S (B\<lparr>bt_file := files (c_str (vstr_data conf_file_path))\<rparr>) conf_file_path) (\<lambda>rs.
                  case rs of Err e \<Rightarrow> Inr (Exit 1) | Ok s \<Rightarrow> Inr (Up s)))))"

text \<open>
  All of \<^verbatim>\<open>server_run\<close>, for the descriptors that polling reports in turn: its exit code, or \<^term>\<open>None\<close> as long as the
  loop goes on.
\<close>

definition server_run :: "'a senv \<Rightarrow> boot \<Rightarrow> (string \<Rightarrow> string option) \<Rightarrow> (string \<Rightarrow> string option) \<Rightarrow> int \<Rightarrow> (nat \<Rightarrow> io) \<Rightarrow>
    (nat \<times> 32 word) list list \<Rightarrow> string list \<Rightarrow> int option res" where
  "server_run S B files realpath sigint ios polls argv =
     res_bind (server_start S B files realpath sigint argv) (\<lambda>st. case st of
       Exit n \<Rightarrow> Inr (Some n)
     | Up s \<Rightarrow> res_bind (server_loop S ios polls s) (\<lambda>(finished, s, i, out).
         if finished then res_bind (server_free s) (\<lambda>_. Inr (Some 0)) else Inr None))"

section \<open>The options of the server\<close>

text \<open>The one option that it knows, and the name of the configuration file after the options were read.\<close>

definition server_option :: "string \<Rightarrow> (string \<times> objectt) option" where
  "server_option s = (if s = ''-c'' \<or> s = ''--config'' then Some (''config file path'', String_t) else None)"

definition config_path :: "(string \<rightharpoonup> avalue) \<Rightarrow> string" where
  "config_path m = (case m ''config file path'' of Some (VStr v) \<Rightarrow> v | _ \<Rightarrow> ''../lexi.conf'')"

lemma spec_server_option:
  assumes "spec_args server_option ss m = A_parsed m'" "\<forall>x \<in> ran m. \<exists>v. x = VStr v \<and> NUL \<notin> set v" "argv_ok ss"
  shows "\<forall>x \<in> ran m'. \<exists>v. x = VStr v \<and> NUL \<notin> set v"
  using assms
proof (induction ss arbitrary: m rule: length_induct)
  case (1 ss)
  show ?case
  proof (cases ss)
    case Nil
    with 1 show ?thesis by simp
  next
    case (Cons s rest)
    have "server_option s = None \<or> server_option s = Some (''config file path'', String_t)" by (simp add: server_option_def)
    with Cons 1(2) obtain v vs where vs: "rest = v # vs" "spec_args server_option vs (add_first m ''config file path'' (VStr v)) = A_parsed m'"
      by (auto split: if_splits list.splits)
    have "argv_ok vs" "NUL \<notin> set v" using 1(4) Cons vs(1) by (simp_all add: argv_ok_def)
    moreover have "\<forall>x \<in> ran (add_first m ''config file path'' (VStr v)). \<exists>w. x = VStr w \<and> NUL \<notin> set w"
      using 1(3) calculation(2) by (auto simp: add_first_def ran_def split: if_splits)
    ultimately show ?thesis using 1(1) [rule_format, of vs] vs Cons by auto
  qed
qed

lemma find_config_reads:
  assumes "map_option obj_value (args_get c ''config file path'') = m ''config file path''"
    and "\<forall>x. args_get c ''config file path'' = Some x \<longrightarrow> clean_val x" "\<forall>x \<in> ran m. \<exists>v. x = VStr v \<and> NUL \<notin> set v"
  shows "find_config al realpath c = map_option (\<lambda>path. vstr_from_len al path (strlen path)) (realpath (config_path m))"
proof (cases "args_get c ''config file path''")
  case None
  with assms(1) have "config_path m = ''../lexi.conf''" by (cases "m ''config file path''") (auto simp: config_path_def)
  with None show ?thesis by (simp add: find_config_def c_str_def split: option.splits)
next
  case (Some x)
  with assms(1) have x: "m ''config file path'' = Some (obj_value x)" by simp
  from assms(3) [rule_format, OF ranI [of m, OF x]] obtain v where "obj_value x = VStr v" "NUL \<notin> set v" by blast
  with x have v: "m ''config file path'' = Some (VStr v)" "obj_value x = VStr v" "NUL \<notin> set v" by simp_all
  then obtain s where s: "x = String s" "vstr_str s = v" by (cases x) auto
  then have "c_str (vstr_data s) = v" using assms(2) v(3) Some c_str_clean [of s] by auto
  with Some s(1) v(1) show ?thesis by (simp add: find_config_def config_path_def split: option.splits)
qed

lemma server_start_options:
  assumes "alloc_total (se_al S)" "argv_ok ss" "sigint \<noteq> - 1"
  shows "server_start S B files realpath sigint (prog # ss) =
    (case spec_args server_option ss Map.empty of
       A_parsed m \<Rightarrow>
         (case realpath (config_path m) of
            None \<Rightarrow> Inr (Exit 1)
          | Some path \<Rightarrow>
              let conf = vstr_from_len (se_al S) path (strlen path) in
              res_bind (server_new S (B\<lparr>bt_file := files (c_str (vstr_data conf))\<rparr>) conf) (\<lambda>rs.
                case rs of Err e \<Rightarrow> Inr (Exit 1) | Ok s \<Rightarrow> Inr (Up s)))
     | _ \<Rightarrow> Inr (Exit 0))"
proof -
  let ?al = "se_al S" and ?rnd = "e_random (se_env S)"
  obtain as args where args: "args_new ?al = Some as"
    "args_add ?al as (Some ''config file path'') (Some ''-c'') (Some ''--config'')
       (Some ''the path to the configuration file to configure lexidb'') String_t = Inr (0, args)"
    "\<forall>a \<in> set (vec_list args). option_ok a" "vec_wf args" "vec_list args \<noteq> []" "vec_len args + 2 < 2 ^ 64"
    "option_named args = (\<lambda>s. if s = ''-c'' \<or> s = ''--config'' then Some (''config file path'', String_t) else None)"
    by (rule config_option [OF assms(1)])
  have opt: "option_named args = server_option" unfolding args(7) by (simp add: fun_eq_iff server_option_def)
  obtain c out where c: "parse_cmd_line_args ?al ?rnd args (prog # ss) = Inr (c, out)"
    "case spec_args server_option ss Map.empty of
       A_help \<Rightarrow> clap_help_requested c = 1
     | A_version \<Rightarrow> clap_version_requested c = 1
     | A_error e \<Rightarrow> clap_has_error c = 1 \<and> (e \<noteq> [] \<longrightarrow> c_str (clap_error c) = e)
     | A_parsed m \<Rightarrow> clap_help_requested c = 0 \<and> clap_version_requested c = 0 \<and> clap_has_error c = 0 \<and>
         (\<forall>name. NUL \<notin> set name \<longrightarrow> map_option obj_value (args_get c name) = m name \<and>
            (\<forall>v. args_get c name = Some v \<longrightarrow> clean_val v))"
    using parse_cmd_line_args_spec [OF args(3-6) assms(2,1), of ?rnd prog] unfolding opt by blast
  note run = server_start_def create_sigint_handler_def Let_def args(1,2) c(1)
  show ?thesis
  proof (cases "spec_args server_option ss Map.empty")
    case (A_parsed m)
    with c(2) have m: "clap_help_requested c = 0" "clap_version_requested c = 0" "clap_has_error c = 0"
      "\<forall>name. NUL \<notin> set name \<longrightarrow> map_option obj_value (args_get c name) = m name \<and> (\<forall>v. args_get c name = Some v \<longrightarrow> clean_val v)"
      by simp_all
    from m(4) [rule_format, of "''config file path''"]
    have p: "map_option obj_value (args_get c ''config file path'') = m ''config file path''"
      "\<forall>x. args_get c ''config file path'' = Some x \<longrightarrow> clean_val x" by simp_all
    have "\<forall>x \<in> ran m. \<exists>v. x = VStr v \<and> NUL \<notin> set v" using spec_server_option [OF A_parsed _ assms(2)] by simp
    from find_config_reads [OF p this] A_parsed m(1-3) assms(3) show ?thesis
      by (simp add: run split: option.splits)
  qed (use c(2) assms(3) in \<open>auto simp: run\<close>)
qed

text \<open>When the loop has ended, everything is freed and the exit code is 0.\<close>

lemma program_ends:
  assumes "server_start S B files realpath sigint argv = Inr (Up s)" "server_loop S ios polls s = Inr (True, s', i, out)"
    and "server_ok watched s'" "\<forall>d \<in> set (sv_db s'). db_ok S d"
  shows "server_run S B files realpath sigint ios polls argv = Inr (Some 0)"
  using server_free_spec [OF assms(3,4)] assms(1,2) by (auto simp: server_run_def)

section \<open>Properties\<close>



end
