(* ===== verification/Hilexi.thy ===== *)
theory Hilexi
  imports Loop Networking
begin

text \<open>
  The client library (\<^verbatim>\<open>src/src/hilexi.h\<close>, \<^verbatim>\<open>src/src/hilexi.c\<close>): the connection, its buffers, and one function
  per command. What the socket returns is given with each call; the bytes that are sent are a result. A
  list of results that ends while a loop still waits gives \<^term>\<open>Inl Out_of_fuel\<close>.
\<close>

section \<open>The connection\<close>

record hilexi =
  hl_sfd :: int
  hl_addr :: "32 word"
  hl_port :: "16 word"
  hl_flags :: "16 word"
  hl_builder :: builder
  hl_read_buf :: string
  hl_read_pos :: nat
  hl_read_cap :: nat

abbreviation READ_BUF_INITIAL_CAP :: nat where "READ_BUF_INITIAL_CAP \<equiv> 4096"

text \<open>What a failing call leaves in \<^verbatim>\<open>errno\<close>, with its text.\<close>

type_synonym errno = "int \<times> string"

text \<open>\<^verbatim>\<open>hilexi_new\<close>, given the descriptor that \<^verbatim>\<open>create_tcp_socket\<close> returns.\<close>

definition hilexi_new :: "allocator \<Rightarrow> int \<Rightarrow> errno \<Rightarrow> string \<Rightarrow> 16 word \<Rightarrow> hilexi result res" where
  "hilexi_new al sfd err addr port =
     (if sfd = - 1 then
        res_bind (vstr_format al (''failed to make socket (errno '' @ fmt_ld (fst err) @ '') '' @ snd err)) (\<lambda>m. Inr (Err m))
      else if al READ_BUF_INITIAL_CAP = 0 then
        res_bind (vstr_format al ''failed to allocate read buffer'') (\<lambda>m. Inr (Err m))
      else Inr (Ok \<lparr>hl_sfd = sfd, hl_addr = parse_addr addr, hl_port = port, hl_flags = 0, hl_builder = builder_new,
        hl_read_buf = replicate READ_BUF_INITIAL_CAP NUL, hl_read_pos = 0, hl_read_cap = READ_BUF_INITIAL_CAP\<rparr>))"

text \<open>
  \<^verbatim>\<open>hilexi_connect\<close>: what \<^verbatim>\<open>connect\<close> answers in turn, for a descriptor and an address, each answer with that
  to \<^verbatim>\<open>errno == EINPROGRESS\<close>.
\<close>

fun hilexi_connect :: "(int \<Rightarrow> sockaddr_in \<Rightarrow> int \<times> bool) list \<Rightarrow> hilexi \<Rightarrow> int res" where
  "hilexi_connect [] l = Inl Out_of_fuel"
| "hilexi_connect (connect # cs) l =
     (let (res, in_progress) = tcp_connect connect (hl_sfd l) (hl_addr l) (hl_port l) in
      if res = 0 then Inr res
      else if res = - 1 then if in_progress then hilexi_connect cs l else Inr res
      else hilexi_connect cs l)"

definition realloc_read_buf :: "allocator \<Rightarrow> hilexi \<Rightarrow> int \<times> hilexi" where
  "realloc_read_buf al l =
     (let new_cap = hl_read_cap l * 2 in
      if al new_cap = 0 then (- 1, l)
      else (0, l\<lparr>hl_read_buf := take (hl_read_pos l) (hl_read_buf l) @ replicate (new_cap - hl_read_pos l) NUL,
                 hl_read_cap := new_cap\<rparr>))"

section \<open>Reading and writing\<close>

fun hilexi_read_loop :: "allocator \<Rightarrow> read_result list \<Rightarrow> bool \<Rightarrow> hilexi \<Rightarrow> (int \<times> hilexi) res" where
  "hilexi_read_loop al rs received_data l =
     (let (r, l) = (if hl_read_pos l = hl_read_cap l then realloc_read_buf al l else (0, l)) in
      if r = - 1 then Inr (- 1, l)
      else case rs of
        [] \<Rightarrow> Inl Out_of_fuel
      | Read_again # rs \<Rightarrow>
          if received_data then Inr (int (hl_read_pos l), l) else hilexi_read_loop al rs received_data l
      | Read_fail # rs \<Rightarrow> Inr (- 1, l)
      | Read_bytes d # rs \<Rightarrow>
          if d = [] then Inr (0, l)
          else
            let d = take (hl_read_cap l - hl_read_pos l) d in
            hilexi_read_loop al rs True
              (l\<lparr>hl_read_buf := memcpy_at (hl_read_buf l) (hl_read_pos l) d (length d),
                 hl_read_pos := hl_read_pos l + length d\<rparr>))"

declare hilexi_read_loop.simps [simp del]

definition hilexi_read :: "allocator \<Rightarrow> read_result list \<Rightarrow> hilexi \<Rightarrow> (int \<times> hilexi) res" where
  "hilexi_read al rs l = hilexi_read_loop al rs False l"

text \<open>
  \<^verbatim>\<open>hilexi_write\<close>: the number of bytes written (or -1), and the bytes themselves. Every error ends it, also
  one that asks to try again.
\<close>

fun hilexi_write_loop :: "write_result list \<Rightarrow> string \<Rightarrow> nat \<Rightarrow> nat \<Rightarrow> (int \<times> string) res" where
  "hilexi_write_loop [] buf size_w amount_written =
     (if amount_written < size_w then Inl Out_of_fuel else Inr (int amount_written, []))"
| "hilexi_write_loop (w # ws) buf size_w amount_written =
     (if \<not> amount_written < size_w then Inr (int amount_written, [])
      else case w of
        Write_ok n \<Rightarrow>
          let amt = min n (size_w - amount_written) in
          res_bind (hilexi_write_loop ws buf size_w (amount_written + amt)) (\<lambda>(r, out).
            Inr (r, take amt (drop amount_written buf) @ out))
      | _ \<Rightarrow> Inr (- 1, []))"

definition hilexi_write :: "write_result list \<Rightarrow> hilexi \<Rightarrow> (int \<times> string \<times> hilexi) res" where
  "hilexi_write ws l =
     res_bind (hilexi_write_loop ws (builder_out (hl_builder l)) (builder_len (hl_builder l)) 0) (\<lambda>(r, out).
       Inr (r, out, l\<lparr>hl_builder := builder_reset (hl_builder l)\<rparr>))"

definition hilexi_parse :: "env \<Rightarrow> hilexi \<Rightarrow> (object \<times> hilexi) res" where
  "hilexi_parse E l =
     res_bind (parse_from_server E (hl_read_buf l) (hl_read_pos l)) (\<lambda>obj.
       Inr (obj, l\<lparr>hl_read_buf := replicate (hl_read_pos l) NUL @ drop (hl_read_pos l) (hl_read_buf l), hl_read_pos := 0\<rparr>))"

definition hilexi_close :: "hilexi \<Rightarrow> hilexi" where
  "hilexi_close l = l\<lparr>hl_read_buf := [], hl_builder := builder_free (hl_builder l)\<rparr>"

section \<open>The commands\<close>

text \<open>What the socket does during a call: the results of \<^verbatim>\<open>write\<close> and \<^verbatim>\<open>read\<close>, and \<^verbatim>\<open>errno\<close> after a failure.\<close>

record hio =
  hi_write :: "write_result list"
  hi_read :: "read_result list"
  hi_errno :: errno

type_synonym hl_out = "(object result \<times> string \<times> hilexi) res"

text \<open>A call of the builder whose failure ends the command with a message.\<close>

definition hl_add :: "allocator \<Rightarrow> (builder \<Rightarrow> (int \<times> builder) res) \<Rightarrow> string \<Rightarrow> (hilexi \<Rightarrow> hl_out) \<Rightarrow> hilexi \<Rightarrow> hl_out" where
  "hl_add al f msg k l =
     res_bind (f (hl_builder l)) (\<lambda>(add, b).
       if add = - 1 then Inr (Err (vstr_from al msg), [], l\<lparr>hl_builder := b\<rparr>) else k (l\<lparr>hl_builder := b\<rparr>))"

definition hl_str :: "allocator \<Rightarrow> string \<Rightarrow> builder \<Rightarrow> (int \<times> builder) res" where
  "hl_str al t = builder_add_string al t (length t)"

definition hl_obj :: "env \<Rightarrow> fmt_double \<Rightarrow> object \<Rightarrow> builder \<Rightarrow> (int \<times> builder) res" where
  "hl_obj E g obj = builder_add_object g (e_al E) (size obj + 1) obj"

text \<open>The end of every command: write, read, parse. The text of \<^verbatim>\<open>errno\<close> is written in two ways.\<close>

definition hl_exchange :: "env \<Rightarrow> string \<Rightarrow> hio \<Rightarrow> hilexi \<Rightarrow> hl_out" where
  "hl_exchange E errno_text io l =
     (let errno = errno_text @ fmt_ld (fst (hi_errno io)) @ '') '' @ snd (hi_errno io) in
      res_bind (hilexi_write (hi_write io) l) (\<lambda>(w, sent, l).
        if w = - 1 then
          res_bind (vstr_format (e_al E) (''failed to write to server '' @ errno)) (\<lambda>m. Inr (Err m, sent, l))
        else
          res_bind (hilexi_read (e_al E) (hi_read io) l) (\<lambda>(r, l).
            if r = - 1 then
              res_bind (vstr_format (e_al E) (''failed to read from server '' @ errno)) (\<lambda>m. Inr (Err m, sent, l))
            else res_bind (hilexi_parse E l) (\<lambda>(obj, l). Inr (Ok obj, sent, l)))))"

definition hilexi_ping :: "env \<Rightarrow> hio \<Rightarrow> hilexi \<Rightarrow> hl_out" where
  "hilexi_ping E io =
     hl_add (e_al E) (builder_add_ping (e_al E)) ''failed to add ping to builder''
     (hl_exchange E ''(errno: '' io)"

definition hilexi_info :: "env \<Rightarrow> hio \<Rightarrow> hilexi \<Rightarrow> hl_out" where
  "hilexi_info E io =
     hl_add (e_al E) (hl_str (e_al E) ''INFO'') ''failed to add ping to builder''
     (hl_exchange E ''(errno: '' io)"

definition hilexi_select :: "env \<Rightarrow> hio \<Rightarrow> 64 word \<Rightarrow> hilexi \<Rightarrow> hl_out" where
  "hilexi_select E io db_num =
     hl_add (e_al E) (builder_add_array (e_al E) 2) ''failed to add array to builder''
     (hl_add (e_al E) (hl_str (e_al E) ''SELECT'') ''failed to add select to builder''
     (hl_add (e_al E) (builder_add_int (e_al E) db_num) ''failed to add db num to builder''
     (hl_exchange E ''(errno: '' io)))"

definition hilexi_keys :: "env \<Rightarrow> hio \<Rightarrow> hilexi \<Rightarrow> hl_out" where
  "hilexi_keys E io =
     hl_add (e_al E) (hl_str (e_al E) ''KEYS'') ''failed to add array to builder''
     (hl_exchange E ''(errno: '' io)"

definition hilexi_set :: "env \<Rightarrow> fmt_double \<Rightarrow> hio \<Rightarrow> object \<Rightarrow> object \<Rightarrow> hilexi \<Rightarrow> hl_out" where
  "hilexi_set E g io key val =
     hl_add (e_al E) (builder_add_array (e_al E) 3) ''failed to add array to builder''
     (hl_add (e_al E) (hl_str (e_al E) ''SET'') ''failed to add set to builder''
     (hl_add (e_al E) (hl_obj E g key) ''failed to add key to builder''
     (hl_add (e_al E) (hl_obj E g val) ''failed to add value to builder''
     (hl_exchange E ''(errno: '' io))))"

definition hilexi_get :: "env \<Rightarrow> fmt_double \<Rightarrow> hio \<Rightarrow> object \<Rightarrow> hilexi \<Rightarrow> hl_out" where
  "hilexi_get E g io key =
     hl_add (e_al E) (builder_add_array (e_al E) 2) ''failed to add array to builder''
     (hl_add (e_al E) (hl_str (e_al E) ''GET'') ''failed to add get to builder''
     (hl_add (e_al E) (hl_obj E g key) ''failed to add key to builder''
     (hl_exchange E ''(errno: '' io)))"

definition hilexi_del :: "env \<Rightarrow> fmt_double \<Rightarrow> hio \<Rightarrow> object \<Rightarrow> hilexi \<Rightarrow> hl_out" where
  "hilexi_del E g io key =
     hl_add (e_al E) (builder_add_array (e_al E) 2) ''failed to add array to builder''
     (hl_add (e_al E) (hl_str (e_al E) ''DEL'') ''failed to add del to builder''
     (hl_add (e_al E) (hl_obj E g key) ''failed to add key to builder''
     (hl_exchange E ''(errno: '' io)))"

definition hilexi_push :: "env \<Rightarrow> fmt_double \<Rightarrow> hio \<Rightarrow> object \<Rightarrow> hilexi \<Rightarrow> hl_out" where
  "hilexi_push E g io val =
     hl_add (e_al E) (builder_add_array (e_al E) 2) ''failed to add array to builder''
     (hl_add (e_al E) (hl_str (e_al E) ''PUSH'') ''failed to add push to builder''
     (hl_add (e_al E) (hl_obj E g val) ''failed to add value to builder''
     (hl_exchange E ''(errno: '' io)))"

definition hilexi_pop :: "env \<Rightarrow> hio \<Rightarrow> hilexi \<Rightarrow> hl_out" where
  "hilexi_pop E io =
     hl_add (e_al E) (hl_str (e_al E) ''POP'') ''failed to add pop to builder''
     (hl_exchange E ''(errno: '' io)"

definition hilexi_enque :: "env \<Rightarrow> fmt_double \<Rightarrow> hio \<Rightarrow> object \<Rightarrow> hilexi \<Rightarrow> hl_out" where
  "hilexi_enque E g io val =
     hl_add (e_al E) (builder_add_array (e_al E) 2) ''failed to add array to builder''
     (hl_add (e_al E) (hl_str (e_al E) ''ENQUE'') ''failed to add enque to builder''
     (hl_add (e_al E) (hl_obj E g val) ''failed to add value to builder''
     (hl_exchange E ''(errno '' io)))"

definition hilexi_deque :: "env \<Rightarrow> hio \<Rightarrow> hilexi \<Rightarrow> hl_out" where
  "hilexi_deque E io =
     hl_add (e_al E) (hl_str (e_al E) ''DEQUE'') ''failed to add deque to builder''
     (hl_exchange E ''(errno '' io)"

definition hilexi_zset :: "env \<Rightarrow> fmt_double \<Rightarrow> hio \<Rightarrow> object \<Rightarrow> hilexi \<Rightarrow> hl_out" where
  "hilexi_zset E g io val =
     hl_add (e_al E) (builder_add_array (e_al E) 2) ''failed to add array to builder''
     (hl_add (e_al E) (hl_str (e_al E) ''ZSET'') ''failed to add zset to builer''
     (hl_add (e_al E) (hl_obj E g val) ''failed to add value to builder''
     (hl_exchange E ''(errno '' io)))"

definition hilexi_zhas :: "env \<Rightarrow> fmt_double \<Rightarrow> hio \<Rightarrow> object \<Rightarrow> hilexi \<Rightarrow> hl_out" where
  "hilexi_zhas E g io val =
     hl_add (e_al E) (builder_add_array (e_al E) 2) ''failed to add array to builder''
     (hl_add (e_al E) (hl_str (e_al E) ''ZHAS'') ''failed to add zhas to builer''
     (hl_add (e_al E) (hl_obj E g val) ''failed to add value to builder''
     (hl_exchange E ''(errno '' io)))"

definition hilexi_zdel :: "env \<Rightarrow> fmt_double \<Rightarrow> hio \<Rightarrow> object \<Rightarrow> hilexi \<Rightarrow> hl_out" where
  "hilexi_zdel E g io val =
     hl_add (e_al E) (builder_add_array (e_al E) 2) ''failed to add array to builder''
     (hl_add (e_al E) (hl_str (e_al E) ''ZDEL'') ''failed to add zdel to builer''
     (hl_add (e_al E) (hl_obj E g val) ''failed to add value to builder''
     (hl_exchange E ''(errno '' io)))"

text \<open>
  \<^verbatim>\<open>hilexi_authenticate\<close>: the result of the first call of the builder is not looked at; the reply is compared
  with the string OK.
\<close>

definition hilexi_authenticate :: "env \<Rightarrow> hio \<Rightarrow> string \<Rightarrow> string \<Rightarrow> hilexi \<Rightarrow> (int \<times> string \<times> hilexi) res" where
  "hilexi_authenticate E io username password l =
     (let al = e_al E in
      res_bind (builder_add_array al 3 (hl_builder l)) (\<lambda>(_, b).
      res_bind (builder_add_string al ''AUTH'' 4 b) (\<lambda>(add, b).
      if add = - 1 then Inr (- 1, [], l\<lparr>hl_builder := b\<rparr>)
      else res_bind (builder_add_string al username (strlen username) b) (\<lambda>(add, b).
      if add = - 1 then Inr (- 1, [], l\<lparr>hl_builder := b\<rparr>)
      else res_bind (builder_add_string al password (strlen password) b) (\<lambda>(add, b).
      if add = - 1 then Inr (- 1, [], l\<lparr>hl_builder := b\<rparr>)
      else res_bind (hilexi_write (hi_write io) (l\<lparr>hl_builder := b\<rparr>)) (\<lambda>(w, sent, l).
      if w = - 1 then Inr (- 1, sent, l)
      else res_bind (hilexi_read al (hi_read io) l) (\<lambda>(r, l).
      if r = - 1 then Inr (- 1, sent, l)
      else res_bind (hilexi_parse E l) (\<lambda>(obj, l).
        Inr (case obj of String s \<Rightarrow> vstr_cmp s (vstr_from al ''OK'') | _ \<Rightarrow> - 1, sent, l)))))))))"

section \<open>What a command sends\<close>

text \<open>\<^term>\<open>hl_sends K k t\<close>: the calls of the builder in \<^term>\<open>K\<close> add the text \<^term>\<open>t\<close>, then \<^term>\<open>k\<close> runs.\<close>

definition hl_sends :: "(hilexi \<Rightarrow> hl_out) \<Rightarrow> (hilexi \<Rightarrow> hl_out) \<Rightarrow> string \<Rightarrow> bool" where
  "hl_sends K k t \<longleftrightarrow> (\<forall>l. vstr_live (hl_builder l) \<longrightarrow>
     length (vstr_str (hl_builder l)) + length t \<le> VSTR_MAX_LARGE_SIZE \<longrightarrow>
     (\<exists>b. K l = k (l\<lparr>hl_builder := b\<rparr>) \<and> vstr_live b \<and> vstr_str b = vstr_str (hl_builder l) @ t))"

lemma hl_sends_end: "hl_sends k k []"
  unfolding hl_sends_def by (metis append_Nil2 hilexi.surjective hilexi.update_convs(5) old.unit.exhaust)

lemma hl_sends_add:
  assumes "adds f t" "hl_sends K k u"
  shows "hl_sends (hl_add al f msg K) k (t @ u)"
  unfolding hl_sends_def
proof (intro allI impI)
  fix l :: hilexi
  assume l: "vstr_live (hl_builder l)" "length (vstr_str (hl_builder l)) + length (t @ u) \<le> VSTR_MAX_LARGE_SIZE"
  from addsE [OF assms(1) l(1)] l(2) obtain b where
    b: "f (hl_builder l) = Inr (0, b)" "vstr_live b" "vstr_str b = vstr_str (hl_builder l) @ t" by auto
  with assms(2) [unfolded hl_sends_def, rule_format, of "l\<lparr>hl_builder := b\<rparr>"] l(2)
  show "\<exists>b. hl_add al f msg K l = k (l\<lparr>hl_builder := b\<rparr>) \<and> vstr_live b \<and> vstr_str b = vstr_str (hl_builder l) @ t @ u"
    by (auto simp: hl_add_def)
qed

text \<open>The commands of the library that the specification describes, as one function.\<close>

datatype call = C_ping | C_select "64 word" | C_set object object | C_get object | C_del object | C_push object
  | C_pop | C_enque object | C_deque | C_zset object | C_zhas object | C_zdel object

fun hilexi_call :: "env \<Rightarrow> fmt_double \<Rightarrow> hio \<Rightarrow> call \<Rightarrow> hilexi \<Rightarrow> hl_out" where
  "hilexi_call E g io C_ping = hilexi_ping E io"
| "hilexi_call E g io (C_select n) = hilexi_select E io n"
| "hilexi_call E g io (C_set k v) = hilexi_set E g io k v"
| "hilexi_call E g io (C_get k) = hilexi_get E g io k"
| "hilexi_call E g io (C_del k) = hilexi_del E g io k"
| "hilexi_call E g io (C_push v) = hilexi_push E g io v"
| "hilexi_call E g io C_pop = hilexi_pop E io"
| "hilexi_call E g io (C_enque v) = hilexi_enque E g io v"
| "hilexi_call E g io C_deque = hilexi_deque E io"
| "hilexi_call E g io (C_zset v) = hilexi_zset E g io v"
| "hilexi_call E g io (C_zhas v) = hilexi_zhas E g io v"
| "hilexi_call E g io (C_zdel v) = hilexi_zdel E g io v"

fun abs_call :: "call \<Rightarrow> acmd" where
  "abs_call C_ping = APing"
| "abs_call (C_select n) = ASelect (sint n)"
| "abs_call (C_set k v) = ASet (obj_value k) (obj_value v)"
| "abs_call (C_get k) = AGet (obj_value k)"
| "abs_call (C_del k) = ADel (obj_value k)"
| "abs_call (C_push v) = APush (obj_value v)"
| "abs_call C_pop = APop"
| "abs_call (C_enque v) = AEnque (obj_value v)"
| "abs_call C_deque = ADeque"
| "abs_call (C_zset v) = AZSet (obj_value v)"
| "abs_call (C_zhas v) = AZHas (obj_value v)"
| "abs_call (C_zdel v) = AZDel (obj_value v)"

fun call_args :: "call \<Rightarrow> object list" where
  "call_args (C_set k v) = [k, v]"
| "call_args (C_get k) = [k]"
| "call_args (C_del k) = [k]"
| "call_args (C_push v) = [v]"
| "call_args (C_enque v) = [v]"
| "call_args (C_zset v) = [v]"
| "call_args (C_zhas v) = [v]"
| "call_args (C_zdel v) = [v]"
| "call_args _ = []"

lemma hl_sends_word:
  assumes "alloc_total al"
  shows "hl_sends (hl_add al (hl_str al w) m k) k (enc g (VStr w))"
proof -
  have "adds (hl_str al w) (enc g (VStr w))"
    using adds_string [OF assms, of "length w" w] by (simp add: hl_str_def)
  from hl_sends_add [OF this hl_sends_end] show ?thesis by simp
qed

lemma hl_sends_array:
  assumes "alloc_total al" "n = Suc (length vs)" "hl_sends K k (concat (map (enc g) vs))"
  shows "hl_sends (hl_add al (builder_add_array al n) m1 (hl_add al (hl_str al w) m2 K)) k (message g w vs)"
proof -
  have "adds (hl_str al w) (enc g (VStr w))"
    using adds_string [OF assms(1), of "length w" w] by (simp add: hl_str_def)
  from hl_sends_add [OF adds_array [OF assms(1)] hl_sends_add [OF this assms(3)]] show ?thesis
    by (simp add: message_def assms(2))
qed

lemma hl_sends_objs:
  assumes "alloc_total (e_al E)" "fmt_g_ok g" "sendable x" "hl_sends K k t"
  shows "hl_sends (hl_add al (hl_obj E g x) m K) k (enc g (obj_value x) @ t)"
  unfolding hl_obj_def using assms by (intro hl_sends_add builder_add_object_adds) simp_all

lemma hilexi_call_sends:
  assumes "alloc_total (e_al E)" "fmt_g_ok g" "\<forall>x \<in> set (call_args c). sendable x"
  obtains p where "hl_sends (hilexi_call E g io c) (hl_exchange E p io) (request g (abs_call c))"
proof -
  note obj = hl_sends_objs [OF assms(1,2) _ hl_sends_end] hl_sends_objs [OF assms(1,2) _ hl_sends_objs [OF assms(1,2) _ hl_sends_end]]
  have one: "hl_sends (hl_add (e_al E) (builder_add_array (e_al E) 2) m1 (hl_add (e_al E) (hl_str (e_al E) w) m2
      (hl_add (e_al E) (hl_obj E g x) m3 k))) k (message g w [obj_value x])" if "sendable x" for x w m1 m2 m3 k
    using obj(1) [OF that] by (intro hl_sends_array assms(1)) simp_all
  have two: "hl_sends (hl_add (e_al E) (builder_add_array (e_al E) 3) m1 (hl_add (e_al E) (hl_str (e_al E) w) m2
      (hl_add (e_al E) (hl_obj E g x) m3 (hl_add (e_al E) (hl_obj E g y) m4 k)))) k (message g w [obj_value x, obj_value y])"
    if "sendable x" "sendable y" for x y w m1 m2 m3 m4 k
    using obj(2) [OF that] by (intro hl_sends_array assms(1)) simp_all
  have sel: "hl_sends (hilexi_select E io n) (hl_exchange E ''(errno: '' io) (message g ''SELECT'' [VInt (sint n)])" for n
    unfolding hilexi_select_def using hl_sends_add [OF adds_int [OF assms(1), of n] hl_sends_end]
    by (intro hl_sends_array assms(1)) simp_all
  have ping: "hl_sends (hilexi_ping E io) (hl_exchange E ''(errno: '' io) (''+PING'' @ CRLF)"
    unfolding hilexi_ping_def using hl_sends_add [OF adds_simple(2) [OF assms(1)] hl_sends_end] by simp
  note word = hl_sends_word [OF assms(1), where g = g]
  show thesis
  proof (cases c)
    case C_ping
    with ping show thesis by (intro that [of "''(errno: ''"]) (simp add: request_def)
  next
    case (C_select n)
    with sel [of n] show thesis by (intro that [of "''(errno: ''"]) (simp add: request_def)
  next
    case (C_set k v)
    with two assms(3) show thesis by (intro that [of "''(errno: ''"]) (simp add: request_def hilexi_set_def)
  next
    case (C_get k)
    with one assms(3) show thesis by (intro that [of "''(errno: ''"]) (simp add: request_def hilexi_get_def)
  next
    case (C_del k)
    with one assms(3) show thesis by (intro that [of "''(errno: ''"]) (simp add: request_def hilexi_del_def)
  next
    case (C_push v)
    with one assms(3) show thesis by (intro that [of "''(errno: ''"]) (simp add: request_def hilexi_push_def)
  next
    case C_pop
    with word [of "''POP''"] show thesis by (intro that [of "''(errno: ''"]) (simp add: request_def hilexi_pop_def)
  next
    case (C_enque v)
    with one assms(3) show thesis by (intro that [of "''(errno ''"]) (simp add: request_def hilexi_enque_def)
  next
    case C_deque
    with word [of "''DEQUE''"] show thesis by (intro that [of "''(errno ''"]) (simp add: request_def hilexi_deque_def)
  next
    case (C_zset v)
    with one assms(3) show thesis by (intro that [of "''(errno ''"]) (simp add: request_def hilexi_zset_def)
  next
    case (C_zhas v)
    with one assms(3) show thesis by (intro that [of "''(errno ''"]) (simp add: request_def hilexi_zhas_def)
  next
    case (C_zdel v)
    with one assms(3) show thesis by (intro that [of "''(errno ''"]) (simp add: request_def hilexi_zdel_def)
  qed
qed

section \<open>Writing\<close>

text \<open>Results of \<^verbatim>\<open>write\<close> that take all of a number of bytes, in parts of any size.\<close>

fun takes_all :: "write_result list \<Rightarrow> nat \<Rightarrow> bool" where
  "takes_all [] n \<longleftrightarrow> n = 0"
| "takes_all (Write_ok k # ws) n \<longleftrightarrow> n = 0 \<or> takes_all ws (n - min k n)"
| "takes_all (_ # ws) n \<longleftrightarrow> n = 0"

lemma hilexi_write_loop_all:
  assumes "takes_all ws (n - amt)" "amt \<le> n" "n \<le> length buf"
  shows "hilexi_write_loop ws buf n amt = Inr (int n, take (n - amt) (drop amt buf))"
  using assms
proof (induction ws "n - amt" arbitrary: amt rule: takes_all.induct)
  case (2 k ws)
  show ?case
  proof (cases "amt = n")
    case False
    let ?k = "min k (n - amt)"
    have a: "n - amt - min k (n - amt) = n - (amt + ?k)" "amt + ?k \<le> n" using "2.prems" by auto
    then have "hilexi_write_loop ws buf n (amt + ?k) = Inr (int n, take (n - (amt + ?k)) (drop (amt + ?k) buf))"
      using "2.prems" False by (intro "2.hyps") auto
    moreover have "take (n - amt) (drop amt buf) = take ?k (drop amt buf) @ take (n - (amt + ?k)) (drop (amt + ?k) buf)"
      using a(2) take_add [of ?k "n - (amt + ?k)" "drop amt buf"] by (simp add: add.commute)
    ultimately show ?thesis using False "2.prems"(2) by (simp add: Let_def)
  qed simp
qed auto

section \<open>Reading\<close>

definition hl_ok :: "hilexi \<Rightarrow> bool" where
  "hl_ok l \<longleftrightarrow> vstr_live (hl_builder l) \<and> vstr_str (hl_builder l) = [] \<and> hl_read_pos l = 0 \<and>
     length (hl_read_buf l) = hl_read_cap l \<and> 0 < hl_read_cap l"

lemma hilexi_read_loop_stores:
  assumes "alloc_total al" "length (hl_read_buf l) = hl_read_cap l" "hl_read_pos l \<le> hl_read_cap l" "0 < hl_read_cap l"
    and "reads_fit (hl_read_cap l) (hl_read_pos l) ds" "received \<or> ds \<noteq> []"
  shows "\<exists>buf cap. hilexi_read_loop al (map Read_bytes ds @ Read_again # rs) received l =
      Inr (int (hl_read_pos l + length (concat ds)),
        l\<lparr>hl_read_buf := buf, hl_read_cap := cap, hl_read_pos := hl_read_pos l + length (concat ds)\<rparr>) \<and>
    length buf = cap \<and> hl_read_cap l \<le> cap \<and> hl_read_pos l + length (concat ds) \<le> cap \<and>
    take (hl_read_pos l + length (concat ds)) buf = take (hl_read_pos l) (hl_read_buf l) @ concat ds"
  using assms(2-6)
proof (induction ds arbitrary: l received)
  case Nil
  let ?cap = "if hl_read_pos l = hl_read_cap l then hl_read_cap l * 2 else hl_read_cap l"
  let ?buf = "if hl_read_pos l = hl_read_cap l then take (hl_read_pos l) (hl_read_buf l) @ replicate (?cap - hl_read_pos l) NUL
    else hl_read_buf l"
  have "hilexi_read_loop al (Read_again # rs) received l =
      Inr (int (hl_read_pos l), l\<lparr>hl_read_buf := ?buf, hl_read_cap := ?cap, hl_read_pos := hl_read_pos l\<rparr>)"
    using assms(1) Nil.prems(5) by (subst hilexi_read_loop.simps) (simp add: realloc_read_buf_def Let_def)
  then show ?case using Nil.prems by (intro exI [of _ ?buf] exI [of _ ?cap]) auto
next
  case (Cons d ds)
  let ?cap = "if hl_read_pos l = hl_read_cap l then hl_read_cap l * 2 else hl_read_cap l"
  let ?buf = "if hl_read_pos l = hl_read_cap l then take (hl_read_pos l) (hl_read_buf l) @ replicate (?cap - hl_read_pos l) NUL
    else hl_read_buf l"
  define l1 where "l1 = l\<lparr>hl_read_buf := ?buf, hl_read_cap := ?cap\<rparr>"
  have l1: "(if hl_read_pos l = hl_read_cap l then realloc_read_buf al l else (0, l)) = (0, l1)"
    using assms(1) by (simp add: realloc_read_buf_def Let_def l1_def)
  have f: "hl_read_pos l1 = hl_read_pos l" "hl_read_cap l1 = ?cap" "length (hl_read_buf l1) = ?cap"
    "take (hl_read_pos l) (hl_read_buf l1) = take (hl_read_pos l) (hl_read_buf l)"
    using Cons.prems(1,2) by (auto simp: l1_def)
  have d: "d \<noteq> []" "length d \<le> ?cap - hl_read_pos l" "reads_fit ?cap (hl_read_pos l + length d) ds"
    using Cons.prems(2,4) by (auto simp: Let_def)
  have room: "hl_read_pos l1 + length d \<le> length (hl_read_buf l1)" using d(1,2) f Cons.prems(2,3) by (auto split: if_splits)
  define l2 where "l2 = l1\<lparr>hl_read_buf := memcpy_at (hl_read_buf l1) (hl_read_pos l1) d (length d),
    hl_read_pos := hl_read_pos l1 + length d\<rparr>"
  have step: "hilexi_read_loop al (map Read_bytes (d # ds) @ Read_again # rs) received l =
      hilexi_read_loop al (map Read_bytes ds @ Read_again # rs) True l2"
    using l1 d(1,2) f by (subst hilexi_read_loop.simps) (simp add: l2_def)
  have l2: "length (hl_read_buf l2) = hl_read_cap l2" "hl_read_pos l2 \<le> hl_read_cap l2" "hl_read_cap l \<le> hl_read_cap l2"
    "reads_fit (hl_read_cap l2) (hl_read_pos l2) ds" "hl_read_pos l2 = hl_read_pos l + length d"
    "take (hl_read_pos l2) (hl_read_buf l2) = take (hl_read_pos l) (hl_read_buf l) @ d"
    using memcpy_at_take [OF room] f room d(3) Cons.prems(3) by (auto simp: l2_def)
  from Cons.IH [OF l2(1,2) _ l2(4), of True] Cons.prems(3) l2(3) obtain buf cap where IH:
    "hilexi_read_loop al (map Read_bytes ds @ Read_again # rs) True l2 =
      Inr (int (hl_read_pos l2 + length (concat ds)),
        l2\<lparr>hl_read_buf := buf, hl_read_cap := cap, hl_read_pos := hl_read_pos l2 + length (concat ds)\<rparr>)"
    "length buf = cap" "hl_read_cap l2 \<le> cap" "hl_read_pos l2 + length (concat ds) \<le> cap"
    "take (hl_read_pos l2 + length (concat ds)) buf = take (hl_read_pos l2) (hl_read_buf l2) @ concat ds" by auto
  have "l2\<lparr>hl_read_buf := buf, hl_read_cap := cap, hl_read_pos := hl_read_pos l2 + length (concat ds)\<rparr> =
      l\<lparr>hl_read_buf := buf, hl_read_cap := cap, hl_read_pos := hl_read_pos l + length (concat (d # ds))\<rparr>"
    unfolding l2(5) by (simp add: l2_def l1_def)
  with IH l2(3,5,6) step show ?case by (intro exI [of _ buf] exI [of _ cap]) (simp add: add.assoc)
qed

section \<open>The reply as the client sees it\<close>

fun reply_value :: "areply \<Rightarrow> avalue" where
  "reply_value R_ok = VStr ''OK''"
| "reply_value R_pong = VStr ''PONG''"
| "reply_value R_none = VStr ''NONE''"
| "reply_value (R_err t) = VStr t"
| "reply_value (R_val v) = v"

fun reply_ok :: "env \<Rightarrow> fmt_double \<Rightarrow> areply \<Rightarrow> bool" where
  "reply_ok E g (R_err t) \<longleftrightarrow> CR \<notin> set t \<and> NUL \<notin> set t \<and> length t \<le> VSTR_MAX_LARGE_SIZE"
| "reply_ok E g (R_val v) \<longleftrightarrow> wire E g v"
| "reply_ok E g _ \<longleftrightarrow> True"

lemma parse_from_server_value:
  assumes "n \<le> length buf" "take n buf = enc g v" "wire E g v" "alloc_total (e_al E)" "fmt_g_ok g"
  shows "\<exists>obj. parse_from_server E buf n = Inr obj \<and> obj_value obj = v \<and> clean_obj obj"
proof -
  have at: "at_text (parser_new buf n) (enc g v @ [])" using at_text_buffer [OF assms(1)] assms(2) by simp
  have "length (enc g v) = n" using assms(1) arg_cong [OF assms(2), of length] by simp
  then have "vdepth v < n + 2" using vdepth_enc [of v g] by simp
  from reads_valueE [OF parse_object_reads [OF assms(3) this assms(4,5)] at] obtain obj p' where
    "parse_object E (n + 2) (parser_new buf n) = Inr (obj, p')" "obj_value obj = v" "parsed_ok obj" .
  then show ?thesis by (simp add: parsed_clean parse_from_server_def del: parse_object.simps)
qed

lemma parse_reply:
  assumes "n \<le> length buf" "take n buf = reply_text g r" "reply_ok E g r" "alloc_total (e_al E)" "fmt_g_ok g"
  shows "\<exists>obj. parse_from_server E buf n = Inr obj \<and> obj_value obj = reply_value r \<and> clean_obj obj"
proof -
  have line: "\<exists>obj. parse_from_server E buf n = Inr obj \<and> obj_value obj = VStr w \<and> clean_obj obj"
    if "take n buf = c # w @ CRLF" "c = CHR ''+'' \<or> c = CHR ''-''" "CR \<notin> set w" "NUL \<notin> set w"
      "length w \<le> VSTR_MAX_LARGE_SIZE" for c w
    by (rule parse_from_server_line [OF assms(1) that(1,2) assms(4) that(3-5)])
  show ?thesis
  proof (cases r)
    case R_ok
    with assms(2) line [of "CHR ''+''" "''OK''"] show ?thesis by (simp add: VSTR_MAX_LARGE_SIZE_def)
  next
    case R_pong
    with assms(2) line [of "CHR ''+''" "''PONG''"] show ?thesis by (simp add: VSTR_MAX_LARGE_SIZE_def)
  next
    case R_none
    with assms(2) line [of "CHR ''+''" "''NONE''"] show ?thesis by (simp add: VSTR_MAX_LARGE_SIZE_def)
  next
    case (R_err t)
    with assms(2,3) line [of "CHR ''-''" t] show ?thesis by simp
  next
    case (R_val v)
    with assms parse_from_server_value [of n buf g v E] show ?thesis by simp
  qed
qed

lemma reply_text_not_Nil: "reply_text g r \<noteq> []"
proof -
  have "enc g v \<noteq> []" for v using vdepth_enc [of v g] by auto
  then show ?thesis by (cases r) simp_all
qed

lemma hl_write_read_parse:
  assumes "vstr_live (hl_builder l)" "vstr_str (hl_builder l) = t" "hl_ok (l\<lparr>hl_builder := vstr_new\<rparr>)"
    and "takes_all (hi_write io) (length t)" "hi_read io = map Read_bytes ds @ Read_again # rs"
    and "reads_fit (hl_read_cap l) 0 ds" "concat ds = reply_text g r" "reply_ok E g r"
    and "alloc_total (e_al E)" "fmt_g_ok g"
  obtains l1 l2 obj l' where "hilexi_write (hi_write io) l = Inr (int (length t), t, l1)"
    "hilexi_read (e_al E) (hi_read io) l1 = Inr (int (length (concat ds)), l2)" "hilexi_parse E l2 = Inr (obj, l')"
    "obj_value obj = reply_value r" "clean_obj obj" "hl_ok l'" "hl_read_cap l \<le> hl_read_cap l'"
proof -
  have len: "vstr_len (hl_builder l) \<le> length (vstr_data (hl_builder l))"
    using vstr_len_le_data [of "hl_builder l"] assms(1) by (simp add: vstr_live_wf)
  then have t: "length t = vstr_len (hl_builder l)" unfolding assms(2) [symmetric] by (simp add: vstr_str_def)
  let ?l = "l\<lparr>hl_builder := builder_reset (hl_builder l)\<rparr>"
  have w: "hilexi_write (hi_write io) l = Inr (int (length t), t, ?l)"
    using hilexi_write_loop_all [of "hi_write io" "length t" 0 "vstr_data (hl_builder l)"] assms(4) len t assms(2)
    by (simp add: hilexi_write_def builder_out_def builder_len_def vstr_str_def)
  have ne: "ds \<noteq> []" using assms(7) reply_text_not_Nil [of g r] by auto
  have l: "length (hl_read_buf ?l) = hl_read_cap ?l" "hl_read_pos ?l \<le> hl_read_cap ?l" "0 < hl_read_cap ?l"
    "reads_fit (hl_read_cap ?l) (hl_read_pos ?l) ds" "hl_read_pos l = 0"
    using assms(3,6) by (simp_all add: hl_ok_def)
  from hilexi_read_loop_stores [OF assms(9) l(1-4), of False rs] ne l(5) obtain buf cap where
    rd: "hilexi_read (e_al E) (hi_read io) ?l = Inr (int (length (concat ds)),
        ?l\<lparr>hl_read_buf := buf, hl_read_cap := cap, hl_read_pos := length (concat ds)\<rparr>)"
      "length buf = cap" "hl_read_cap l \<le> cap" "length (concat ds) \<le> cap" "take (length (concat ds)) buf = concat ds"
    by (auto simp: hilexi_read_def assms(5))
  define l1 where "l1 = ?l\<lparr>hl_read_buf := buf, hl_read_cap := cap, hl_read_pos := length (concat ds)\<rparr>"
  have "length (concat ds) \<le> length buf" "take (length (concat ds)) buf = reply_text g r" using rd assms(7) by simp_all
  from parse_reply [OF this assms(8-10)] obtain obj where
    obj: "parse_from_server E (hl_read_buf l1) (hl_read_pos l1) = Inr obj" "obj_value obj = reply_value r" "clean_obj obj"
    by (auto simp: l1_def)
  let ?l' = "l1\<lparr>hl_read_buf := replicate (hl_read_pos l1) NUL @ drop (hl_read_pos l1) (hl_read_buf l1), hl_read_pos := 0\<rparr>"
  have "hilexi_parse E l1 = Inr (obj, ?l')" by (simp add: hilexi_parse_def obj(1))
  moreover have "hl_ok ?l'" using rd(2-4) l(3) assms(1) by (simp add: l1_def hl_ok_def builder_reset_def)
  moreover have "hl_read_cap l \<le> hl_read_cap ?l'" using rd(3) by (simp add: l1_def)
  ultimately show thesis using that [OF w rd(1) [folded l1_def] _ obj(2,3)] by blast
qed

lemma hl_exchange_reads:
  assumes "vstr_live (hl_builder l)" "vstr_str (hl_builder l) = t" "hl_ok (l\<lparr>hl_builder := vstr_new\<rparr>)"
    and "takes_all (hi_write io) (length t)" "hi_read io = map Read_bytes ds @ Read_again # rs"
    and "reads_fit (hl_read_cap l) 0 ds" "concat ds = reply_text g r" "reply_ok E g r"
    and "alloc_total (e_al E)" "fmt_g_ok g"
  shows "\<exists>obj l'. hl_exchange E p io l = Inr (Ok obj, t, l') \<and> obj_value obj = reply_value r \<and> clean_obj obj \<and> hl_ok l' \<and>
    hl_read_cap l \<le> hl_read_cap l'"
  by (rule hl_write_read_parse [OF assms]) (auto simp: hl_exchange_def Let_def)

lemma hilexi_call_spec:
  assumes "hl_ok l" "alloc_total (e_al E)" "fmt_g_ok g" "\<forall>x \<in> set (call_args c). sendable x"
    and "length (request g (abs_call c)) \<le> VSTR_MAX_LARGE_SIZE"
    and "takes_all (hi_write io) (length (request g (abs_call c)))"
    and "hi_read io = map Read_bytes ds @ Read_again # rs" "reads_fit (hl_read_cap l) 0 ds"
    and "concat ds = reply_text g r" "reply_ok E g r"
  shows "\<exists>obj l'. hilexi_call E g io c l = Inr (Ok obj, request g (abs_call c), l') \<and>
    obj_value obj = reply_value r \<and> clean_obj obj \<and> hl_ok l' \<and> hl_read_cap l \<le> hl_read_cap l'"
proof -
  from hilexi_call_sends [OF assms(2-4)] obtain p where
    "hl_sends (hilexi_call E g io c) (hl_exchange E p io) (request g (abs_call c))" .
  from this [unfolded hl_sends_def, rule_format, of l] assms(1,5) obtain b where
    b: "hilexi_call E g io c l = hl_exchange E p io (l\<lparr>hl_builder := b\<rparr>)" "vstr_live b" "vstr_str b = request g (abs_call c)"
    by (auto simp: hl_ok_def)
  have l: "hl_ok (l\<lparr>hl_builder := b, hl_builder := vstr_new\<rparr>)" using assms(1) by (simp add: hl_ok_def)
  from hl_exchange_reads [of "l\<lparr>hl_builder := b\<rparr>" "request g (abs_call c)" io ds rs g r E p] b l assms
  obtain obj l' where "hl_exchange E p io (l\<lparr>hl_builder := b\<rparr>) = Inr (Ok obj, request g (abs_call c), l')"
    "obj_value obj = reply_value r" "clean_obj obj" "hl_ok l'" "hl_read_cap l \<le> hl_read_cap l'" by auto
  with b(1) show ?thesis by auto
qed

text \<open>The login: the request, and the reply compared with the string OK.\<close>

lemma hilexi_authenticate_spec:
  assumes "hl_ok l" "alloc_total (e_al E)" "fmt_g_ok g" "NUL \<notin> set u" "NUL \<notin> set pw"
    and "length (message g ''AUTH'' [VStr u, VStr pw]) \<le> VSTR_MAX_LARGE_SIZE"
    and "takes_all (hi_write io) (length (message g ''AUTH'' [VStr u, VStr pw]))"
    and "hi_read io = map Read_bytes ds @ Read_again # rs" "reads_fit (hl_read_cap l) 0 ds"
    and "concat ds = reply_text g r" "reply_ok E g r"
  shows "\<exists>obj l'. hilexi_authenticate E io u pw l =
      Inr (case obj of String s \<Rightarrow> vstr_cmp s (vstr_from (e_al E) ''OK'') | _ \<Rightarrow> - 1, message g ''AUTH'' [VStr u, VStr pw], l') \<and>
    obj_value obj = reply_value r \<and> clean_obj obj \<and> hl_ok l' \<and> hl_read_cap l \<le> hl_read_cap l'"
proof -
  let ?add = "\<lambda>t. builder_add_string (e_al E) t (length t)"
  let ?b = "hl_builder l" and ?m = "message g ''AUTH'' [VStr u, VStr pw]"
  have add: "adds (?add t) (enc g (VStr t))" for t using adds_string [OF assms(2), of "length t" t] by simp
  let ?h = "''*'' @ fmt_lu 3 @ CRLF"
  have m: "?m = ?h @ enc g (VStr ''AUTH'') @ enc g (VStr u) @ enc g (VStr pw)" by (simp add: message_def eval_nat_numeral)
  note len = assms(6) [unfolded m length_append [of _ "_ @ _"]] and [simp del] = enc.simps
  have b: "vstr_live ?b" "vstr_str ?b = []" using assms(1) by (simp_all add: hl_ok_def)
  from addsE [OF adds_array [OF assms(2), of 3] b(1)] b(2) len obtain b1 where
    b1: "builder_add_array (e_al E) 3 ?b = Inr (0, b1)" "vstr_live b1" "vstr_str b1 = ?h" by auto
  from addsE [OF add b1(2), of "''AUTH''"] b1(3) len obtain b2 where
    b2: "?add ''AUTH'' b1 = Inr (0, b2)" "vstr_live b2" "vstr_str b2 = vstr_str b1 @ enc g (VStr ''AUTH'')" by auto
  from addsE [OF add b2(2), of u] b1(3) b2(3) len obtain b3 where
    b3: "?add u b2 = Inr (0, b3)" "vstr_live b3" "vstr_str b3 = vstr_str b2 @ enc g (VStr u)" by auto
  from addsE [OF add b3(2), of pw] b1(3) b2(3) b3(3) len obtain b4 where
    b4: "?add pw b3 = Inr (0, b4)" "vstr_live b4" "vstr_str b4 = vstr_str b3 @ enc g (VStr pw)" by auto
  have m: "vstr_str b4 = ?m" by (simp add: b1(3) b2(3) b3(3) b4(3) m)
  show ?thesis
  proof (rule hl_write_read_parse [of "l\<lparr>hl_builder := b4\<rparr>" ?m io ds rs g r E])
    fix l1 l2 obj l'
    assume "hilexi_write (hi_write io) (l\<lparr>hl_builder := b4\<rparr>) = Inr (int (length ?m), ?m, l1)"
      "hilexi_read (e_al E) (hi_read io) l1 = Inr (int (length (concat ds)), l2)" "hilexi_parse E l2 = Inr (obj, l')"
      "obj_value obj = reply_value r" "clean_obj obj" "hl_ok l'" "hl_read_cap (l\<lparr>hl_builder := b4\<rparr>) \<le> hl_read_cap l'"
    moreover have "builder_add_string (e_al E) ''AUTH'' 4 b1 = Inr (0, b2)" using b2(1) by (simp add: eval_nat_numeral)
    ultimately show ?thesis using b1(1) b3(1) b4(1) assms(4,5)
      by (intro exI [of _ obj] exI [of _ l']) (simp add: hilexi_authenticate_def Let_def strlen_def c_str_plain)
  qed (use assms b4(2) m in \<open>simp_all add: hl_ok_def\<close>)
qed

lemma spec_server_errors: "spec_server a st = (R_err t, st') \<Longrightarrow> reply_ok E g (R_err t)"
  by (cases a) (auto simp: spec_server_def VSTR_MAX_LARGE_SIZE_def Let_def split: option.splits if_splits list.splits)

section \<open>Properties\<close>


definition ex_hl :: hilexi where
  "ex_hl = \<lparr>hl_sfd = 3, hl_addr = 0x7F000001, hl_port = 6969, hl_flags = 0, hl_builder = builder_new,
     hl_read_buf = replicate 4096 NUL, hl_read_pos = 0, hl_read_cap = 4096\<rparr>"

lemma ex_hl_ok: "hl_ok ex_hl"
  by (simp add: hl_ok_def ex_hl_def builder_new_def)




end
