(* ===== verification/Line_Parser.thy ===== *)
theory Line_Parser
  imports Hilexi
begin

text \<open>
  What a user types into the shell: the parser of a line (\<^verbatim>\<open>src/src/line_parser.c\<close>), the reading of a line
  (\<^verbatim>\<open>src/src/read_line.c\<close>) and the execution of a command through the client library (\<^verbatim>\<open>src/src/lexi-cli.c\<close>). The struct
  of the parser has the fields of the parser of requests, and it moves in the same way. The names of the functions
  carry the prefix \<^verbatim>\<open>line_\<close> where the parser of requests has functions of the same name.
\<close>

section \<open>Moving over the line\<close>

type_synonym line_parser = parser

abbreviation BLANK :: byte where "BLANK \<equiv> CHR '' ''"
abbreviation HTAB :: byte where "HTAB \<equiv> CHR 0x09"
abbreviation BACKSLASH :: byte where "BACKSLASH \<equiv> CHR 0x5C"
abbreviation QUOTE :: byte where "QUOTE \<equiv> CHR 0x22"

definition line_parser_read_char :: "line_parser \<Rightarrow> line_parser" where
  "line_parser_read_char p =
     (if p_pos p \<ge> p_input_len p then p\<lparr>p_ch := NUL\<rparr>
      else p\<lparr>p_ch := p_input p ! p_pos p, p_pos := p_pos p + 1\<rparr>)"

definition line_parser_new :: "string \<Rightarrow> nat \<Rightarrow> line_parser" where
  "line_parser_new line line_len =
     line_parser_read_char \<lparr>p_input = line, p_input_len = line_len, p_pos = 0, p_ch = NUL\<rparr>"

definition peek_char :: "line_parser \<Rightarrow> byte" where
  "peek_char p = (if p_pos p \<ge> p_input_len p then NUL else p_input p ! p_pos p)"

lemma line_parser_moves:
  "line_parser_read_char = parser_read_char" "line_parser_new = parser_new" "peek_char = peek_byte"
  by (auto simp: fun_eq_iff line_parser_read_char_def parser_read_char_def line_parser_new_def parser_new_def
      peek_char_def peek_byte_def)

definition is_letter :: "byte \<Rightarrow> bool" where
  "is_letter ch \<longleftrightarrow> (97 \<le> (of_char ch :: nat) \<and> (of_char ch :: nat) \<le> 122) \<or> (65 \<le> (of_char ch :: nat) \<and> (of_char ch :: nat) \<le> 90)"

definition is_start_of_bulk :: "byte \<Rightarrow> bool" where
  "is_start_of_bulk ch \<longleftrightarrow> ch = QUOTE"

definition is_negative_int :: "byte \<Rightarrow> bool" where
  "is_negative_int ch \<longleftrightarrow> ch = CHR ''-''"

definition is_start_of_number :: "line_parser \<Rightarrow> bool" where
  "is_start_of_number p \<longleftrightarrow> isdigit (p_ch p) \<or> p_ch p = CHR ''-'' \<and> isdigit (peek_char p)"

function line_skip_whitespace :: "line_parser \<Rightarrow> line_parser" where
  "line_skip_whitespace p =
     (if p_ch p = BLANK \<or> p_ch p = HTAB then line_skip_whitespace (line_parser_read_char p) else p)"
  by pat_completeness auto

termination
  by (relation "measure p_left") (auto simp: line_parser_moves intro: p_left_read)

section \<open>Arguments\<close>

text \<open>\<^verbatim>\<open>while (p->ch != ' ' && p->ch != 0)\<close>, in \<^verbatim>\<open>parse_cmd_type\<close> and in \<^verbatim>\<open>parse_string\<close>.\<close>

function line_word_loop :: "allocator \<Rightarrow> line_parser \<Rightarrow> vstr \<Rightarrow> vstr \<times> line_parser" where
  "line_word_loop al p s =
     (if p_ch p \<noteq> BLANK \<and> p_ch p \<noteq> NUL
      then line_word_loop al (line_parser_read_char p) (snd (vstr_push_char al s (p_ch p)))
      else (s, p))"
  by pat_completeness auto

termination
  by (relation "measure (\<lambda>(al, p, s). p_left p)") (auto simp: line_parser_moves intro: p_left_read)

definition line_parse_string :: "allocator \<Rightarrow> line_parser \<Rightarrow> vstr \<times> line_parser" where
  "line_parse_string al p = line_word_loop al p vstr_new"

text \<open>
  \<^verbatim>\<open>parse_bulk_string\<close>: after a backslash one of four letters stands for the character it escapes; before any other
  character the backslash stands for itself.
\<close>

definition line_escape :: "byte \<Rightarrow> byte option" where
  "line_escape peek =
     (if peek = CHR ''n'' then Some LF else if peek = CHR ''r'' then Some CR else if peek = CHR ''t'' then Some HTAB
      else if peek = QUOTE then Some QUOTE else None)"

lemma p_left_read_mono: "p_left (parser_read_char p) \<le> p_left p"
  by (auto simp: p_left_def parser_read_char_def)

lemma p_left_read_twice: "p_ch p \<noteq> NUL \<Longrightarrow> p_left (parser_read_char (parser_read_char p)) < p_left p"
  using p_left_read [of p] p_left_read_mono [of "parser_read_char p"] by simp

function line_bulk_loop :: "allocator \<Rightarrow> line_parser \<Rightarrow> vstr \<Rightarrow> vstr \<times> line_parser" where
  "line_bulk_loop al p s =
     (if p_ch p \<noteq> QUOTE \<and> p_ch p \<noteq> NUL then
        if p_ch p = BACKSLASH then
          (case line_escape (peek_char p) of
             Some c \<Rightarrow> line_bulk_loop al (line_parser_read_char (line_parser_read_char p)) (snd (vstr_push_char al s c))
           | None \<Rightarrow> line_bulk_loop al (line_parser_read_char p) (snd (vstr_push_char al s BACKSLASH)))
        else line_bulk_loop al (line_parser_read_char p) (snd (vstr_push_char al s (p_ch p)))
      else (s, p))"
  by pat_completeness auto

termination
  by (relation "measure (\<lambda>(al, p, s). p_left p)") (auto simp: line_parser_moves intro: p_left_read p_left_read_twice)

definition line_parse_bulk_string :: "allocator \<Rightarrow> line_parser \<Rightarrow> vstr \<times> line_parser" where
  "line_parse_bulk_string al p =
     (let (s, p) = line_bulk_loop al (line_parser_read_char p) vstr_new in (s, line_parser_read_char p))"

text \<open>\<^verbatim>\<open>parse_number\<close>, on 64-bit numbers: a longer number wraps.\<close>

function line_number_loop :: "line_parser \<Rightarrow> 64 word \<Rightarrow> 64 word \<times> line_parser" where
  "line_number_loop p num =
     (if isdigit (p_ch p)
      then line_number_loop (line_parser_read_char p) (num * 10 + of_nat (digit_val (p_ch p)))
      else (num, p))"
  by pat_completeness auto

termination
  by (relation "measure (\<lambda>(p, num). p_left p)") (auto simp: line_parser_moves intro: p_left_read)

declare line_skip_whitespace.simps [simp del] line_word_loop.simps [simp del] line_bulk_loop.simps [simp del]
  line_number_loop.simps [simp del]

definition line_parse_number :: "line_parser \<Rightarrow> 64 word \<times> line_parser" where
  "line_parse_number p =
     (let is_negative = is_negative_int (p_ch p);
          (num, p) = line_number_loop (if is_negative then line_parser_read_char p else p) 0 in
      (if is_negative then - num else num, p))"

definition line_parse_object :: "allocator \<Rightarrow> line_parser \<Rightarrow> object \<times> line_parser" where
  "line_parse_object al p =
     (let p = line_skip_whitespace p in
      if is_letter (p_ch p) then let (s, p) = line_parse_string al p in (object_new (String s), p)
      else if is_start_of_bulk (p_ch p) then let (s, p) = line_parse_bulk_string al p in (object_new (String s), p)
      else if is_start_of_number p then let (num, p) = line_parse_number p in (object_new (Int_o num), p)
      else (object_new Null, p))"

section \<open>Commands\<close>

definition line_lookups :: "(string \<times> nat \<times> cmdt) list" where
  "line_lookups =
     [(''set'', 3, Set), (''SET'', 3, Set), (''get'', 3, Get), (''GET'', 3, Get), (''del'', 3, Del), (''DEL'', 3, Del),
      (''pop'', 3, Pop), (''POP'', 3, Pop), (''ping'', 4, Ping), (''PING'', 4, Ping), (''info'', 4, Infoc),
      (''INFO'', 4, Infoc), (''HELP'', 4, Help), (''help'', 4, Help), (''keys'', 4, Keys), (''KEYS'', 4, Keys),
      (''push'', 4, Push), (''PUSH'', 4, Push), (''zset'', 4, ZSet), (''ZSET'', 4, ZSet), (''zhas'', 4, ZHas),
      (''ZHAS'', 4, ZHas), (''zdel'', 4, ZDel), (''ZDEL'', 4, ZDel), (''enque'', 5, Enque), (''ENQUE'', 5, Enque),
      (''deque'', 5, Deque), (''DEQUE'', 5, Deque), (''select'', 6, Select), (''SELECT'', 6, Select)]"

fun line_lookup_from :: "(string \<times> nat \<times> cmdt) list \<Rightarrow> string \<Rightarrow> nat \<Rightarrow> cmdt" where
  "line_lookup_from [] str s_len = Illegal"
| "line_lookup_from ((cmd_str, cmd_str_len, type) # ls) str s_len =
     (if cmd_str_len \<noteq> s_len then line_lookup_from ls str s_len
      else if memcmp cmd_str str cmd_str_len = 0 then type
      else line_lookup_from ls str s_len)"

definition line_lookup_cmd :: "vstr \<Rightarrow> cmdt" where
  "line_lookup_cmd s = line_lookup_from line_lookups (vstr_data s) (vstr_len s)"

definition line_parse_cmd_type :: "allocator \<Rightarrow> line_parser \<Rightarrow> cmdt \<times> line_parser" where
  "line_parse_cmd_type al p =
     (let (s, p) = line_word_loop al (line_skip_whitespace p) vstr_new in (line_lookup_cmd s, p))"

text \<open>The branches of \<^verbatim>\<open>parse_cmd\<close> with one argument.\<close>

definition line_parse_one :: "allocator \<Rightarrow> line_parser \<Rightarrow> cmdt \<Rightarrow> (object \<Rightarrow> cmd_data) \<Rightarrow> cmd" where
  "line_parse_one al p type data =
     (let (value, p) = line_parse_object al p in \<lparr>cmd_type = type, cmd_data = data value\<rparr>)"

definition line_parse_cmd :: "allocator \<Rightarrow> line_parser \<Rightarrow> cmd" where
  "line_parse_cmd al p =
     (let (type, p) = line_parse_cmd_type al p; p = line_skip_whitespace p in
      case type of
        Ping \<Rightarrow> \<lparr>cmd_type = Ping, cmd_data = No_data\<rparr>
      | Infoc \<Rightarrow> \<lparr>cmd_type = Infoc, cmd_data = No_data\<rparr>
      | Help \<Rightarrow> \<lparr>cmd_type = Help, cmd_data = No_data\<rparr>
      | Keys \<Rightarrow> \<lparr>cmd_type = Keys, cmd_data = No_data\<rparr>
      | Set \<Rightarrow>
          (let (key, p) = line_parse_object al p; (value, p) = line_parse_object al p in
           \<lparr>cmd_type = Set, cmd_data = KV_data key value\<rparr>)
      | Get \<Rightarrow> line_parse_one al p Get K_data
      | Del \<Rightarrow> line_parse_one al p Del K_data
      | Push \<Rightarrow> line_parse_one al p Push V_data
      | Pop \<Rightarrow> \<lparr>cmd_type = Pop, cmd_data = No_data\<rparr>
      | Enque \<Rightarrow> line_parse_one al p Enque V_data
      | Deque \<Rightarrow> \<lparr>cmd_type = Deque, cmd_data = No_data\<rparr>
      | ZSet \<Rightarrow> line_parse_one al p ZSet V_data
      | ZHas \<Rightarrow> line_parse_one al p ZHas V_data
      | ZDel \<Rightarrow> line_parse_one al p ZDel V_data
      | Select \<Rightarrow>
          (let (value, p) = line_parse_object al p in
           case value of Int_o num \<Rightarrow> \<lparr>cmd_type = Select, cmd_data = V_data value\<rparr> | _ \<Rightarrow> cmd_zero)
      | _ \<Rightarrow> cmd_zero)"

definition parse_line :: "allocator \<Rightarrow> string \<Rightarrow> nat \<Rightarrow> cmd" where
  "parse_line al line line_len = line_parse_cmd al (line_parser_new line line_len)"

section \<open>The shell\<close>

text \<open>
  \<^verbatim>\<open>read_line\<close>, on the bytes that the standard input still has. At its end \<^verbatim>\<open>fgetc\<close> keeps returning \<^verbatim>\<open>EOF\<close>, which as a \<^verbatim>\<open>char\<close> is the
  byte 255 and not a line feed, so the loop goes on as long as the string can grow. The result is the string and
  what is left of the input.
\<close>

partial_function (option) read_line_loop :: "allocator \<Rightarrow> string \<Rightarrow> vstr \<Rightarrow> (vstr \<times> string) option" where
  "read_line_loop al input s =
     (let ch = (case input of [] \<Rightarrow> CHR 0xFF | c # cs \<Rightarrow> c) in
      if ch = LF then Some (s, tl input)
      else let (p, s) = vstr_push_char al s ch in
        if p = - 1 then Some (vstr_reset s, tl input) else read_line_loop al (tl input) s)"

definition read_line :: "allocator \<Rightarrow> string \<Rightarrow> (vstr \<times> string) option" where
  "read_line al input = read_line_loop al input vstr_new"

text \<open>\<^verbatim>\<open>execute_cmd\<close> of the shell. The arguments are freed afterwards, which has no effect on the result.\<close>

definition cli_execute_cmd :: "env \<Rightarrow> fmt_double \<Rightarrow> hio \<Rightarrow> cmd \<Rightarrow> hilexi \<Rightarrow> hl_out" where
  "cli_execute_cmd E g io cmd l =
     (case cmd_type cmd of
        Ping \<Rightarrow> hilexi_ping E io l
      | Infoc \<Rightarrow> hilexi_info E io l
      | Help \<Rightarrow> Inr (Ok (object_new (String (vstr_from (e_al E) ''help''))), [], l)
      | Select \<Rightarrow> hilexi_select E io (case cmd_arg cmd of Int_o num \<Rightarrow> num | _ \<Rightarrow> 0) l
      | Keys \<Rightarrow> hilexi_keys E io l
      | Set \<Rightarrow> hilexi_set E g io (cmd_arg cmd) (cmd_arg2 cmd) l
      | Get \<Rightarrow> hilexi_get E g io (cmd_arg cmd) l
      | Del \<Rightarrow> hilexi_del E g io (cmd_arg cmd) l
      | Push \<Rightarrow> hilexi_push E g io (cmd_arg cmd) l
      | Pop \<Rightarrow> hilexi_pop E io l
      | Enque \<Rightarrow> hilexi_enque E g io (cmd_arg cmd) l
      | Deque \<Rightarrow> hilexi_deque E io l
      | ZSet \<Rightarrow> hilexi_zset E g io (cmd_arg cmd) l
      | ZHas \<Rightarrow> hilexi_zhas E g io (cmd_arg cmd) l
      | ZDel \<Rightarrow> hilexi_zdel E g io (cmd_arg cmd) l
      | _ \<Rightarrow> Inr (Err (vstr_from (e_al E) ''invalid command''), [], l))"

text \<open>
  One turn of the loop of \<^verbatim>\<open>main\<close> after a line was read: the line is empty and nothing happens, the line ends
  the loop, or the command is executed.
\<close>

datatype turn = Nothing | Leave | Executed "object result" string hilexi

definition cli_turn :: "env \<Rightarrow> fmt_double \<Rightarrow> hio \<Rightarrow> vstr \<Rightarrow> hilexi \<Rightarrow> turn res" where
  "cli_turn E g io line l =
     (let line_data = vstr_data line; line_len = vstr_len line in
      if line_len = 0 then Inr Nothing
      else if line_len = 4 \<and> memcmp line_data ''exit'' 4 = 0 then Inr Leave
      else res_bind (cli_execute_cmd E g io (parse_line (e_al E) line_data line_len) l) (\<lambda>(r, out, l). Inr (Executed r out l)))"

section \<open>Lines\<close>

text \<open>
  What a line can say: a word of letters and other characters that starts with a letter, a string in quotes, an
  integer. A backslash cannot be written in quotes before one of the four letters, so strings with one are left out.
\<close>

datatype targ = T_word string | T_quoted string | T_int int

definition esc_char :: "byte \<Rightarrow> string" where
  "esc_char c =
     (if c = LF then [BACKSLASH, CHR ''n''] else if c = CR then [BACKSLASH, CHR ''r'']
      else if c = HTAB then [BACKSLASH, CHR ''t''] else if c = QUOTE then [BACKSLASH, QUOTE] else [c])"

fun targ_text :: "targ \<Rightarrow> string" where
  "targ_text (T_word w) = w"
| "targ_text (T_quoted w) = QUOTE # concat (map esc_char w) @ [QUOTE]"
| "targ_text (T_int z) = fmt_ld z"

fun targ_value :: "targ \<Rightarrow> avalue" where
  "targ_value (T_word w) = VStr w"
| "targ_value (T_quoted w) = VStr w"
| "targ_value (T_int z) = VInt z"

fun targ_ok :: "targ \<Rightarrow> bool" where
  "targ_ok (T_word w) \<longleftrightarrow> w \<noteq> [] \<and> is_letter (hd w) \<and> BLANK \<notin> set w \<and> NUL \<notin> set w \<and> length w < VSTR_MAX_LARGE_SIZE"
| "targ_ok (T_quoted w) \<longleftrightarrow> BACKSLASH \<notin> set w \<and> NUL \<notin> set w \<and> length w < VSTR_MAX_LARGE_SIZE"
| "targ_ok (T_int z) \<longleftrightarrow> - (2 ^ 63) \<le> z \<and> z < 2 ^ 63"

definition blanks :: "string \<Rightarrow> bool" where
  "blanks bs \<longleftrightarrow> set bs \<subseteq> {BLANK, HTAB}"

definition gap :: "string \<Rightarrow> bool" where
  "gap t \<longleftrightarrow> t = [] \<or> hd t = BLANK"

text \<open>The words of a line: the command, and each argument behind blanks of which the first is a space.\<close>

definition line_words :: "string \<Rightarrow> (string \<times> targ) list \<Rightarrow> string" where
  "line_words w args = w @ concat (map (\<lambda>(bs, a). bs @ targ_text a) args)"

definition args_ok :: "(string \<times> targ) list \<Rightarrow> bool" where
  "args_ok args \<longleftrightarrow> (\<forall>(bs, a) \<in> set args. blanks bs \<and> bs \<noteq> [] \<and> gap bs \<and> targ_ok a)"

lemma at_text_head: "at_text p t \<Longrightarrow> p_ch p = (if t = [] then NUL else hd t)"
  by (cases t) (auto simp: at_text_def)

lemma at_text_line: "at_text p (c # t) \<Longrightarrow> at_text (line_parser_read_char p) t"
  by (simp add: line_parser_moves at_text_read)

lemma line_skip_blanks:
  assumes "at_text p (bs @ t)" "blanks bs" "t = [] \<or> hd t \<noteq> BLANK \<and> hd t \<noteq> HTAB"
  shows "at_text (line_skip_whitespace p) t"
  using assms
proof (induction bs arbitrary: p)
  case Nil
  with at_text_head [of p t] have "line_skip_whitespace p = p"
    by (auto simp: line_skip_whitespace.simps [of p] split: if_splits)
  with Nil show ?case by simp
next
  case (Cons b bs)
  then have "p_ch p = BLANK \<or> p_ch p = HTAB" by (auto simp: blanks_def at_text_ch)
  moreover have "at_text (line_skip_whitespace (line_parser_read_char p)) t"
    using Cons.IH [of "line_parser_read_char p"] at_text_line [of p b "bs @ t"] Cons.prems by (simp add: blanks_def)
  ultimately show ?case by (simp add: line_skip_whitespace.simps [of p])
qed

lemma line_word_reads:
  assumes "at_text p (w @ t)" "BLANK \<notin> set w" "NUL \<notin> set w" "gap t" "vstr_clean s" "alloc_total al"
    "length (vstr_str s) + length w \<le> VSTR_MAX_LARGE_SIZE"
  shows "\<exists>s' p'. line_word_loop al p s = (s', p') \<and> at_text p' t \<and> vstr_clean s' \<and> vstr_str s' = vstr_str s @ w"
  using assms
proof (induction w arbitrary: p s)
  case Nil
  with at_text_head [of p t] show ?case by (auto simp: line_word_loop.simps [of al p s] gap_def split: if_splits)
next
  case (Cons x w)
  have x: "p_ch p = x" "x \<noteq> BLANK" "x \<noteq> NUL" using Cons.prems by (auto simp: at_text_ch)
  from vc.push_charE [of s al x] Cons.prems(5-7) obtain s1 where
    s1: "vstr_push_char al s x = (0, s1)" "vstr_clean s1" "vstr_str s1 = vstr_str s @ [x]" by auto
  have "at_text (line_parser_read_char p) (w @ t)" using Cons.prems(1) at_text_line by simp
  from Cons.IH [OF this _ _ Cons.prems(4) s1(2) Cons.prems(6)] Cons.prems(2,3,7) s1 x show ?case
    by (auto simp: line_word_loop.simps [of al p s])
qed

lemma line_bulk_reads:
  assumes "at_text p (concat (map esc_char w) @ QUOTE # t)" "BACKSLASH \<notin> set w" "NUL \<notin> set w" "vstr_clean s" "alloc_total al"
    "length (vstr_str s) + length w \<le> VSTR_MAX_LARGE_SIZE"
  shows "\<exists>s' p'. line_bulk_loop al p s = (s', p') \<and> at_text p' (QUOTE # t) \<and> vstr_clean s' \<and> vstr_str s' = vstr_str s @ w"
  using assms
proof (induction w arbitrary: p s)
  case Nil
  then show ?case by (auto simp: line_bulk_loop.simps [of al p s] at_text_ch)
next
  case (Cons x w)
  let ?t = "concat (map esc_char w) @ QUOTE # t"
  have x: "x \<noteq> BACKSLASH" "x \<noteq> NUL" using Cons.prems by auto
  from vc.push_charE [of s al x] Cons.prems(4-6) obtain s1 where
    s1: "vstr_push_char al s x = (0, s1)" "vstr_clean s1" "vstr_str s1 = vstr_str s @ [x]" by auto
  have at: "at_text p (esc_char x @ ?t)" using Cons.prems(1) by simp
  have "\<exists>q. line_bulk_loop al p s = line_bulk_loop al q s1 \<and> at_text q ?t"
  proof (cases "x = LF \<or> x = CR \<or> x = HTAB \<or> x = QUOTE")
    case True
    then obtain e where e: "esc_char x = [BACKSLASH, e]" "line_escape e = Some x" by (auto simp: esc_char_def line_escape_def)
    with at have p: "p_ch p = BACKSLASH" "peek_char p = e" "at_text (line_parser_read_char (line_parser_read_char p)) ?t"
      using at_text_line [OF at_text_line, of p BACKSLASH e ?t] by (simp_all add: at_text_ch at_text_peek line_parser_moves)
    then have "line_bulk_loop al p s = line_bulk_loop al (line_parser_read_char (line_parser_read_char p)) s1"
      using e(2) s1(1) by (simp add: line_bulk_loop.simps [of al p s])
    with p(3) show ?thesis by blast
  next
    case False
    then have e: "esc_char x = [x]" by (simp add: esc_char_def)
    with at have p: "p_ch p = x" "at_text (line_parser_read_char p) ?t" by (simp_all add: at_text_ch at_text_line)
    have "line_bulk_loop al p s = line_bulk_loop al (line_parser_read_char p) s1"
      using p(1) x False s1(1) by (simp add: line_bulk_loop.simps [of al p s])
    with p(2) show ?thesis by blast
  qed
  then obtain q where q: "line_bulk_loop al p s = line_bulk_loop al q s1" "at_text q ?t" by blast
  from Cons.IH [OF q(2) _ _ s1(2) Cons.prems(5)] Cons.prems(2,3,6) s1(3) q(1) show ?case by auto
qed

lemma line_digits_read:
  assumes "at_text p (ds @ t)" "\<forall>d \<in> set ds. isdigit d" "gap t"
  shows "\<exists>p'. line_number_loop p (of_nat acc) = (of_nat (foldl (\<lambda>acc d. acc * 10 + digit_val d) acc ds), p') \<and> at_text p' t"
  using assms
proof (induction ds arbitrary: p acc)
  case Nil
  have "\<not> isdigit NUL" "\<not> isdigit BLANK" by (simp_all add: isdigit_def)
  with Nil at_text_head [of p t] show ?case by (auto simp: line_number_loop.simps [of p] gap_def split: if_splits)
next
  case (Cons d ds)
  have d: "p_ch p = d" "isdigit d" using Cons.prems by (auto simp: at_text_ch)
  have "at_text (line_parser_read_char p) (ds @ t)" using Cons.prems(1) at_text_line by simp
  from Cons.IH [OF this, of "acc * 10 + digit_val d"] Cons.prems(2,3) d show ?case
    by (simp add: line_number_loop.simps [of p])
qed

lemma is_letter_not: "is_letter c \<Longrightarrow> c \<noteq> BLANK \<and> c \<noteq> HTAB" "\<not> is_letter QUOTE" "\<not> is_letter (CHR ''-'')"
  by (auto simp: is_letter_def)

lemma isdigit_not: "isdigit c \<Longrightarrow> \<not> is_letter c \<and> c \<noteq> QUOTE \<and> c \<noteq> BLANK \<and> c \<noteq> HTAB \<and> c \<noteq> CHR ''-''"
  by (auto simp: is_letter_def isdigit_def)

lemma fmt_lu_Cons: "\<exists>d ds. fmt_lu n = d # ds \<and> isdigit d"
  using fmt_lu_digits [of n] by (cases "fmt_lu n") auto

lemma targ_text_start:
  assumes "targ_ok a"
  shows "targ_text a \<noteq> []" "hd (targ_text a) \<noteq> BLANK \<and> hd (targ_text a) \<noteq> HTAB"
proof -
  have "targ_text a \<noteq> [] \<and> hd (targ_text a) \<noteq> BLANK \<and> hd (targ_text a) \<noteq> HTAB"
  proof (cases a)
    case (T_int z)
    then show ?thesis using fmt_lu_Cons [of "nat z"] isdigit_not by (auto simp: fmt_ld_def)
  qed (use assms is_letter_not in auto)
  then show "targ_text a \<noteq> []" "hd (targ_text a) \<noteq> BLANK \<and> hd (targ_text a) \<noteq> HTAB" by auto
qed

lemma line_number_reads:
  assumes "at_text p (fmt_ld z @ t)" "gap t"
  shows "is_start_of_number p" "\<not> is_letter (p_ch p)" "p_ch p \<noteq> QUOTE"
    "\<exists>p'. line_parse_number p = (of_int z, p') \<and> at_text p' t"
proof -
  have "is_start_of_number p \<and> \<not> is_letter (p_ch p) \<and> p_ch p \<noteq> QUOTE \<and>
      (\<exists>p'. line_parse_number p = (of_int z, p') \<and> at_text p' t)"
  proof (cases "z < 0")
    case True
    let ?n = "nat (- z)"
    have at: "at_text p (CHR ''-'' # fmt_lu ?n @ t)" using True assms(1) by (simp add: fmt_ld_def)
    obtain d ds where d: "fmt_lu ?n = d # ds" "isdigit d" using fmt_lu_Cons by blast
    have ch: "p_ch p = CHR ''-''" "peek_char p = d"
      using at d(1) by (simp_all add: at_text_ch at_text_peek line_parser_moves)
    from line_digits_read [OF at_text_line [OF at] fmt_lu_digits assms(2), of 0] obtain p' where
      "line_number_loop (line_parser_read_char p) 0 = (of_nat ?n, p')" "at_text p' t"
      by (auto simp: dec_value_def [symmetric])
    moreover have "- (of_nat ?n :: 64 word) = of_int z" using True by (simp add: of_nat_nat)
    ultimately show ?thesis
      using ch d(2) is_letter_not by (simp add: line_parse_number_def is_negative_int_def is_start_of_number_def)
  next
    case False
    let ?n = "nat z"
    have at: "at_text p (fmt_lu ?n @ t)" using False assms(1) by (simp add: fmt_ld_def)
    obtain d ds where d: "fmt_lu ?n = d # ds" "isdigit d" using fmt_lu_Cons by blast
    have ch: "p_ch p = d" using at d(1) by (simp add: at_text_ch)
    from line_digits_read [OF at fmt_lu_digits assms(2), of 0] obtain p' where
      "line_number_loop p 0 = (of_nat ?n, p')" "at_text p' t" by (auto simp: dec_value_def [symmetric])
    moreover have "(of_nat ?n :: 64 word) = of_int z" using False by (simp add: of_nat_nat)
    ultimately show ?thesis
      using ch d(2) isdigit_not [OF d(2)] by (simp add: line_parse_number_def is_negative_int_def is_start_of_number_def)
  qed
  then show "is_start_of_number p" "\<not> is_letter (p_ch p)" "p_ch p \<noteq> QUOTE"
    "\<exists>p'. line_parse_number p = (of_int z, p') \<and> at_text p' t" by auto
qed

lemma line_object_reads:
  assumes "at_text p (bs @ targ_text a @ t)" "blanks bs" "targ_ok a" "gap t" "alloc_total al"
  obtains ob p' where "line_parse_object al p = (ob, p')" "at_text p' t" "obj_value ob = targ_value a" "sendable ob"
proof -
  let ?q = "line_skip_whitespace p"
  have at: "at_text ?q (targ_text a @ t)"
    using line_skip_blanks [OF assms(1,2)] targ_text_start [OF assms(3)] by simp
  show thesis
  proof (cases a)
    case (T_word w)
    then have w: "at_text ?q (w @ t)" "is_letter (p_ch ?q)" using at assms(3) at_text_head [OF at] by auto
    from line_word_reads [OF w(1) _ _ assms(4) vstr_new_clean(1) assms(5)] T_word assms(3) obtain s p' where
      "line_word_loop al ?q vstr_new = (s, p')" "at_text p' t" "vstr_clean s" "vstr_str s = w" by auto
    with w(2) T_word that [of "String s" p'] show thesis
      by (simp add: line_parse_object_def line_parse_string_def object_new_def vstr_clean_live Let_def)
  next
    case (T_quoted w)
    then have w: "at_text ?q (QUOTE # concat (map esc_char w) @ QUOTE # t)" using at by simp
    from line_bulk_reads [OF at_text_line [OF w] _ _ vstr_new_clean(1) assms(5)] T_quoted assms(3) obtain s p' where
      "line_bulk_loop al (line_parser_read_char ?q) vstr_new = (s, p')" "at_text p' (QUOTE # t)" "vstr_clean s" "vstr_str s = w"
      by auto
    with w T_quoted that [of "String s" "line_parser_read_char p'"] at_text_line [of p' QUOTE t] is_letter_not show thesis
      by (simp add: line_parse_object_def line_parse_bulk_string_def is_start_of_bulk_def object_new_def vstr_clean_live
          at_text_ch Let_def)
  next
    case (T_int z)
    then have "at_text ?q (fmt_ld z @ t)" using at by simp
    note n = line_number_reads [OF this assms(4)]
    from n(4) obtain p' where "line_parse_number ?q = (of_int z, p')" "at_text p' t" by blast
    moreover have "sint (of_int z :: 64 word) = z" using T_int assms(3) by (simp add: signed_of_int signed_take_bit_int_eq_self)
    ultimately show thesis using n(1-3) T_int that [of "Int_o (of_int z)" p']
      by (simp add: line_parse_object_def is_start_of_bulk_def object_new_def Let_def)
  qed
qed

text \<open>The word of the command, whatever its case.\<close>

lemma line_lookup_map:
  assumes "\<forall>(c, l, t) \<in> set ls. l = length c" "n \<le> length d"
  shows "line_lookup_from ls d n =
    (case map_of (map (\<lambda>(c, l, t). (c, t)) ls) (take n d) of None \<Rightarrow> Illegal | Some t \<Rightarrow> t)"
  using assms by (induction ls d n rule: line_lookup_from.induct) (auto simp: memcmp_eq_0)

abbreviation line_cmds :: "(string \<times> cmdt) list" where
  "line_cmds \<equiv> map (\<lambda>(c, l, t). (c, t)) line_lookups"

lemma line_cmd_type_reads:
  assumes "at_text p (bs @ w @ t)" "blanks bs" "map_of line_cmds w = Some ty" "gap t" "alloc_total al"
  obtains p' where "line_parse_cmd_type al p = (ty, p')" "at_text p' t"
proof -
  have "w \<in> fst ` set line_cmds" using assms(3) by (metis domI dom_map_of_conv_image_fst)
  then have w: "w \<noteq> []" "hd w \<noteq> BLANK" "hd w \<noteq> HTAB" "BLANK \<notin> set w" "NUL \<notin> set w" "length w \<le> VSTR_MAX_LARGE_SIZE"
    by (auto simp: line_lookups_def VSTR_MAX_LARGE_SIZE_def)
  have "at_text (line_skip_whitespace p) (w @ t)" using line_skip_blanks [OF assms(1,2)] w(1-3) by simp
  from line_word_reads [OF this w(4,5) assms(4) vstr_new_clean(1) assms(5)] w(6) obtain s p' where
    s: "line_word_loop al (line_skip_whitespace p) vstr_new = (s, p')" "at_text p' t" "vstr_clean s" "vstr_str s = w" by auto
  have "vstr_len s \<le> length (vstr_data s)" using vstr_len_le_data [of s] s(3) by (simp add: vstr_clean_live vstr_live_wf)
  moreover have "\<forall>(c, l, t) \<in> set line_lookups. l = length c" by (simp add: line_lookups_def)
  ultimately have "line_lookup_cmd s = ty"
    using line_lookup_map [of line_lookups "vstr_len s" "vstr_data s"] assms(3) s(4)
    by (simp add: line_lookup_cmd_def vstr_str_def)
  with s that show thesis by (simp add: line_parse_cmd_type_def)
qed

lemma args_ok_Cons:
  "args_ok ((bs, a) # args) \<longleftrightarrow> blanks bs \<and> bs \<noteq> [] \<and> gap bs \<and> targ_ok a \<and> args_ok args"
  by (auto simp: args_ok_def)

lemma gap_append: "gap bs \<Longrightarrow> bs \<noteq> [] \<Longrightarrow> gap (bs @ t)"
  by (simp add: gap_def)

text \<open>The arguments, read one after the other from where the command word ended.\<close>

lemma line_one_reads:
  assumes "at_text p (bs @ targ_text x @ t)" "blanks bs" "targ_ok x" "gap t" "alloc_total al"
  obtains ob p' where "line_parse_object al (line_skip_whitespace p) = (ob, p')" "at_text p' t"
    "obj_value ob = targ_value x" "sendable ob"
proof -
  have "at_text (line_skip_whitespace p) (targ_text x @ t)"
    using line_skip_blanks [OF assms(1,2)] targ_text_start [OF assms(3)] by simp
  then have "at_text (line_skip_whitespace p) ([] @ targ_text x @ t)" by simp
  moreover have "blanks []" by (simp add: blanks_def)
  ultimately show thesis using line_object_reads [OF _ _ assms(3-5)] that by blast
qed

lemma line_two_read:
  assumes "at_text p (bs @ targ_text x @ cs @ targ_text y @ t)" "args_ok [(bs, x), (cs, y)]" "gap t" "alloc_total al"
  obtains ob1 ob2 p1 p' where "line_parse_object al (line_skip_whitespace p) = (ob1, p1)" "line_parse_object al p1 = (ob2, p')"
    "obj_value ob1 = targ_value x" "sendable ob1" "obj_value ob2 = targ_value y" "sendable ob2"
proof -
  note ok = assms(2) [unfolded args_ok_Cons]
  have "gap (cs @ targ_text y @ t)" using ok gap_append by blast
  from line_one_reads [OF assms(1) _ _ this assms(4)] ok obtain ob1 p1 where
    1: "line_parse_object al (line_skip_whitespace p) = (ob1, p1)" "at_text p1 (cs @ targ_text y @ t)"
      "obj_value ob1 = targ_value x" "sendable ob1" by blast
  from line_object_reads [OF 1(2) _ _ assms(3,4)] ok obtain ob2 p' where
    "line_parse_object al p1 = (ob2, p')" "obj_value ob2 = targ_value y" "sendable ob2" by blast
  with 1 that show thesis by blast
qed

text \<open>A line says a command: its word in either case, and its arguments as values.\<close>

definition says :: "string \<Rightarrow> acmd \<Rightarrow> bool" where
  "says line a \<longleftrightarrow> (\<exists>bs w args cs. line = bs @ line_words w args @ cs \<and> blanks bs \<and> blanks cs \<and> gap cs \<and>
     map_of line_cmds w = Some (acmd_type a) \<and> args_ok args \<and> map (\<lambda>(b, x). targ_value x) args = acmd_args a)"

text \<open>Reading the word of such a line leaves the parser before the arguments, which then parse to the command's values.\<close>

lemma line_says_word:
  assumes "n \<le> length line" "says (take n line) a" "alloc_total al"
  obtains p args cs where "line_parse_cmd_type al (line_parser_new line n) = (acmd_type a, p)"
    "at_text p (concat (map (\<lambda>(bs, x). bs @ targ_text x) args) @ cs)" "gap cs" "args_ok args"
    "map (\<lambda>(b, x). targ_value x) args = acmd_args a"
proof -
  from assms(2) obtain bs w args cs where
    t: "take n line = bs @ line_words w args @ cs" "blanks bs" "gap cs" "map_of line_cmds w = Some (acmd_type a)"
      "args_ok args" "map (\<lambda>(b, x). targ_value x) args = acmd_args a" by (auto simp: says_def)
  let ?as = "concat (map (\<lambda>(bs, a). bs @ targ_text a) args) @ cs"
  have at: "at_text (line_parser_new line n) (bs @ w @ ?as)"
    using at_text_buffer [OF assms(1)] t(1) by (simp add: line_parser_moves line_words_def)
  have "gap ?as" using t(3,5) gap_append by (cases args) (auto simp: args_ok_Cons)
  from line_cmd_type_reads [OF at t(2,4) this assms(3)] t(3,5,6) that show thesis by blast
qed

lemma line_says_args:
  assumes "n \<le> length line" "says (take n line) a" "alloc_total al"
  obtains p where "line_parse_cmd_type al (line_parser_new line n) = (acmd_type a, p)"
    "\<And>v. acmd_args a = [v] \<Longrightarrow>
      \<exists>ob p'. line_parse_object al (line_skip_whitespace p) = (ob, p') \<and> obj_value ob = v \<and> sendable ob"
    "\<And>k v. acmd_args a = [k, v] \<Longrightarrow>
      \<exists>ob1 p1 ob2 p'. line_parse_object al (line_skip_whitespace p) = (ob1, p1) \<and> line_parse_object al p1 = (ob2, p') \<and>
        obj_value ob1 = k \<and> sendable ob1 \<and> obj_value ob2 = v \<and> sendable ob2"
proof -
  from line_says_word [OF assms] obtain p args cs where
    p: "line_parse_cmd_type al (line_parser_new line n) = (acmd_type a, p)"
      "at_text p (concat (map (\<lambda>(bs, x). bs @ targ_text x) args) @ cs)" "gap cs" "args_ok args"
      "map (\<lambda>(b, x). targ_value x) args = acmd_args a" .
  show thesis
  proof (rule that [OF p(1)])
    fix v assume "acmd_args a = [v]"
    with p(5) obtain b x where x: "args = [(b, x)]" "targ_value x = v" by auto
    have "at_text p (b @ targ_text x @ cs)" using p(2) x(1) by simp
    moreover have "blanks b" "targ_ok x" using x(1) p(4) by (simp_all add: args_ok_Cons)
    ultimately show "\<exists>ob p'. line_parse_object al (line_skip_whitespace p) = (ob, p') \<and> obj_value ob = v \<and> sendable ob"
      using line_one_reads [OF _ _ _ p(3) assms(3)] x(2) by metis
  next
    fix k v assume "acmd_args a = [k, v]"
    with p(5) obtain b x b' y where x: "args = [(b, x), (b', y)]" "targ_value x = k" "targ_value y = v" by auto
    have "at_text p (b @ targ_text x @ b' @ targ_text y @ cs)" using p(2) x(1) by simp
    from line_two_read [OF this _ p(3) assms(3)] p(4) x
    show "\<exists>ob1 p1 ob2 p'. line_parse_object al (line_skip_whitespace p) = (ob1, p1) \<and> line_parse_object al p1 = (ob2, p') \<and>
        obj_value ob1 = k \<and> sendable ob1 \<and> obj_value ob2 = v \<and> sendable ob2" by metis
  qed
qed

lemma parse_line_says:
  assumes "n \<le> length line" "says (take n line) a" "alloc_total al"
  obtains c where "abs_call c = a" "\<forall>x \<in> set (call_args c). sendable x"
    "\<And>E g io l. cli_execute_cmd E g io (parse_line al line n) l = hilexi_call E g io c l"
proof -
  from line_says_args [OF assms] obtain p where p: "line_parse_cmd_type al (line_parser_new line n) = (acmd_type a, p)"
    and one: "\<And>v. acmd_args a = [v] \<Longrightarrow>
      \<exists>ob p'. line_parse_object al (line_skip_whitespace p) = (ob, p') \<and> obj_value ob = v \<and> sendable ob"
    and two: "\<And>k v. acmd_args a = [k, v] \<Longrightarrow>
      \<exists>ob1 p1 ob2 p'. line_parse_object al (line_skip_whitespace p) = (ob1, p1) \<and> line_parse_object al p1 = (ob2, p') \<and>
        obj_value ob1 = k \<and> sendable ob1 \<and> obj_value ob2 = v \<and> sendable ob2" by blast
  note parse = parse_line_def line_parse_cmd_def p line_parse_one_def cli_execute_cmd_def cmd_arg_def cmd_arg2_def Let_def
  note result = that
  have single: thesis if "acmd_args a = [v]"
    "\<And>ob p'. line_parse_object al (line_skip_whitespace p) = (ob, p') \<Longrightarrow> obj_value ob = v \<Longrightarrow>
      abs_call (C ob) = a \<and> call_args (C ob) = [ob] \<and>
      (\<forall>E g io l. cli_execute_cmd E g io (parse_line al line n) l = hilexi_call E g io (C ob) l)" for v C
    using one [OF that(1)] that(2) result by (metis empty_iff empty_set set_ConsD)
  show thesis
  proof (cases a)
    case (ASelect z)
    with one obtain ob p' where ob: "line_parse_object al (line_skip_whitespace p) = (ob, p')" "obj_value ob = VInt z" by auto
    then obtain num where "ob = Int_o num" "sint num = z" by (cases ob) auto
    with ASelect ob show thesis by (intro that [of "C_select num"]) (simp_all add: parse)
  next
    case (ASet k v)
    with two obtain o1 p1 o2 p2 where "line_parse_object al (line_skip_whitespace p) = (o1, p1)"
      "line_parse_object al p1 = (o2, p2)" "obj_value o1 = k" "sendable o1" "obj_value o2 = v" "sendable o2" by fastforce
    with ASet show thesis by (intro that [of "C_set o1 o2"]) (simp_all add: parse)
  next
    case (AGet k)
    then show thesis by (intro single [of k C_get]) (simp_all add: parse)
  next
    case (ADel k)
    then show thesis by (intro single [of k C_del]) (simp_all add: parse)
  next
    case (APush k)
    then show thesis by (intro single [of k C_push]) (simp_all add: parse)
  next
    case (AEnque k)
    then show thesis by (intro single [of k C_enque]) (simp_all add: parse)
  next
    case (AZSet k)
    then show thesis by (intro single [of k C_zset]) (simp_all add: parse)
  next
    case (AZHas k)
    then show thesis by (intro single [of k C_zhas]) (simp_all add: parse)
  next
    case (AZDel k)
    then show thesis by (intro single [of k C_zdel]) (simp_all add: parse)
  next
    case APing
    then show thesis by (intro that [of C_ping]) (simp_all add: parse)
  next
    case APop
    then show thesis by (intro that [of C_pop]) (simp_all add: parse)
  next
    case ADeque
    then show thesis by (intro that [of C_deque]) (simp_all add: parse)
  qed
qed

lemma not_says_exit: "\<not> says ''exit'' a"
proof
  assume "says ''exit'' a"
  then obtain bs w args cs where t: "''exit'' = bs @ line_words w args @ cs" "blanks bs" "map_of line_cmds w = Some (acmd_type a)"
    by (auto simp: says_def)
  have "w \<in> fst ` set line_cmds" using t(3) by (metis domI dom_map_of_conv_image_fst)
  moreover have "bs = []" using t(1,2) by (cases bs) (auto simp: blanks_def)
  ultimately show False using t(1) by (auto simp: line_lookups_def line_words_def)
qed

lemma says_not_Nil: "\<not> says [] a"
  by (auto simp: says_def line_words_def line_lookups_def)

lemma read_line_loop_reads:
  assumes "LF \<notin> set t" "vstr_clean s" "alloc_total al" "length (vstr_str s) + length t \<le> VSTR_MAX_LARGE_SIZE"
  shows "\<exists>s'. read_line_loop al (t @ LF # rest) s = Some (s', rest) \<and> vstr_clean s' \<and> vstr_str s' = vstr_str s @ t"
  using assms
proof (induction t arbitrary: s)
  case Nil
  then show ?case by (simp add: read_line_loop.simps [of al _ s])
next
  case (Cons x t)
  from vc.push_charE [of s al x] Cons.prems(2-4) obtain s1 where
    s1: "vstr_push_char al s x = (0, s1)" "vstr_clean s1" "vstr_str s1 = vstr_str s @ [x]" by auto
  from Cons.IH [OF _ s1(2) Cons.prems(3)] Cons.prems(1,4) s1 show ?case
    by (auto simp: read_line_loop.simps [of al _ s])
qed

text \<open>At the end of the input the loop goes on: every turn appends a byte 255.\<close>

lemma read_line_at_end:
  assumes "vstr_clean s" "alloc_total al" "length (vstr_str s) < VSTR_MAX_LARGE_SIZE"
  shows "\<exists>s'. read_line_loop al [] s = read_line_loop al [] s' \<and> vstr_clean s' \<and> vstr_str s' = vstr_str s @ [CHR 0xFF]"
proof -
  from vc.push_charE [of s al "CHR 0xFF"] assms obtain s' where
    "vstr_push_char al s (CHR 0xFF) = (0, s')" "vstr_clean s'" "vstr_str s' = vstr_str s @ [CHR 0xFF]" by auto
  then show ?thesis by (intro exI [of _ s']) (simp add: read_line_loop.simps [of al "[]" s])
qed

section \<open>A turn\<close>

text \<open>
  What a user types is executed: when the standard input has a line that says a command (the word in upper or
  lower case, arguments as words, quoted strings with escapes or integers, any blanks between them), the shell reads exactly that line,
  sends exactly the request of the command, and the result is the value of the reply, in whatever parts the bytes
  travel.
\<close>

lemma typed_line_runs:
  assumes "LF \<notin> set typed" "length typed \<le> VSTR_MAX_LARGE_SIZE" "says typed a"
    and "hl_ok l" "alloc_total (e_al E)" "fmt_g_ok g" "length (request g a) \<le> VSTR_MAX_LARGE_SIZE"
    and "takes_all (hi_write io) (length (request g a))"
    and "hi_read io = map Read_bytes ds @ Read_again # rs" "reads_fit (hl_read_cap l) 0 ds"
    and "concat ds = reply_text g r" "reply_ok E g r"
  obtains line obj l' where "read_line (e_al E) (typed @ LF # rest) = Some (line, rest)"
    "cli_turn E g io line l = Inr (Executed (Ok obj) (request g a) l')" "obj_value obj = reply_value r" "clean_obj obj"
    "hl_ok l'" "hl_read_cap l \<le> hl_read_cap l'"
proof -
  from read_line_loop_reads [OF assms(1) vstr_new_clean(1) assms(5)] assms(2) obtain line where
    line: "read_line (e_al E) (typed @ LF # rest) = Some (line, rest)" "vstr_clean line" "vstr_str line = typed"
    by (auto simp: read_line_def)
  let ?d = "vstr_data line" and ?n = "vstr_len line"
  have n: "?n \<le> length ?d" using vstr_len_le_data [of line] line(2) by (simp add: vstr_clean_live vstr_live_wf)
  have t: "take ?n ?d = typed" using line(3) by (simp add: vstr_str_def)
  from parse_line_says [OF n _ assms(5), of a] assms(3) t obtain c where
    c: "abs_call c = a" "\<forall>x \<in> set (call_args c). sendable x"
      "\<And>g io l. cli_execute_cmd E g io (parse_line (e_al E) ?d ?n) l = hilexi_call E g io c l" by metis
  from hilexi_call_spec [OF assms(4-6) c(2) _ _ assms(9-12)] c(1) assms(7,8) obtain obj l' where
    h: "hilexi_call E g io c l = Inr (Ok obj, request g a, l')" "obj_value obj = reply_value r" "clean_obj obj" "hl_ok l'"
      "hl_read_cap l \<le> hl_read_cap l'" by auto
  have "?n \<noteq> 0" using t says_not_Nil [of a] assms(3) by (intro notI) simp
  moreover have "\<not> (?n = 4 \<and> memcmp ?d ''exit'' 4 = 0)"
    using t n not_says_exit [of a] assms(3) memcmp_eq_0 [of 4 ?d "''exit''"] by auto
  ultimately have "cli_turn E g io line l = Inr (Executed (Ok obj) (request g a) l')"
    by (simp add: cli_turn_def Let_def c(3) h(1))
  from that [OF line(1) this h(2-)] show thesis .
qed

lemma ex_says: "says (''set  '' @ QUOTE # ''a b'' @ QUOTE # '' 7'') (ASet (VStr ''a b'') (VInt 7))"
proof -
  have "fmt_ld 7 = ''7''" by code_simp
  then show ?thesis unfolding says_def
    by (intro exI [of _ "[]"] exI [of _ "''set''"] exI [of _ "[(''  '', T_quoted ''a b''), ('' '', T_int 7)]"])
      (simp add: line_words_def esc_char_def blanks_def gap_def args_ok_def line_lookups_def VSTR_MAX_LARGE_SIZE_def)
qed

end
