(* ===== verification/Object_Show.thy ===== *)
theory Object_Show
  imports Parser
begin

text \<open>
  Printing an object (\<^verbatim>\<open>object_show\<close> and \<^verbatim>\<open>object_show_no_newline\<close> of \<^verbatim>\<open>src/src/object.c\<close>), which the shell does
  with every result. What is printed is a string; the conversion \<^verbatim>\<open>%f\<close> is an argument.
\<close>

section \<open>The functions\<close>

text \<open>
  The case of booleans has no \<^verbatim>\<open>break\<close>: the union is then read as a string. Its last byte, which tells the layouts apart,
  is zero, so the string is what lies in the union up to the first zero byte.
\<close>

definition union_as_string :: "object \<Rightarrow> string" where
  "union_as_string obj = c_str (union_bytes 0 obj @ [NUL])"

fun object_show_no_newline :: "fmt_double \<Rightarrow> nat \<Rightarrow> object \<Rightarrow> string res" where
  "object_show_no_newline fmt_f 0 obj = Inl Out_of_fuel"
| "object_show_no_newline fmt_f (Suc n) obj = (case obj of
     Null \<Rightarrow> Inr ''null''
   | Int_o num \<Rightarrow> Inr (fmt_ld (sint num))
   | Double dbl \<Rightarrow> Inr (fmt_f dbl)
   | Bool boolean \<Rightarrow> Inr ((if boolean \<noteq> 0 then ''t'' else ''f'') @ union_as_string obj)
   | String s \<Rightarrow> Inr (c_str (vstr_data s))
   | Array v \<Rightarrow>
       res_bind (vec_iter_loop (vec_cap v + 1)
           (\<lambda>cur (i, out). res_bind (object_show_no_newline fmt_f n cur) (\<lambda>t.
              Inr (True, i + 1, out @ t @ (if i \<noteq> (of_nat (vec_len v) - 1 :: 64 word) then '', '' else []))))
           (vec_iter_new v) (0, []))
         (\<lambda>(finished, i, out). Inr out)
   | Ht h \<Rightarrow>
       res_bind (res_bind (ht_iter_new h) (\<lambda>it. ht_iter_loop (length (concat (ht_entries h)) + 1)
           (\<lambda>(key, value) (i, out). res_bind (object_show_no_newline fmt_f n key) (\<lambda>k.
              res_bind (object_show_no_newline fmt_f n value) (\<lambda>t.
                Inr (True, i + 1, out @ k @ '': '' @ t @ (if i \<noteq> (of_nat (ht_num_entries h) - 1 :: 64 word) then '', '' else [])))))
           it (0, ''{'')))
         (\<lambda>(finished, i, out). Inr (out @ ''}'')))"

fun object_show :: "fmt_double \<Rightarrow> nat \<Rightarrow> object \<Rightarrow> string res" where
  "object_show fmt_f 0 obj = Inl Out_of_fuel"
| "object_show fmt_f (Suc n) obj = (case obj of
     Null \<Rightarrow> Inr (''null'' @ [LF])
   | Int_o num \<Rightarrow> Inr (fmt_ld (sint num) @ [LF])
   | Double dbl \<Rightarrow> Inr (fmt_f dbl @ [LF])
   | Bool boolean \<Rightarrow> Inr ((if boolean \<noteq> 0 then ''t'' else ''f'') @ [LF] @ union_as_string obj @ [LF])
   | String s \<Rightarrow> Inr (c_str (vstr_data s) @ [LF])
   | Array v \<Rightarrow>
       res_bind (vec_iter_loop (vec_cap v + 1)
           (\<lambda>cur out. res_bind (object_show fmt_f n cur) (\<lambda>t. Inr (True, out @ t))) (vec_iter_new v) [])
         (\<lambda>(finished, out). Inr out)
   | Ht h \<Rightarrow>
       res_bind (res_bind (ht_iter_new h) (\<lambda>it. ht_iter_loop (length (concat (ht_entries h)) + 1)
           (\<lambda>(key, value) out. res_bind (object_show_no_newline fmt_f n key) (\<lambda>k.
              res_bind (object_show fmt_f n value) (\<lambda>t. Inr (True, out @ k @ '': '' @ t))))
           it []))
         (\<lambda>(finished, out). Inr out))"

section \<open>What is printed\<close>

text \<open>The lines of a value: one for a scalar, those of the elements for an array.\<close>

fun value_lines :: "fmt_double \<Rightarrow> avalue \<Rightarrow> string list" where
  "value_lines f VNull = [''null'']"
| "value_lines f (VInt z) = [fmt_ld z]"
| "value_lines f (VDouble d) = [f d]"
| "value_lines f (VStr s) = [s]"
| "value_lines f (VArr vs) = concat (map (value_lines f) vs)"
| "value_lines f _ = []"

text \<open>The values that the shell prints as their lines: without booleans, tables, empty arrays and zero bytes.\<close>

fun show_val :: "avalue \<Rightarrow> bool" where
  "show_val (VStr s) \<longleftrightarrow> NUL \<notin> set s"
| "show_val (VArr vs) \<longleftrightarrow> vs \<noteq> [] \<and> length vs + 2 < 2 ^ 64 \<and> (\<forall>v \<in> set vs. show_val v)"
| "show_val (VBool b) \<longleftrightarrow> False"
| "show_val VNull \<longleftrightarrow> True"
| "show_val (VInt z) \<longleftrightarrow> True"
| "show_val (VDouble d) \<longleftrightarrow> True"
| "show_val _ \<longleftrightarrow> False"

definition print_lines :: "string list \<Rightarrow> string" where
  "print_lines ls = concat (map (\<lambda>l. l @ [LF]) ls)"

lemma print_lines_append: "print_lines (xs @ ys) = print_lines xs @ print_lines ys"
  by (simp add: print_lines_def)

lemma run_body_prints:
  assumes "\<And>x. x \<in> set xs \<Longrightarrow> f x = Inr (t x)"
  shows "run_body (\<lambda>x out. res_bind (f x) (\<lambda>r. Inr (True, out @ r))) xs out = Inr (True, out @ concat (map t xs))"
  using assms by (induction xs arbitrary: out) simp_all

text \<open>
  The shell prints a value as its lines, for objects without booleans, tables and empty arrays, nested to any depth.
\<close>

theorem object_show_prints:
  assumes "clean_obj obj" "show_val (obj_value obj)" "size obj < n"
  shows "object_show f n obj = Inr (print_lines (value_lines f (obj_value obj)))"
  using assms
proof (induction n arbitrary: obj)
  case 0
  then show ?case by simp
next
  case (Suc n)
  show ?case
  proof (cases obj)
    case (String s)
    with Suc.prems(1,2) c_str_clean [of s] show ?thesis by (simp add: print_lines_def)
  next
    case (Array v)
    with Suc.prems(1) have wf: "vec_wf v" "\<forall>x \<in> set (vec_list v). clean_obj x" by simp_all
    then have "length (vec_list v) = vec_len v" by (simp add: vec_wf_def vec_list_def)
    with Array wf(1) Suc.prems(2) have v: "vec_wf v" "vec_list v \<noteq> []" "vec_len v + 2 < 2 ^ 64"
      "\<forall>x \<in> set (vec_list v). show_val (obj_value x)" by auto
    have each: "object_show f n x = Inr (print_lines (value_lines f (obj_value x)))" if "x \<in> set (vec_list v)" for x
      using that wf(2) v(4) Suc.IH [of x] size_Array_mem [OF that] Suc.prems(3) Array by simp
    have "print_lines (concat xss) = concat (map print_lines xss)" for xss
      by (induction xss) (simp_all add: print_lines_append, simp add: print_lines_def)
    then have "print_lines (value_lines f (obj_value obj)) = concat (map (\<lambda>x. print_lines (value_lines f (obj_value x))) (vec_list v))"
      using Array v(1) by (simp add: comp_def)
    moreover have "run_body (\<lambda>cur out. res_bind (object_show f n cur) (\<lambda>t. Inr (True, out @ t))) (vec_list v) [] =
        Inr (True, [] @ concat (map (\<lambda>x. print_lines (value_lines f (obj_value x))) (vec_list v)))"
      by (rule run_body_prints) (rule each)
    ultimately show ?thesis
      unfolding object_show.simps Array object.case vec_iter_loop_visits [OF v(1-3) less_add_one] by simp
  qed (use Suc.prems(1,2) in \<open>simp_all add: print_lines_def\<close>)
qed

text \<open>A boolean is followed by what the union holds: a line with the byte 1, or an empty line.\<close>

lemma object_show_bool:
  "object_show f (Suc n) (Bool 1) = Inr (''t'' @ [LF, CHR 0x01, LF])" "object_show f (Suc n) (Bool 0) = Inr (''f'' @ [LF, LF])"
proof -
  have four: "4 = Suc (Suc (Suc (Suc 0)))" by simp
  have "le_bytes 4 m = [char_of m, char_of (m div 256), char_of (m div 256 div 256), char_of (m div 256 div 256 div 256)]" for m
    unfolding four le_bytes_Suc by (simp add: le_bytes_def)
  then have "le_bytes 4 1 = [CHR 0x01, NUL, NUL, NUL]" "le_bytes 4 0 = [NUL, NUL, NUL, NUL]"
    by (simp_all add: char_of_def bit_0)
  then show "object_show f (Suc n) (Bool 1) = Inr (''t'' @ [LF, CHR 0x01, LF])" "object_show f (Suc n) (Bool 0) = Inr (''f'' @ [LF, LF])"
    by (simp_all add: union_as_string_def union_bytes_def c_str_def)
qed

text \<open>
  An array that has just been created, as the parser makes it for an empty reply, is not printed: the unused slots are shown
  and then the iterator reads past the end of the vector.
\<close>

lemma object_show_empty_array:
  assumes "alloc_total al" "vec_new al Null sizeof_object = Some v"
  shows "object_show f (Suc (Suc n)) (Array v) = Inl Out_of_bounds"
proof -
  define body where "body = (\<lambda>cur out. res_bind (object_show f (Suc n) cur) (\<lambda>t. Inr (True, out @ t)))"
  have v: "vec_len v = 0" "vec_cap v = 2" "vec_data v = [Null, Null]"
    using assms by (auto simp: vec_new_def Let_def numeral_2_eq_2)
  have "vec_iter_loop (vec_cap v + 1) body (vec_iter_new v) t =
      res_bind (run_body body [Null, Null] t) (\<lambda>(go, s'). if go then Inl Out_of_bounds else Inr (False, s'))" for t
    using vec_iter_loop_oob [of "- 1" 0 v "vec_cap v + 1" body t] v by (simp add: vec_iter_new_at)
  then have "vec_iter_loop (vec_cap v + 1) body (vec_iter_new v) [] = Inl Out_of_bounds" by (simp add: body_def)
  then show ?thesis unfolding object_show.simps(2) [of f "Suc n"] object.case body_def by simp
qed

end
