(* ===== verification/Shell.thy ===== *)
theory Shell
  imports Line_Parser Object_Show
begin

text \<open>
  The shell as a program (\<^verbatim>\<open>main\<close> of \<^verbatim>\<open>src/src/lexi-cli.c\<close>): it connects, logs in, and then reads lines,
  executes them and prints what they return, until a line says \<^verbatim>\<open>exit\<close>.
\<close>

section \<open>The program\<close>

text \<open>What appears on the terminal: the prompt, what \<^verbatim>\<open>object_show\<close> prints, and messages of the logging macro.\<close>

datatype seen = Prompt | Shown string | Logged string

text \<open>
  What the operating system answers: to \<^verbatim>\<open>create_tcp_socket\<close>, to the attempts to connect, during the login, and during the
  commands in turn. The conversion \<^verbatim>\<open>%f\<close> of the C library is another argument.
\<close>

record shell_os =
  so_socket :: int
  so_errno :: errno
  so_connect :: "(int \<Rightarrow> sockaddr_in \<Rightarrow> int \<times> bool) list"
  so_login :: hio
  so_turn :: "nat \<Rightarrow> hio"

text \<open>\<^verbatim>\<open>main\<close> up to its loop: an exit code, or the connection.\<close>

definition cli_start :: "env \<Rightarrow> shell_os \<Rightarrow> ((int \<times> seen list \<times> string) + (string \<times> hilexi)) res" where
  "cli_start E os =
     res_bind (hilexi_new (e_al E) (so_socket os) (so_errno os) ''127.0.0.1'' 6969) (\<lambda>rl.
       case rl of
         Err e \<Rightarrow> Inr (Inl (1, [Logged (c_str (vstr_data e))], []))
       | Ok l \<Rightarrow>
           res_bind (hilexi_connect (so_connect os) l) (\<lambda>connect_res.
             if connect_res = - 1 then
               Inr (Inl (1, [Logged (''failed to connect (errno: '' @ fmt_ld (fst (so_errno os)) @ '') '' @ snd (so_errno os) @ [LF])], []))
             else res_bind (hilexi_authenticate E (so_login os) ''root'' ''root'' l) (\<lambda>(auth_res, sent, l).
               if auth_res \<noteq> 0 then Inr (Inl (1, [Logged (''failed to authenticate'' @ [LF])], sent))
               else Inr (Inr (sent, l)))))"

text \<open>
  The loop, on the bytes that the standard input still has. It carries what was seen and sent so far; \<^term>\<open>None\<close> is a loop
  that does not end.
\<close>

partial_function (option) cli_loop :: "env \<Rightarrow> fmt_double \<Rightarrow> fmt_double \<Rightarrow> shell_os \<Rightarrow> nat \<Rightarrow> string \<Rightarrow> hilexi \<Rightarrow> seen list \<Rightarrow> string \<Rightarrow>
    (seen list \<times> string \<times> hilexi) res option" where
  "cli_loop E g fmt_f os i input l screen sent =
     (case read_line (e_al E) input of
        None \<Rightarrow> None
      | Some (line, rest) \<Rightarrow>
          (case cli_turn E g (so_turn os i) line l of
             Inl e \<Rightarrow> Some (Inl e)
           | Inr Nothing \<Rightarrow> cli_loop E g fmt_f os i rest l (screen @ [Prompt]) sent
           | Inr Leave \<Rightarrow> Some (Inr (screen @ [Prompt], sent, hilexi_close l))
           | Inr (Executed (Err e) out l) \<Rightarrow>
               cli_loop E g fmt_f os (i + 1) rest l (screen @ [Prompt, Logged (c_str (vstr_data e) @ [LF])]) (sent @ out)
           | Inr (Executed (Ok obj) out l) \<Rightarrow>
               (case object_show fmt_f (size obj + 1) obj of
                  Inl e \<Rightarrow> Some (Inl e)
                | Inr t \<Rightarrow> cli_loop E g fmt_f os (i + 1) rest l (screen @ [Prompt, Shown t]) (sent @ out))))"

text \<open>The exit code, what was seen and what was sent.\<close>

definition cli_main :: "env \<Rightarrow> fmt_double \<Rightarrow> fmt_double \<Rightarrow> shell_os \<Rightarrow> string \<Rightarrow> (int \<times> seen list \<times> string) res option" where
  "cli_main E g fmt_f os input =
     (case cli_start E os of
        Inl e \<Rightarrow> Some (Inl e)
      | Inr (Inl failed) \<Rightarrow> Some (Inr failed)
      | Inr (Inr (sent, l)) \<Rightarrow>
          map_option (\<lambda>r. res_bind r (\<lambda>(screen, sent, l). Inr (0, screen, sent))) (cli_loop E g fmt_f os 0 input l [] sent))"

section \<open>Turns of the loop\<close>

text \<open>
  The socket carries a request to the server and the reply back, in parts that fit into the buffer of any size that a
  connection can have.
\<close>

definition carries :: "fmt_double \<Rightarrow> hio \<Rightarrow> string \<Rightarrow> areply \<Rightarrow> bool" where
  "carries g io req r \<longleftrightarrow> length req \<le> VSTR_MAX_LARGE_SIZE \<and> takes_all (hi_write io) (length req) \<and>
     (\<exists>ds rs. hi_read io = map Read_bytes ds @ Read_again # rs \<and> concat ds = reply_text g r \<and>
       (\<forall>cap \<ge> READ_BUF_INITIAL_CAP. reads_fit cap 0 ds))"

definition typed_ok :: "string \<Rightarrow> bool" where
  "typed_ok t \<longleftrightarrow> LF \<notin> set t \<and> length t \<le> VSTR_MAX_LARGE_SIZE"

lemma cli_loop_exit:
  assumes "alloc_total (e_al E)"
  shows "\<exists>l'. cli_loop E g f os i (''exit'' @ LF # rest) l screen sent = Some (Inr (screen @ [Prompt], sent, l'))"
proof -
  from read_line_loop_reads [OF _ vstr_new_clean(1) assms, of "''exit''" rest] obtain line where
    line: "read_line (e_al E) (''exit'' @ LF # rest) = Some (line, rest)" "vstr_clean line" "vstr_str line = ''exit''"
    by (auto simp: read_line_def VSTR_MAX_LARGE_SIZE_def)
  have le: "vstr_len line \<le> length (vstr_data line)" using vstr_len_le_data [of line] line(2) by (simp add: vstr_clean_live vstr_live_wf)
  then have len: "vstr_len line = 4" using arg_cong [OF line(3), of length] by (simp add: vstr_str_def)
  with line(3) have "take 4 (vstr_data line) = ''exit''" by (simp add: vstr_str_def)
  with len le have "cli_turn E g (so_turn os i) line l = Inr Leave"
    using memcmp_eq_0 [of 4 "vstr_data line" "''exit''"] by (simp add: cli_turn_def Let_def)
  with line(1) show ?thesis by (subst cli_loop.simps) simp
qed

lemma cli_loop_turn:
  assumes "typed_ok t" "says t a" "carries g (so_turn os i) (request g a) r" "reply_ok E g r" "show_val (reply_value r)"
    and "hl_ok l" "READ_BUF_INITIAL_CAP \<le> hl_read_cap l" "alloc_total (e_al E)" "fmt_g_ok g"
  obtains l' where "hl_ok l'" "READ_BUF_INITIAL_CAP \<le> hl_read_cap l'"
    "cli_loop E g f os i (t @ LF # rest) l screen sent =
       cli_loop E g f os (i + 1) rest l' (screen @ [Prompt, Shown (print_lines (value_lines f (reply_value r)))]) (sent @ request g a)"
proof -
  from assms(3) obtain ds rs where io: "hi_read (so_turn os i) = map Read_bytes ds @ Read_again # rs" "concat ds = reply_text g r"
    "\<forall>cap \<ge> READ_BUF_INITIAL_CAP. reads_fit cap 0 ds" "length (request g a) \<le> VSTR_MAX_LARGE_SIZE"
    "takes_all (hi_write (so_turn os i)) (length (request g a))" by (auto simp: carries_def)
  have t: "LF \<notin> set t" "length t \<le> VSTR_MAX_LARGE_SIZE" using assms(1) by (simp_all add: typed_ok_def)
  have fit: "reads_fit (hl_read_cap l) 0 ds" using io(3) assms(7) by blast
  from typed_line_runs [OF t assms(2,6,8,9) io(4,5,1) fit io(2) assms(4)] obtain line obj l' where
    r: "read_line (e_al E) (t @ LF # rest) = Some (line, rest)"
      "cli_turn E g (so_turn os i) line l = Inr (Executed (Ok obj) (request g a) l')" "obj_value obj = reply_value r" "clean_obj obj"
      "hl_ok l'" "hl_read_cap l \<le> hl_read_cap l'" .
  have "object_show f (size obj + 1) obj = Inr (print_lines (value_lines f (reply_value r)))"
    using object_show_prints [of obj "size obj + 1" f] r(3,4) assms(5) by simp
  then have "cli_loop E g f os i (t @ LF # rest) l screen sent =
      cli_loop E g f os (i + 1) rest l' (screen @ [Prompt, Shown (print_lines (value_lines f (reply_value r)))]) (sent @ request g a)"
    by (subst cli_loop.simps) (simp add: r(1,2) del: object_show.simps)
  with that [OF r(5)] r(6) assms(7) show thesis by auto
qed

section \<open>Sessions\<close>

text \<open>A session: the lines that are typed, the commands that they say and the replies that come back.\<close>

definition session_lines :: "(string \<times> acmd \<times> areply) list \<Rightarrow> string" where
  "session_lines ts = concat (map (\<lambda>(t, a, r). t @ [LF]) ts)"

definition session_screen :: "fmt_double \<Rightarrow> (string \<times> acmd \<times> areply) list \<Rightarrow> seen list" where
  "session_screen f ts = concat (map (\<lambda>(t, a, r). [Prompt, Shown (print_lines (value_lines f (reply_value r)))]) ts)"

definition session_sent :: "fmt_double \<Rightarrow> (string \<times> acmd \<times> areply) list \<Rightarrow> string" where
  "session_sent g ts = concat (map (\<lambda>(t, a, r). request g a) ts)"

fun session_runs :: "env \<Rightarrow> fmt_double \<Rightarrow> shell_os \<Rightarrow> nat \<Rightarrow> (string \<times> acmd \<times> areply) list \<Rightarrow> bool" where
  "session_runs E g os i [] \<longleftrightarrow> True"
| "session_runs E g os i ((t, a, r) # ts) \<longleftrightarrow> typed_ok t \<and> says t a \<and> carries g (so_turn os i) (request g a) r \<and>
     reply_ok E g r \<and> show_val (reply_value r) \<and> session_runs E g os (i + 1) ts"

lemma cli_loop_session:
  assumes "session_runs E g os i ts" "hl_ok l" "READ_BUF_INITIAL_CAP \<le> hl_read_cap l" "alloc_total (e_al E)" "fmt_g_ok g"
  shows "\<exists>l'. cli_loop E g f os i (session_lines ts @ ''exit'' @ LF # rest) l screen sent =
    Some (Inr (screen @ session_screen f ts @ [Prompt], sent @ session_sent g ts, l'))"
  using assms(1-3)
proof (induction ts arbitrary: i l screen sent)
  case Nil
  then show ?case using cli_loop_exit [OF assms(4)] by (simp add: session_lines_def session_screen_def session_sent_def)
next
  case (Cons x ts)
  obtain t a r where x: "x = (t, a, r)" by (cases x)
  with Cons.prems(1) have s: "typed_ok t" "says t a" "carries g (so_turn os i) (request g a) r" "reply_ok E g r"
    "show_val (reply_value r)" "session_runs E g os (i + 1) ts" by simp_all
  let ?rest = "session_lines ts @ ''exit'' @ LF # rest"
  from cli_loop_turn [OF s(1-5) Cons.prems(2,3) assms(4,5), of f ?rest screen sent] obtain l' where
    l': "hl_ok l'" "READ_BUF_INITIAL_CAP \<le> hl_read_cap l'" "cli_loop E g f os i (t @ LF # ?rest) l screen sent =
      cli_loop E g f os (i + 1) ?rest l' (screen @ [Prompt, Shown (print_lines (value_lines f (reply_value r)))]) (sent @ request g a)" .
  from Cons.IH [OF s(6) l'(1,2), of "screen @ [Prompt, Shown (print_lines (value_lines f (reply_value r)))]" "sent @ request g a"]
    l'(3) show ?case
    by (simp add: x session_lines_def session_screen_def session_sent_def)
qed

text \<open>The attempts to connect: some that are in progress, and then one that reaches the server on this machine.\<close>

abbreviation server_address :: sockaddr_in where
  "server_address \<equiv> tcp_address (parse_addr ''127.0.0.1'') 6969"

fun connects :: "int \<Rightarrow> (int \<Rightarrow> sockaddr_in \<Rightarrow> int \<times> bool) list \<Rightarrow> bool" where
  "connects sfd [] \<longleftrightarrow> False"
| "connects sfd (con # cs) \<longleftrightarrow>
     (let (res, in_progress) = con sfd server_address in res = 0 \<or> res = - 1 \<and> in_progress \<and> connects sfd cs)"

lemma hilexi_connect_retries:
  assumes "connects (hl_sfd l) cs" "hl_addr l = parse_addr ''127.0.0.1''" "hl_port l = 6969"
  shows "hilexi_connect cs l = Inr 0"
  using assms by (induction cs) (auto simp: tcp_connect_def split: prod.splits)

abbreviation login_request :: "fmt_double \<Rightarrow> string" where
  "login_request g \<equiv> message g ''AUTH'' [VStr ''root'', VStr ''root'']"

lemma cli_start_logs_in:
  assumes "so_socket os \<noteq> - 1" "connects (so_socket os) (so_connect os)"
    and "carries g (so_login os) (login_request g) R_ok" "alloc_total (e_al E)" "fmt_g_ok g"
  obtains l where "cli_start E os = Inr (Inr (login_request g, l))" "hl_ok l" "READ_BUF_INITIAL_CAP \<le> hl_read_cap l"
proof -
  from assms(1,4) obtain l0 where
    l0: "hilexi_new (e_al E) (so_socket os) (so_errno os) ''127.0.0.1'' 6969 = Inr (Ok l0)" "hl_ok l0" "hl_read_cap l0 = READ_BUF_INITIAL_CAP"
      "hl_sfd l0 = so_socket os" "hl_addr l0 = parse_addr ''127.0.0.1''" "hl_port l0 = 6969"
    by (auto simp: hilexi_new_def hl_ok_def builder_new_def)
  from assms(3) obtain ds rs where io: "hi_read (so_login os) = map Read_bytes ds @ Read_again # rs" "concat ds = reply_text g R_ok"
    "\<forall>cap \<ge> READ_BUF_INITIAL_CAP. reads_fit cap 0 ds" "length (login_request g) \<le> VSTR_MAX_LARGE_SIZE"
    "takes_all (hi_write (so_login os)) (length (login_request g))" by (auto simp: carries_def)
  have fit: "reads_fit (hl_read_cap l0) 0 ds" using io(3) l0(3) by simp
  from hilexi_authenticate_spec [OF l0(2) assms(4,5) _ _ io(4,5,1) fit io(2)] obtain obj l where
    l: "hilexi_authenticate E (so_login os) ''root'' ''root'' l0 =
        Inr (case obj of String s \<Rightarrow> vstr_cmp s (vstr_from (e_al E) ''OK'') | _ \<Rightarrow> - 1, login_request g, l)"
      "obj_value obj = VStr ''OK''" "clean_obj obj" "hl_ok l" "hl_read_cap l0 \<le> hl_read_cap l" by auto
  from l(2,3) obtain s where s: "obj = String s" "vstr_str s = ''OK''" "vstr_clean s" by (cases obj) auto
  have "vstr_cmp s (vstr_from (e_al E) ''OK'') = 0"
    using vstr_cmp_zero [of s "vstr_from (e_al E) ''OK''"] vstr_from_plain [OF assms(4), of "''OK''"] s(2,3)
    by (simp add: vstr_clean_live vstr_live_wf VSTR_MAX_LARGE_SIZE_def)
  with l(1) s(1) l0(1,4-6) assms(2) have "cli_start E os = Inr (Inr (login_request g, l))"
    by (simp add: cli_start_def hilexi_connect_retries)
  with that l(4,5) l0(3) show thesis by simp
qed

section \<open>Properties\<close>


definition ex_os :: shell_os where
  "ex_os = \<lparr>so_socket = 3, so_errno = (0, []), so_connect = [\<lambda>_ _. (- 1, True), \<lambda>_ sa. if sin_port sa = htons 6969 then (0, False) else (- 1, False)],
     so_login = \<lparr>hi_write = [Write_ok 10, Write_ok 100], hi_read = [Read_bytes (''+OK'' @ CRLF), Read_again], hi_errno = (0, [])\<rparr>,
     so_turn = (\<lambda>i. \<lparr>hi_write = [Write_ok 5, Write_ok 100],
       hi_read = (if i = 0 then [Read_bytes ''+O'', Read_bytes (''K'' @ CRLF), Read_again] else [Read_bytes '':7'', Read_bytes CRLF, Read_again]),
       hi_errno = (0, [])\<rparr>)\<rparr>"

lemma ex_says_pop: "says ''POP'' APop"
  unfolding says_def
  by (intro exI [of _ "[]"] exI [of _ "''POP''"] exI [of _ "[]"]) (simp add: line_words_def blanks_def gap_def args_ok_def line_lookups_def)


end
