(* ===== verification/Random_Bytes.thy ===== *)
theory Random_Bytes
  imports Sha256
begin

unbundle bit_operations_syntax

text \<open>
  The random bytes that seed the hash tables (\<^verbatim>\<open>get_random_bytes\<close> of \<^verbatim>\<open>src/src/util.c\<close>): the static variables are the
  state, and what the system gives is an argument. The bytes are SHA-256 in counter mode, keyed as in HMAC.
\<close>

section \<open>The generator\<close>

record rng =
  seed_initialized :: bool
  rng_seed :: string
  rng_counter :: "64 word"

text \<open>
  What \<^verbatim>\<open>fopen\<close> and \<^verbatim>\<open>fread\<close> on \<^verbatim>\<open>/dev/urandom\<close> yield when both succeed, and for the other case the clock at each of its
  64 readings, the process number and the pointer that \<^verbatim>\<open>fopen\<close> returned.
\<close>

record entropy =
  ur_bytes :: "string option"
  ur_clock :: "nat \<Rightarrow> 64 word \<times> 64 word"
  ur_pid :: "64 word"
  ur_fp :: "64 word"

definition fallback_byte :: "entropy \<Rightarrow> nat \<Rightarrow> byte" where
  "fallback_byte u j = (case ur_clock u j of (sec, usec) \<Rightarrow> char_of (unat (sec XOR usec XOR ur_pid u XOR ur_fp u)))"

definition seed_rng :: "entropy \<Rightarrow> rng \<Rightarrow> rng" where
  "seed_rng u g =
     (if seed_initialized g then g
      else case ur_bytes u of
        None \<Rightarrow> g\<lparr>rng_seed := map (fallback_byte u) [0..<64]\<rparr>
      | Some bytes \<Rightarrow> g\<lparr>rng_seed := bytes, seed_initialized := True\<rparr>)"

definition xor_byte :: "nat \<Rightarrow> byte \<Rightarrow> byte" where
  "xor_byte k c = char_of ((of_char c :: nat) XOR k)"

text \<open>The body of the loop: the digest of one value of the counter.\<close>

definition random_block :: "SHA256_CTX \<Rightarrow> string \<Rightarrow> 64 word \<Rightarrow> string res" where
  "random_block ctx seed counter =
     res_bind (sha256_update (sha256_init ctx) (map (xor_byte 0x36) seed)) (\<lambda>ctx.
     res_bind (sha256_update ctx (le_bytes 8 (unat counter))) (\<lambda>ctx.
     let (digest, ctx) = sha256_final ctx in
     res_bind (sha256_update (sha256_init ctx) (map (xor_byte 0x5C) seed)) (\<lambda>ctx.
     res_bind (sha256_update ctx digest) (\<lambda>ctx. Inr (fst (sha256_final ctx))))))"

function random_loop :: "SHA256_CTX \<Rightarrow> nat \<Rightarrow> rng \<Rightarrow> string \<Rightarrow> (string \<times> rng) res" where
  "random_loop ctx len g p =
     (if len = 0 then Inr (p, g)
      else let copylen = (if len > 32 then 32 else len) in
        res_bind (random_block ctx (rng_seed g) (rng_counter g)) (\<lambda>digest.
          random_loop ctx (len - copylen) (g\<lparr>rng_counter := rng_counter g + 1\<rparr>) (p @ take copylen digest)))"
  by pat_completeness auto

termination
  by (relation "measure (\<lambda>(ctx, len, g, p). len)") auto

declare random_loop.simps [simp del]

definition get_random_bytes :: "SHA256_CTX \<Rightarrow> entropy \<Rightarrow> nat \<Rightarrow> rng \<Rightarrow> (string \<times> rng) res" where
  "get_random_bytes ctx u len g = random_loop ctx len (seed_rng u g) []"

section \<open>The specification\<close>

text \<open>HMAC-SHA-256 with a key of 64 bytes, of the counter in eight bytes, for successive values of the counter.\<close>

definition hmac_sha256 :: "string \<Rightarrow> string \<Rightarrow> string" where
  "hmac_sha256 key msg = sha256_spec (map (xor_byte 0x5C) key @ sha256_spec (map (xor_byte 0x36) key @ msg))"

fun key_stream :: "string \<Rightarrow> 64 word \<Rightarrow> nat \<Rightarrow> string" where
  "key_stream seed c 0 = []"
| "key_stream seed c (Suc n) = hmac_sha256 seed (le_bytes 8 (unat c)) @ key_stream seed (c + 1) n"

lemma sha256_twice:
  assumes "length (ctx_data ctx) = 64" "length m1 < 2 ^ 32" "length m2 < 2 ^ 32"
  obtains c1 c2 where "sha256_update (sha256_init ctx) m1 = Inr c1" "sha256_update c1 m2 = Inr c2"
    "fst (sha256_final c2) = sha256_spec (m1 @ m2)" "length (ctx_data (snd (sha256_final c2))) = 64"
proof -
  let ?c = "foldl sha256_update_byte (foldl sha256_update_byte (sha256_init ctx) m1) m2"
  have inv: "sha_inv ?c (m1 @ m2)" using sha_inv_update [OF sha_inv_update [OF sha_inv_init [OF assms(1)], of m1], of m2] by simp
  have "length (ctx_data ?c) = 64" using inv by (simp add: sha_inv_def)
  then have "length (ctx_data (snd (sha256_final ?c))) = 64"
    by (simp add: sha256_final_def sha_pad_buffer_def Let_def)
  with sha256_final_spec [OF inv] assms(2,3) show thesis by (intro that) (auto simp: sha256_update_def)
qed

lemma random_block_spec:
  assumes "length (ctx_data ctx) = 64" "length seed = 64"
  shows "random_block ctx seed c = Inr (hmac_sha256 seed (le_bytes 8 (unat c)))"
proof -
  have len: "length (map (xor_byte k) seed) < 2 ^ 32" "length (le_bytes 8 n) < 2 ^ 32" for k n using assms(2) by simp_all
  from sha256_twice [OF assms(1) len(1,2)] obtain c1 c2 where
    1: "sha256_update (sha256_init ctx) (map (xor_byte 0x36) seed) = Inr c1" "sha256_update c1 (le_bytes 8 (unat c)) = Inr c2"
      "fst (sha256_final c2) = sha256_spec (map (xor_byte 0x36) seed @ le_bytes 8 (unat c))"
      "length (ctx_data (snd (sha256_final c2))) = 64" by blast
  let ?d = "sha256_spec (map (xor_byte 0x36) seed @ le_bytes 8 (unat c))"
  have "length ?d < 2 ^ 32" by (simp add: length_sha256_spec)
  from sha256_twice [OF 1(4) len(1) this] obtain c3 c4 where
    2: "sha256_update (sha256_init (snd (sha256_final c2))) (map (xor_byte 0x5C) seed) = Inr c3" "sha256_update c3 ?d = Inr c4"
      "fst (sha256_final c4) = sha256_spec (map (xor_byte 0x5C) seed @ ?d)" by blast
  show ?thesis using 1 2 by (simp add: random_block_def hmac_sha256_def split_beta)
qed

lemma length_hmac [simp]: "length (hmac_sha256 k m) = 32"
  by (simp add: hmac_sha256_def length_sha256_spec)

lemma length_key_stream [simp]: "length (key_stream seed c n) = 32 * n"
  by (induction n arbitrary: c) simp_all

lemma random_loop_spec:
  assumes "length (ctx_data ctx) = 64" "length (rng_seed g) = 64" "len \<le> 32 * n" "32 * n < len + 32"
  shows "random_loop ctx len g p =
    Inr (p @ take len (key_stream (rng_seed g) (rng_counter g) n), g\<lparr>rng_counter := rng_counter g + of_nat n\<rparr>)"
  using assms
proof (induction n arbitrary: len g p)
  case 0
  then show ?case by (simp add: random_loop.simps [of ctx 0])
next
  case (Suc n)
  let ?h = "hmac_sha256 (rng_seed g) (le_bytes 8 (unat (rng_counter g)))" and ?k = "if len > 32 then 32 else len"
  have "0 < len" using Suc.prems(4) by simp
  then have "random_loop ctx len g p = random_loop ctx (len - ?k) (g\<lparr>rng_counter := rng_counter g + 1\<rparr>) (p @ take ?k ?h)"
    using random_block_spec [OF Suc.prems(1,2)] by (simp add: random_loop.simps [of ctx len] Let_def)
  also have "\<dots> = Inr ((p @ take ?k ?h) @ take (len - ?k) (key_stream (rng_seed g) (rng_counter g + 1) n),
      g\<lparr>rng_counter := rng_counter g + 1 + of_nat n\<rparr>)"
  proof -
    have "len - ?k \<le> 32 * n" "32 * n < len - ?k + 32" using Suc.prems(3,4) by (auto split: if_splits)
    from Suc.IH [of "g\<lparr>rng_counter := rng_counter g + 1\<rparr>", OF Suc.prems(1) _ this] Suc.prems(2) show ?thesis by simp
  qed
  finally show ?case by (simp add: add.assoc)
qed

section \<open>Properties\<close>

text \<open>
  C22. The random bytes are HMAC-SHA-256 in counter mode: for any number of bytes, \<^verbatim>\<open>get_random_bytes\<close> returns that many bytes of the key
  stream that starts at the counter, keyed by the seed, and the counter moves past every block that was used, so that
  no block is handed out twice.
\<close>

theorem random_bytes_stream:
  assumes "length (ctx_data ctx) = 64" "length (rng_seed (seed_rng u g)) = 64" "n = (len + 31) div 32"
  shows "get_random_bytes ctx u len g =
    Inr (take len (key_stream (rng_seed (seed_rng u g)) (rng_counter g) n),
      (seed_rng u g)\<lparr>rng_counter := rng_counter g + of_nat n\<rparr>)"
proof -
  have "rng_counter (seed_rng u g) = rng_counter g" by (auto simp: seed_rng_def split: option.splits)
  moreover have "len \<le> 32 * n" "32 * n < len + 32" using assms(3) by simp_all
  ultimately show ?thesis using random_loop_spec [OF assms(1,2)] by (simp add: get_random_bytes_def)
qed

theorem random_bytes_stream_witness:
  "get_random_bytes \<lparr>ctx_data = replicate 64 NUL, ctx_datalen = 0, ctx_bitlen = 0, ctx_state = []\<rparr>
     \<lparr>ur_bytes = Some (replicate 64 (CHR ''s'')), ur_clock = (\<lambda>_. (0, 0)), ur_pid = 1, ur_fp = 4096\<rparr> 16
     \<lparr>seed_initialized = False, rng_seed = [], rng_counter = 7\<rparr> =
   Inr (take 16 (key_stream (replicate 64 (CHR ''s'')) 7 1),
     \<lparr>seed_initialized = True, rng_seed = replicate 64 (CHR ''s''), rng_counter = 8\<rparr>)"
  by (subst random_bytes_stream [where n = 1]) (simp_all add: seed_rng_def)

end
