(* ===== verification/Spec2Isabelle.thy ===== *)
theory Spec2Isabelle
  imports Program Networking Shell Random_Bytes
begin

text \<open>
  A model of the key-value server lexidb (\<^verbatim>\<open>src/src\<close>) and of its client library, with the theorems that
  make it correct.

  \<^bold>\<open>The program.\<close> A server process accepts TCP connections, reads requests in a line-based format, executes
  them on its databases (each a hash table, a hash set, a stack and a queue of objects) and sends
  replies in the same format. It is one thread around an event loop with an epoll or a select back end. A client library
  builds the requests and parses the replies. Everything rests on a string type that stores short strings inside the
  struct, a dynamic array, a linked queue, a hash table and a hash set keyed by SipHash. Users and options come from a
  configuration file, and passwords are kept as SHA-256 digests.

  \<^bold>\<open>Theories and sources.\<close>
  \<^item> \<^verbatim>\<open>Prelude\<close>: the monad of C code that may abort (\<^verbatim>\<open>abort\<close>: a failed assertion, a null or dangling
    pointer, an access out of bounds, a loop that does not end), the C library's string functions and number formats.
    Memory comes from an \<^verbatim>\<open>allocator\<close>, a function from sizes to addresses whose value 0 is the null pointer that
    \<^verbatim>\<open>malloc\<close> returns when it fails; \<^verbatim>\<open>alloc_total\<close> says that it does not.
  \<^item> \<^verbatim>\<open>Vstr\<close> (\<^verbatim>\<open>vstr.c\<close>), \<^verbatim>\<open>Vec\<close> (\<^verbatim>\<open>vec.c\<close>), \<^verbatim>\<open>Queue\<close> (\<^verbatim>\<open>queue.c\<close>, with its nodes in a store),
    \<^verbatim>\<open>Siphash\<close> (\<^verbatim>\<open>siphash.c\<close>), \<^verbatim>\<open>Chains\<close>, \<^verbatim>\<open>Ht\<close> (\<^verbatim>\<open>ht.c\<close>), \<^verbatim>\<open>Hset\<close> (\<^verbatim>\<open>set.c\<close>): the containers, one
    definition per function, with an invariant (\<^verbatim>\<open>vstr_wf\<close>, \<^verbatim>\<open>vec_wf\<close>, \<^verbatim>\<open>queue_wf\<close>, \<^verbatim>\<open>ht_wf\<close>, \<^verbatim>\<open>set_wf\<close>) and an
    abstraction to lists, maps and sets (\<^verbatim>\<open>vstr_str\<close>, \<^verbatim>\<open>vec_list\<close>, \<^verbatim>\<open>queue_list\<close>, \<^verbatim>\<open>ht_map\<close>, \<^verbatim>\<open>set_contents\<close>).
  \<^item> \<^verbatim>\<open>Object\<close> (\<^verbatim>\<open>object.c\<close>), \<^verbatim>\<open>Builder\<close> (\<^verbatim>\<open>builder.c\<close>, \<^verbatim>\<open>reply.c\<close>), \<^verbatim>\<open>Parser\<close> (\<^verbatim>\<open>parser.c\<close>, \<^verbatim>\<open>cmd.h\<close>): the values and the
    format. \<^verbatim>\<open>enc\<close> is the text of a value; the builder appends it and the parser reads it back.
  \<^item> \<^verbatim>\<open>Sha256\<close> (\<^verbatim>\<open>sha256.c\<close>, \<^verbatim>\<open>auth.c\<close>), \<^verbatim>\<open>Ev\<close> (\<^verbatim>\<open>ev.c\<close>, \<^verbatim>\<open>ev_epoll.c\<close>, \<^verbatim>\<open>ev_select.c\<close>).
  \<^item> \<^verbatim>\<open>Server\<close> (\<^verbatim>\<open>server.c\<close>): the whole of accepting, reading, executing, replying and closing. The connections are
    in a store from addresses to clients, since the vector of connections holds pointers. \<^verbatim>\<open>Commands\<close> has the abstract database and
    the refinement of every command, \<^verbatim>\<open>Access\<close> authentication, \<^verbatim>\<open>Loop\<close> the invariant of the running server, \<^verbatim>\<open>Setup\<close> the
    start (\<^verbatim>\<open>server_new\<close>, with \<^verbatim>\<open>read_file\<close> and other helpers of \<^verbatim>\<open>util.c\<close>).
  \<^item> \<^verbatim>\<open>Config_Parser\<close> (\<^verbatim>\<open>config_parser.c\<close>), \<^verbatim>\<open>Networking\<close> (\<^verbatim>\<open>networking.c\<close>), \<^verbatim>\<open>Hilexi\<close> (\<^verbatim>\<open>hilexi.c\<close>).
  \<^item> \<^verbatim>\<open>Line_Parser\<close> (\<^verbatim>\<open>line_parser.c\<close>, \<^verbatim>\<open>read_line.c\<close>, \<^verbatim>\<open>lexi-cli.c\<close>): what a user types into the shell, up to the call of
    the client library. \<^verbatim>\<open>Object_Show\<close> (\<^verbatim>\<open>object_show\<close> of \<^verbatim>\<open>object.c\<close>): what the shell prints. \<^verbatim>\<open>Shell\<close>
    (\<^verbatim>\<open>main\<close> of \<^verbatim>\<open>lexi-cli.c\<close>): connecting, logging in and the loop over the lines.
  \<^item> \<^verbatim>\<open>Clap\<close> (\<^verbatim>\<open>clap.c\<close>): the options of the command line. \<^verbatim>\<open>Program\<close> (\<^verbatim>\<open>server_run\<close> of \<^verbatim>\<open>server.c\<close>, called by
    \<^verbatim>\<open>db.c\<close>): from the arguments of the process over the configuration file to the event loop.
  \<^item> \<^verbatim>\<open>Random_Bytes\<close> (\<^verbatim>\<open>get_random_bytes\<close> of \<^verbatim>\<open>util.c\<close>): the generator of the hash seeds.

  \<^bold>\<open>What the operating system does\<close> is an argument: what \<^verbatim>\<open>read\<close>, \<^verbatim>\<open>write\<close>, \<^verbatim>\<open>accept\<close>, \<^verbatim>\<open>epoll_ctl\<close> and so on answer is a value
  or a list of values given to the operation that calls them. The \<^verbatim>\<open>%g\<close> conversion, \<^verbatim>\<open>strtod\<close> and the random seed are
  functions of the environment records (\<^verbatim>\<open>env\<close>, \<^verbatim>\<open>senv\<close>), with what is relied on as named predicates (\<^verbatim>\<open>env_ok\<close>,
  \<^verbatim>\<open>fmt_g_ok\<close>). The two back ends of the event loop meet in the locale \<^verbatim>\<open>event_api\<close>, interpreted on the select back
  end and, through the locale of the kernel's interest list, on the epoll back end; strings, vectors, queues and tables have locales
  of the laws that their clients use, interpreted in their theories.

  \<^bold>\<open>What is shown.\<close> For each container, that every operation keeps the invariant and does on the abstraction what its
  name says, on the failing branches as well. That the parser reads back what the builder wrote, and that parsing always
  ends but for one loop. That \<^verbatim>\<open>sha256\<close> and \<^verbatim>\<open>siphash\<close> equal their specifications. That every command
  refines the abstract database; that a request that arrives in pieces is answered with the specified reply; that no command touches
  another connection or database; that no connection acts before it has authenticated, and that AUTH tests the digest of the
  password. That the tables of the server stay in order over every sequence of events. That a call of the client library, through the
  server, returns the value that the abstract database has. That the configuration parser reads what a specification of its
  lines says, and that the server it configures starts in order with those users, who can log in. That the options are read as a
  specification of the arguments says, and that a session in the shell sends the
  requests and shows the replies that its lines ask for. That the generator
  yields HMAC-SHA-256 of a counter.

  \<^bold>\<open>What does not hold\<close> is stated as well, each under the hypotheses where the code shows it: keys longer
  than 23 bytes, KEYS outside database 0, replies that are written in parts, connections that the loop refuses, a configuration with no users,
  requests that hang or abort the server, tables that the builder never ends to send.

  \<^bold>\<open>Bounds and fuel.\<close> Loops are recursive functions with a measure, mostly the bytes left of the input. Three have fuel: the
  mutually recursive parser of values, where the length of the input plus two is enough, since every nesting level reads a
  byte (\<^verbatim>\<open>parse_terminates\<close>); \<^verbatim>\<open>builder_add_object\<close>, where more than the depth of the object is enough; and the
  iteration over a vector, where more than its capacity shows that the iterator does not stop. Integers are
  words where the code relies on their width; lengths of buffers are natural numbers bounded by \<^verbatim>\<open>VSTR_MAX_LARGE_SIZE\<close>.
  Assertions are taken to be enabled.

  \<^bold>\<open>Not modelled.\<close> What is written to the terminal and to the log (\<^verbatim>\<open>log.h\<close>), other than by \<^verbatim>\<open>object_show\<close> and the help
  text of the options; the system calls themselves, whose results are arguments, and the flag that the signal handler sets,
  which nothing reads; the table of help texts that a script generates
  (\<^verbatim>\<open>cmd_help\<close>), which the command HELP of the server does not reach; the release of memory, where nothing reads it afterwards.
\<close>

section \<open>From the configuration to a login\<close>

lemma find_listed:
  assumes "map (\<lambda>u. (n u, p u)) xs = map (\<lambda>(nm, pw). (nm, h pw)) ys" "distinct (map fst ys)"
  shows "(\<exists>u. find (\<lambda>u. n u = nm) xs = Some u \<and> p u = h pw) \<longleftrightarrow> (\<exists>pw'. (nm, pw') \<in> set ys \<and> h pw' = h pw)"
  using assms
proof (induction xs arbitrary: ys)
  case (Cons x xs)
  then obtain y zs where y: "ys = y # zs" "n x = fst y" "p x = h (snd y)" by (cases ys) auto
  with Cons show ?case by (cases y) force
qed simp

text \<open>
  C10. Who can log in: on a server that was started from a configuration file, a request \<^verbatim>\<open>AUTH name password\<close> in the
  form that the client library sends is answered with \<^verbatim>\<open>+OK\<close> and marks the connection as authenticated exactly when the
  file lists that name with a password of the same SHA-256 digest; otherwise the answer is
  \<^verbatim>\<open>-failed to authenticate\<close> and the connection keeps its flags. The server itself is unchanged.
\<close>

theorem configured_users_log_in:
  assumes "event_api (se_api S) watched" "file_ok bytes ls a" "bt_file B = Some bytes" "boot_ok S B a"
    and "env_ok S" "length (ctx_data (se_ctx S)) = 64"
    and "read_pos c \<le> length (read_buf c)"
    and "take (read_pos c) (read_buf c) = message (se_fmt_g S) ''AUTH'' [VStr name, VStr pw]"
    and "NUL \<notin> set name" "length name < VSTR_MAX_LARGE_SIZE" "length pw < 2 ^ 32"
    and "vstr_live (cl_builder c)" "vstr_str (cl_builder c) = []"
  shows "\<exists>s c'. server_new S B path = Inr (Ok s) \<and> execute_cmd S s c = Inr (s, c') \<and>
    (if \<exists>pw'. (name, pw') \<in> set (ac_users a) \<and> digest pw' = digest pw
     then cl_flags c' = cl_flags c OR AUTHENTICATED \<and> vstr_str (cl_builder c') = ''+OK'' @ CRLF
     else cl_flags c' = cl_flags c \<and> vstr_str (cl_builder c') = ''-failed to authenticate'' @ CRLF)"
proof -
  have "alloc_total (se_al S)" using assms(5) by (simp add: env_ok_def)
  from server_new_spec [OF assms(1-4) this assms(6), of path] obtain s where
    s: "server_new S B path = Inr (Ok s)" "\<forall>u \<in> set (vec_list (sv_users s)). user_ok u"
      "listed_users (sv_users s) = map (\<lambda>(nm, pw). (nm, digest pw)) (ac_users a)" by blast
  have "distinct (map fst (ac_users a))" using assms(2) by (simp add: file_ok_def)
  with s(3) have "(\<exists>u. named_user (sv_users s) name = Some u \<and> vstr_str (user_password u) = digest pw) \<longleftrightarrow>
      (\<exists>pw'. (name, pw') \<in> set (ac_users a) \<and> digest pw' = digest pw)"
    unfolding listed_users_def named_user_def by (rule find_listed)
  with auth_request_spec [OF s(2) assms(5-13)] s(1) show ?thesis by (auto split: option.splits if_splits)
qed

theorem configured_users_log_in_witness:
  "\<exists>s c'. server_new ex_env ex_boot vstr_new = Inr (Ok s) \<and>
     execute_cmd ex_env s ((ex_client 0)\<lparr>read_buf := message (\<lambda>_. ''1'') ''AUTH'' [VStr ''root'', VStr ''secret''],
       read_pos := length (message (\<lambda>_. ''1'') ''AUTH'' [VStr ''root'', VStr ''secret''])\<rparr>) = Inr (s, c') \<and>
     cl_flags c' = AUTHENTICATED \<and> vstr_str (cl_builder c') = ''+OK'' @ CRLF"
proof -
  let ?m = "message (\<lambda>_. ''1'') ''AUTH'' [VStr ''root'', VStr ''secret'']"
  let ?c = "(ex_client 0)\<lparr>read_buf := ?m, read_pos := length ?m\<rparr>"
  have "bt_file ex_boot = Some (''user root >secret'' @ [LF])" "length (ctx_data (se_ctx ex_env)) = 64" "env_ok ex_env"
    "event_api (se_api ex_env) select_watched"
    using sel.event_api_axioms by (simp_all add: ex_boot_def ex_env_def env_ok_def fmt_g_ok_def)
  moreover have "read_pos ?c \<le> length (read_buf ?c)"
    "take (read_pos ?c) (read_buf ?c) = message (se_fmt_g ex_env) ''AUTH'' [VStr ''root'', VStr ''secret'']"
    "NUL \<notin> set ''root''" "length ''root'' < VSTR_MAX_LARGE_SIZE" "length ''secret'' < 2 ^ 32"
    "vstr_live (cl_builder ?c)" "vstr_str (cl_builder ?c) = []" "cl_flags ?c = 0"
    by (simp_all add: ex_env_def ex_client_def builder_new_def VSTR_MAX_LARGE_SIZE_def)
  ultimately show ?thesis
    using configured_users_log_in [OF _ ex_file_ok _ ex_boot_ok, of select_watched ?c "''root''" "''secret''" vstr_new]
    by (auto simp: empty_conf_def)
qed

end
